(* ===== verification/Kernel_Prelude.thy ===== *)
theory Kernel_Prelude
  imports Main "HOL-Library.Word"
begin

text \<open>
  Shared material of the development: the error values of the model, the lemma collections
  the components fill, and facts on powers of two, aligned ranges and lists that more than
  one component needs.
\<close>

unbundle bit_operations_syntax

section \<open>Errors and results\<close>

text \<open>
  What the C code leaves undefined, or does by reading through a null pointer, is a value of
  \<open>kerror\<close>: a model operation returns \<open>Inl\<close> of it instead of a made-up state.
  \<open>Null_Deref\<close> is an access through a null pointer, \<open>Out_Of_Bounds\<close> an array access outside
  the array, \<open>Bad_Shift\<close> a shift by a negative amount, \<open>Bad_Cast\<close> a list node read as a
  structure it is not embedded in, \<open>Bad_Arg\<close> a variadic argument that is missing or of another
  type, \<open>Div_By_Zero\<close> a division by zero, and \<open>No_Return\<close> a loop that was still running when the
  bound given with the definition ran out.
\<close>

datatype kerror = Null_Deref | Out_Of_Bounds | Bad_Shift | Bad_Cast | Bad_Arg | Div_By_Zero | No_Return

type_synonym 'a result = "kerror + 'a"
type_synonym u64 = "64 word"
type_synonym u32 = "32 word"

definition bind_result :: "'a result \<Rightarrow> ('a \<Rightarrow> 'b result) \<Rightarrow> 'b result" where
  "bind_result r f = (case r of Inl e \<Rightarrow> Inl e | Inr x \<Rightarrow> f x)"

lemma bind_result_simps [simp]:
  "bind_result (Inl e) f = Inl e"
  "bind_result (Inr x) f = f x"
  by (simp_all add: bind_result_def)

lemma bind_result_cong [fundef_cong]:
  "r = r' \<Longrightarrow> (\<And>x. r' = Inr x \<Longrightarrow> f x = g x) \<Longrightarrow> bind_result r f = bind_result r' g"
  by (simp add: bind_result_def split: sum.split)

lemma bind_result_Inr_iff:
  "bind_result r f = Inr y \<longleftrightarrow> (\<exists>x. r = Inr x \<and> f x = Inr y)"
  by (cases r) simp_all

named_theorems frame_simps "fields an operation leaves alone"
named_theorems node_simps "identities between list nodes"

section \<open>Single bits of an integer\<close>

lemma xor_pow2_int:
  "(p::int) XOR 2 ^ k = (if bit p k then p - 2 ^ k else p + 2 ^ k)"
  using flip_bit_eq_if [of k p] unfolding flip_bit_def by (simp add: unset_bit_eq set_bit_eq)

lemma and_not_pow2_int:
  "(p::int) AND NOT (2 ^ k) = (if bit p k then p - 2 ^ k else p)"
  using unset_bit_eq [of k p] unfolding unset_bit_int_def by simp

lemma bit_odd_div_int: "bit (p::int) k \<longleftrightarrow> odd (p div 2 ^ k)"
  by (simp add: bit_iff_odd)

lemma dvd_pow2_Suc_iff:
  "2 ^ Suc k dvd (p::int) \<longleftrightarrow> 2 ^ k dvd p \<and> \<not> bit p k"
proof
  assume "2 ^ Suc k dvd p"
  then obtain c where c: "p = 2 ^ Suc k * c" ..
  then have "p = 2 ^ k * (2 * c)" by simp
  then show "2 ^ k dvd p \<and> \<not> bit p k"
    by (simp add: bit_odd_div_int)
next
  assume a: "2 ^ k dvd p \<and> \<not> bit p k"
  then obtain c where c: "p = 2 ^ k * c" by (auto elim: dvdE)
  with a have "even c" by (simp add: bit_odd_div_int)
  with c show "2 ^ Suc k dvd p" by auto
qed

lemma bit_minus_pow2_dvd:
  assumes "2 ^ k dvd (p::int)" and "bit p k"
  shows "2 ^ Suc k dvd p - 2 ^ k"
proof -
  from assms(1) obtain c where c: "p = 2 ^ k * c" ..
  with assms(2) have "odd c" by (simp add: bit_odd_div_int)
  then obtain d where "c = 2 * d + 1" by (auto elim: oddE)
  with c have "p - 2 ^ k = 2 ^ Suc k * d" by (simp add: algebra_simps)
  then show ?thesis by (metis dvd_triv_left)
qed

lemma uint_u64_of_int: "0 \<le> m \<Longrightarrow> m < 2 ^ 64 \<Longrightarrow> uint (word_of_int m :: u64) = m"
  by (simp add: uint_word_of_int)

section \<open>Aligned ranges\<close>

text \<open>The range a block of \<open>2 ^ k\<close> units starting at \<open>p\<close> occupies.\<close>

definition block_range :: "int \<Rightarrow> nat \<Rightarrow> int set" where
  "block_range p k = {p ..< p + 2 ^ k}"

lemma block_range_nonempty [simp]: "block_range p k \<noteq> {}" "p \<in> block_range p k"
  by (auto simp: block_range_def)

lemma finite_block_range [simp]: "finite (block_range p k)"
  by (simp add: block_range_def)

lemma card_block_range [simp]: "card (block_range p k) = 2 ^ k"
  by (simp add: block_range_def nat_power_eq)

lemma aligned_range_iff:
  assumes "2 ^ k dvd (p::int)"
  shows "x \<in> block_range p k \<longleftrightarrow> x div 2 ^ k = p div 2 ^ k"
proof -
  from assms obtain c where c: "p = 2 ^ k * c" ..
  define r where "r = x mod 2 ^ k"
  define d where "d = x div 2 ^ k"
  have x: "x = 2 ^ k * d + r" by (simp add: r_def d_def)
  have r: "0 \<le> r" "r < 2 ^ k" by (simp_all add: r_def)
  have "d = c" if "x \<in> block_range p k"
  proof -
    from that x c have "2 ^ k * c \<le> 2 ^ k * d + r" "2 ^ k * d + r < 2 ^ k * c + 2 ^ k"
      by (auto simp: block_range_def)
    with r have "2 ^ k * c < 2 ^ k * (d + 1)" "2 ^ k * d < 2 ^ k * (c + 1)"
      by (simp_all add: distrib_left)
    then have "c < d + 1" "d < c + 1" by (simp_all del: mult_less_cancel_left)
    then show ?thesis by simp
  qed
  moreover have "x \<in> block_range p k" if "d = c"
    using that x c r by (simp add: block_range_def)
  ultimately show ?thesis using c by (auto simp: d_def)
qed

text \<open>Two aligned ranges are nested or disjoint.\<close>

lemma aligned_nested:
  assumes j: "2 ^ j dvd (p::int)" and k: "2 ^ k dvd (q::int)" and le: "j \<le> k"
    and meet: "block_range p j \<inter> block_range q k \<noteq> {}"
  shows "block_range p j \<subseteq> block_range q k"
proof
  from meet obtain x where x: "x \<in> block_range p j" "x \<in> block_range q k" by blast
  fix y assume y: "y \<in> block_range p j"
  have split: "(2::int) ^ k = 2 ^ j * 2 ^ (k - j)"
    using le by (simp flip: power_add)
  have "z div 2 ^ k = z div 2 ^ j div 2 ^ (k - j)" for z :: int
    unfolding split by (simp add: zdiv_zmult2_eq)
  with x y show "y \<in> block_range q k"
    by (simp add: aligned_range_iff [OF j] aligned_range_iff [OF k])
qed

lemma block_range_halves:
  "block_range p (Suc k) = block_range p k \<union> block_range (p + 2 ^ k) k"
  "block_range p k \<inter> block_range (p + 2 ^ k) k = {}"
  by (auto simp: block_range_def)

section \<open>Lists\<close>

lemma distinct_split_remove1:
  assumes "distinct xs" and "x \<in> set xs"
  obtains ys zs where "xs = ys @ x # zs" "remove1 x xs = ys @ zs" "x \<notin> set ys" "x \<notin> set zs"
proof -
  from assms(2) obtain ys zs where s: "xs = ys @ x # zs" by (meson split_list)
  with assms(1) have "x \<notin> set ys" "x \<notin> set zs" by auto
  moreover from this s have "remove1 x xs = ys @ zs" by (simp add: remove1_append)
  ultimately show thesis using that s by blast
qed

section \<open>Reachable states\<close>

text \<open>
  The states a component reaches from where it starts, in any sequence of its steps, and the
  contract of an invariant: it holds at the start and every step keeps it.
\<close>

inductive reachable :: "('s \<Rightarrow> bool) \<Rightarrow> ('s \<Rightarrow> 's \<Rightarrow> bool) \<Rightarrow> 's \<Rightarrow> bool" for start step where
  at_start: "start s \<Longrightarrow> reachable start step s"
| next_step: "reachable start step s \<Longrightarrow> step s s' \<Longrightarrow> reachable start step s'"

locale invariant =
  fixes start :: "'s \<Rightarrow> bool" and step :: "'s \<Rightarrow> 's \<Rightarrow> bool" and inv :: "'s \<Rightarrow> bool"
  assumes start_inv: "start s \<Longrightarrow> inv s"
    and step_inv: "inv s \<Longrightarrow> step s s' \<Longrightarrow> inv s'"
begin

lemma reachable_inv: "reachable start step s \<Longrightarrow> inv s"
  by (induction rule: reachable.induct) (auto intro: start_inv step_inv)

end

end
