(* ===== verification/Linked_List.thy ===== *)
theory Linked_List
  imports Kernel_Prelude
begin

text \<open>
  The intrusive doubly linked lists of \<open>include/list.h\<close>. A heap gives every list node its
  \<open>struct list_head\<close>; each inline function of the header is a function on heaps that makes
  the same pointer writes in the same order. The relation \<open>dlists\<close> says which lists a heap
  holds, and the lemmas show what every operation does to them. The locale \<open>list_family\<close> is
  the interface the allocators, the timer and the wait queues rely on.
\<close>

section \<open>Nodes, heaps and the operations of list.h\<close>

record 'n list_head =
  nxt :: 'n
  prv :: 'n

type_synonym 'n list_heap = "'n \<Rightarrow> 'n list_head"

definition set_nxt :: "'n \<Rightarrow> 'n \<Rightarrow> 'n list_heap \<Rightarrow> 'n list_heap" where
  "set_nxt a b h = h(a := (h a)\<lparr>nxt := b\<rparr>)"

definition set_prv :: "'n \<Rightarrow> 'n \<Rightarrow> 'n list_heap \<Rightarrow> 'n list_heap" where
  "set_prv a b h = h(a := (h a)\<lparr>prv := b\<rparr>)"

definition INIT_LIST_HEAD :: "'n \<Rightarrow> 'n list_heap \<Rightarrow> 'n list_heap" where
  "INIT_LIST_HEAD l h = set_prv l l (set_nxt l l h)"

text \<open>The header's \<open>__list_add(new, prev, next)\<close>.\<close>

definition list_add_between :: "'n \<Rightarrow> 'n \<Rightarrow> 'n \<Rightarrow> 'n list_heap \<Rightarrow> 'n list_heap" where
  "list_add_between new prev next h =
     (let h1 = set_prv next new h;
          h2 = set_nxt new next h1;
          h3 = set_prv new prev h2
      in set_nxt prev new h3)"

definition list_add :: "'n \<Rightarrow> 'n \<Rightarrow> 'n list_heap \<Rightarrow> 'n list_heap" where
  "list_add new head h = list_add_between new head (nxt (h head)) h"

definition list_add_tail :: "'n \<Rightarrow> 'n \<Rightarrow> 'n list_heap \<Rightarrow> 'n list_heap" where
  "list_add_tail new head h = list_add_between new (prv (h head)) head h"

text \<open>The header's \<open>__list_del(prev, next)\<close>.\<close>

definition list_del_between :: "'n \<Rightarrow> 'n \<Rightarrow> 'n list_heap \<Rightarrow> 'n list_heap" where
  "list_del_between prev next h = set_nxt prev next (set_prv next prev h)"

definition list_del :: "'n \<Rightarrow> 'n list_heap \<Rightarrow> 'n list_heap" where
  "list_del entry h = list_del_between (prv (h entry)) (nxt (h entry)) h"

definition list_empty :: "'n \<Rightarrow> 'n list_heap \<Rightarrow> bool" where
  "list_empty head h \<longleftrightarrow> nxt (h head) = head"

text \<open>
  The node a client reads with \<open>head->next\<close> before it casts it to the structure the node is
  embedded in (the \<open>list\<close> member comes first in all of them).
\<close>

definition list_first :: "'n \<Rightarrow> 'n list_heap \<Rightarrow> 'n" where
  "list_first head h = nxt (h head)"

text \<open>
  The macro \<open>list_for_each(pos, head)\<close> with a body that leaves the links alone: the nodes
  the cursor visits. The bound is the number of steps the loop may take; a loop still
  running then is \<open>None\<close>.
\<close>

fun list_for_each :: "nat \<Rightarrow> 'n list_heap \<Rightarrow> 'n \<Rightarrow> 'n \<Rightarrow> 'n list option" where
  "list_for_each 0 h pos head = (if pos = head then Some [] else None)"
| "list_for_each (Suc fuel) h pos head =
     (if pos = head then Some []
      else map_option ((#) pos) (list_for_each fuel h (nxt (h pos)) head))"

section \<open>Which lists a heap holds\<close>

text \<open>
  \<open>dseg h a xs b\<close>: following \<open>nxt\<close> from \<open>a\<close> goes through the nodes \<open>xs\<close> to \<open>b\<close>, and every
  \<open>prv\<close> on the way points back.
\<close>

fun dseg :: "'n list_heap \<Rightarrow> 'n \<Rightarrow> 'n list \<Rightarrow> 'n \<Rightarrow> bool" where
  "dseg h a [] b \<longleftrightarrow> nxt (h a) = b \<and> prv (h b) = a"
| "dseg h a (x # xs) b \<longleftrightarrow> nxt (h a) = x \<and> prv (h x) = a \<and> dseg h x xs b"

definition dlist :: "'n list_heap \<Rightarrow> 'n \<Rightarrow> 'n list \<Rightarrow> bool" where
  "dlist h head xs \<longleftrightarrow> distinct (head # xs) \<and> dseg h head xs head"

text \<open>
  A family of lists: every head of \<open>D\<close> carries the list \<open>L\<close> gives it, and no node is on two
  of them.
\<close>

definition dlists :: "'n list_heap \<Rightarrow> 'n set \<Rightarrow> ('n \<Rightarrow> 'n list) \<Rightarrow> bool" where
  "dlists h D L \<longleftrightarrow>
     (\<forall>d\<in>D. dlist h d (L d)) \<and>
     (\<forall>d\<in>D. \<forall>e\<in>D. d \<noteq> e \<longrightarrow> set (d # L d) \<inter> set (e # L e) = {})"

lemma set_nxt_apply:
  "set_nxt a b h x = (if x = a then (h a)\<lparr>nxt := b\<rparr> else h x)"
  by (simp add: set_nxt_def)

lemma set_prv_apply:
  "set_prv a b h x = (if x = a then (h a)\<lparr>prv := b\<rparr> else h x)"
  by (simp add: set_prv_def)

lemmas link_apply = set_nxt_apply set_prv_apply

lemma nxt_add_between:
  "nxt (list_add_between new p n h x) =
     (if x = p then new else if x = new then n else nxt (h x))"
  by (simp add: list_add_between_def Let_def link_apply)

lemma prv_add_between:
  assumes "new \<noteq> n"
  shows "prv (list_add_between new p n h x) =
     (if x = new then p else if x = n then new else prv (h x))"
  using assms by (simp add: list_add_between_def Let_def link_apply)

lemma nxt_del_between:
  "nxt (list_del_between p n h x) = (if x = p then n else nxt (h x))"
  by (simp add: list_del_between_def link_apply)

lemma prv_del_between:
  "prv (list_del_between p n h x) = (if x = n then p else prv (h x))"
  by (simp add: list_del_between_def link_apply)

lemmas between_simps = nxt_add_between prv_add_between nxt_del_between prv_del_between

lemma dseg_append:
  "dseg h a (xs @ y # ys) b \<longleftrightarrow> dseg h a xs y \<and> dseg h y ys b"
  by (induction xs arbitrary: a) auto

text \<open>A segment reads the \<open>nxt\<close> of its first nodes and the \<open>prv\<close> of its last ones only.\<close>

lemma dseg_cong:
  assumes "dseg h a xs b"
    and "\<And>x. x \<in> set (a # xs) \<Longrightarrow> nxt (h' x) = nxt (h x)"
    and "\<And>x. x \<in> set (b # xs) \<Longrightarrow> prv (h' x) = prv (h x)"
  shows "dseg h' a xs b"
  using assms by (induction xs arbitrary: a) auto

lemma dlist_frame:
  assumes "dlist h d xs" and "\<And>x. x \<in> set (d # xs) \<Longrightarrow> h' x = h x"
  shows "dlist h' d xs"
proof -
  from assms(1) have "dseg h d xs d" by (simp add: dlist_def)
  then have "dseg h' d xs d" by (rule dseg_cong) (simp_all add: assms(2))
  with assms(1) show ?thesis by (simp add: dlist_def)
qed

lemma dseg_first: "dseg h a xs b \<Longrightarrow> nxt (h a) = hd (xs @ [b])"
  by (cases xs) auto

lemma dseg_last: "dseg h a xs b \<Longrightarrow> prv (h b) = last (a # xs)"
  by (induction xs arbitrary: a) auto

lemma dlist_first: "dlist h d xs \<Longrightarrow> nxt (h d) = hd (xs @ [d])"
  by (simp add: dlist_def dseg_first)

lemma dlist_last: "dlist h d xs \<Longrightarrow> prv (h d) = last (d # xs)"
  unfolding dlist_def using dseg_last by fastforce

lemma dlist_list_empty: "dlist h d xs \<Longrightarrow> list_empty d h \<longleftrightarrow> xs = []"
  by (cases xs) (auto simp: list_empty_def dlist_def)

lemma dlist_neighbours:
  assumes "dlist h d (xs @ y # ys)"
  shows "nxt (h y) = hd (ys @ [d])" and "prv (h y) = last (d # xs)"
proof -
  from assms have s: "dseg h d xs y" "dseg h y ys d" by (auto simp: dlist_def dseg_append)
  from s(2) show "nxt (h y) = hd (ys @ [d])" by (rule dseg_first)
  from s(1) show "prv (h y) = last (d # xs)" by (rule dseg_last)
qed

lemma dseg_unique:
  assumes "dseg h a xs d" "dseg h a ys d" "d \<notin> set xs" "d \<notin> set ys"
  shows "xs = ys"
  using assms
proof (induction xs arbitrary: a ys)
  case Nil
  then show ?case by (cases ys) auto
next
  case (Cons x xs)
  then show ?case by (cases ys) auto
qed

lemma dlist_unique: "dlist h d xs \<Longrightarrow> dlist h d ys \<Longrightarrow> xs = ys"
  by (auto simp: dlist_def intro: dseg_unique)

section \<open>What the operations do to one list\<close>

lemma dlist_INIT: "dlist (INIT_LIST_HEAD d h) d []"
  by (simp add: dlist_def INIT_LIST_HEAD_def link_apply)

lemma INIT_frame: "x \<noteq> d \<Longrightarrow> INIT_LIST_HEAD d h x = h x"
  by (simp add: INIT_LIST_HEAD_def link_apply)

text \<open>Adding after any node of the list, the head included.\<close>

lemma dlist_insert_after:
  assumes l: "dlist h d (xs @ ys)" and n: "n \<notin> set (d # xs @ ys)"
    and a: "a = last (d # xs)"
  shows "dlist (list_add n a h) d (xs @ n # ys)"
proof -
  let ?b = "hd (ys @ [d])"
  from l have seg: "dseg h d (xs @ ys) d" and dist: "distinct (d # xs @ ys)"
    by (simp_all add: dlist_def)
  have b: "nxt (h a) = ?b"
  proof (cases xs rule: rev_cases)
    case Nil
    with a seg show ?thesis by (simp add: dseg_first)
  next
    case (snoc zs z)
    with l a show ?thesis using dlist_neighbours(1) [of h d zs z ys] by simp
  qed
  have nb: "n \<noteq> ?b" using n by (cases ys) auto
  define h' where "h' = list_add_between n a ?b h"
  have left: "dseg h d xs ?b" and right: "ys \<noteq> [] \<Longrightarrow> dseg h ?b (tl ys) d"
    using seg by (cases ys; simp add: dseg_append)+
  have pb: "prv (h ?b) = a" using left a dseg_last by metis
  have nbx: "?b \<notin> set xs" using dist by (cases ys) auto
  have "dseg h' d xs n"
  proof (cases xs rule: rev_cases)
    case Nil
    with a n nb show ?thesis by (auto simp: h'_def between_simps)
  next
    case (snoc zs z)
    with a have z: "a = z" by simp
    from left snoc have zs: "dseg h d zs z" by (simp add: dseg_append)
    have "dseg h' d zs z"
    proof (rule dseg_cong [OF zs])
      fix x assume "x \<in> set (d # zs)"
      then show "nxt (h' x) = nxt (h x)"
        using dist snoc z n nb by (auto simp: h'_def between_simps)
    next
      fix x assume "x \<in> set (z # zs)"
      then show "prv (h' x) = prv (h x)"
        using dist snoc z n nb nbx by (auto simp: h'_def between_simps)
    qed
    moreover have "nxt (h' z) = n" "prv (h' n) = z"
      using z n nb by (auto simp: h'_def between_simps)
    ultimately show ?thesis by (simp add: snoc dseg_append)
  qed
  moreover have "dseg h' n ys d"
  proof (cases ys)
    case Nil
    with n nb a show ?thesis by (auto simp: h'_def between_simps)
  next
    case (Cons y zs)
    then have zs: "dseg h y zs d" using right by simp
    have ax: "a \<notin> set ys" using a dist by (cases xs rule: rev_cases) auto
    have "dseg h' y zs d"
    proof (rule dseg_cong [OF zs])
      fix x assume "x \<in> set (y # zs)"
      then show "nxt (h' x) = nxt (h x)"
        using ax n nb Cons by (auto simp: h'_def between_simps)
    next
      fix x assume "x \<in> set (d # zs)"
      then show "prv (h' x) = prv (h x)"
        using dist n nb Cons by (auto simp: h'_def between_simps)
    qed
    moreover have "nxt (h' n) = y" "prv (h' y) = n"
      using Cons n nb a by (auto simp: h'_def between_simps)
    ultimately show ?thesis by (simp add: Cons)
  qed
  ultimately have "dseg h' d (xs @ n # ys) d" by (simp add: dseg_append)
  moreover have "list_add n a h = h'" by (simp add: list_add_def b h'_def)
  ultimately show ?thesis using dist n by (auto simp: dlist_def)
qed

lemma list_add_tail_as_add:
  assumes "dlist h d xs"
  shows "list_add_tail n d h = list_add n (last (d # xs)) h"
proof -
  have "nxt (h (last (d # xs))) = d"
  proof (cases xs rule: rev_cases)
    case Nil
    with assms show ?thesis using dlist_first by fastforce
  next
    case (snoc zs z)
    with assms show ?thesis using dlist_neighbours(1) [of h d zs z "[]"] by simp
  qed
  with dlist_last [OF assms] show ?thesis
    by (simp add: list_add_tail_def list_add_def)
qed

lemma dlist_add_tail:
  assumes "dlist h d xs" and "n \<notin> set (d # xs)"
  shows "dlist (list_add_tail n d h) d (xs @ [n])"
  using dlist_insert_after [of h d xs "[]" n] assms
  by (simp add: list_add_tail_as_add)

lemma dlist_add:
  assumes "dlist h d xs" and "n \<notin> set (d # xs)"
  shows "dlist (list_add n d h) d (n # xs)"
  using dlist_insert_after [of h d "[]" xs n] assms by simp

lemma add_tail_frame:
  assumes "dlist h d xs" and "x \<notin> set (d # xs)" and "x \<noteq> n"
  shows "list_add_tail n d h x = h x"
proof -
  have "prv (h d) \<in> set (d # xs)" unfolding dlist_last [OF assms(1)] by (rule last_in_set) simp
  with assms(2,3) have "x \<noteq> prv (h d)" by blast
  with assms(2,3) show ?thesis
    by (simp add: list_add_tail_def list_add_between_def Let_def link_apply)
qed

lemma dlist_del:
  assumes l: "dlist h d (xs @ y # ys)"
  shows "dlist (list_del y h) d (xs @ ys)"
proof -
  let ?p = "last (d # xs)" and ?q = "hd (ys @ [d])"
  define h' where "h' = list_del_between ?p ?q h"
  from l have seg: "dseg h d xs y" "dseg h y ys d" and dist: "distinct (d # xs @ y # ys)"
    by (simp_all add: dlist_def dseg_append)
  have h': "list_del y h = h'"
    using dlist_neighbours [OF l] by (simp add: list_del_def h'_def)
  have qx: "?q \<notin> set xs" using dist by (cases ys) auto
  have px: "?p \<notin> set ys" using dist by (cases xs rule: rev_cases) auto
  have left: "dseg h' d xs ?q"
  proof (cases xs rule: rev_cases)
    case Nil
    then show ?thesis by (simp add: h'_def between_simps)
  next
    case (snoc zs z)
    with seg have zs: "dseg h d zs z" by (simp add: dseg_append)
    have "dseg h' d zs z"
      by (rule dseg_cong [OF zs]) (use dist snoc qx in \<open>auto simp: h'_def between_simps\<close>)
    with snoc show ?thesis by (simp add: dseg_append h'_def between_simps)
  qed
  show ?thesis
  proof (cases ys)
    case Nil
    with left dist show ?thesis by (simp add: h' dlist_def)
  next
    case (Cons z zs)
    with seg have zs: "dseg h z zs d" by simp
    have "dseg h' z zs d"
      by (rule dseg_cong [OF zs]) (use dist Cons px in \<open>auto simp: h'_def between_simps\<close>)
    with left Cons dist show ?thesis by (auto simp: h' dlist_def dseg_append)
  qed
qed

text \<open>
  Deleting touches neighbours only: in particular the deleted node keeps its own links,
  which is what lets a loop over the list delete the node its cursor is on.
\<close>

lemma list_del_frame:
  assumes "dlist h d (xs @ y # ys)" and "x \<notin> set (d # xs @ ys)"
  shows "list_del y h x = h x"
proof -
  have "last (d # xs) \<in> set (d # xs)" by (rule last_in_set) simp
  moreover have "hd (ys @ [d]) \<in> set (d # ys)" by (cases ys) auto
  ultimately have "x \<noteq> last (d # xs)" "x \<noteq> hd (ys @ [d])" using assms(2) by auto
  then show ?thesis using dlist_neighbours [OF assms(1)]
    by (simp add: list_del_def list_del_between_def link_apply)
qed

lemma list_for_each_seg:
  assumes "dseg h a xs d" "d \<notin> set xs" "length xs \<le> fuel"
  shows "list_for_each fuel h (nxt (h a)) d = Some xs"
  using assms
proof (induction xs arbitrary: a fuel)
  case Nil
  then show ?case by (cases fuel) auto
next
  case (Cons x xs)
  then obtain f where f: "fuel = Suc f" by (cases fuel) auto
  from Cons.prems have "list_for_each f h (nxt (h x)) d = Some xs"
    by (intro Cons.IH) (simp_all add: f)
  with Cons.prems f show ?case by auto
qed

lemma list_for_each_dlist:
  "dlist h d xs \<Longrightarrow> length xs \<le> fuel \<Longrightarrow> list_for_each fuel h (nxt (h d)) d = Some xs"
  by (auto simp: dlist_def intro: list_for_each_seg)

section \<open>What the operations do to a family of lists\<close>

lemma dlistsI [intro?]:
  assumes "\<And>d. d \<in> D \<Longrightarrow> dlist h d (L d)"
    and "\<And>d e. d \<in> D \<Longrightarrow> e \<in> D \<Longrightarrow> d \<noteq> e \<Longrightarrow> set (d # L d) \<inter> set (e # L e) = {}"
  shows "dlists h D L"
  using assms unfolding dlists_def by blast

lemma dlists_dlist: "dlists h D L \<Longrightarrow> d \<in> D \<Longrightarrow> dlist h d (L d)"
  by (simp add: dlists_def)

lemma dlists_disjoint:
  "dlists h D L \<Longrightarrow> d \<in> D \<Longrightarrow> e \<in> D \<Longrightarrow> d \<noteq> e \<Longrightarrow> set (d # L d) \<inter> set (e # L e) = {}"
  unfolding dlists_def by blast

lemma dlists_distinct: "dlists h D L \<Longrightarrow> d \<in> D \<Longrightarrow> distinct (d # L d)"
  using dlists_dlist dlist_def by metis

lemma dlists_head_not_member: "dlists h D L \<Longrightarrow> d \<in> D \<Longrightarrow> e \<in> D \<Longrightarrow> d \<notin> set (L e)"
proof (cases "d = e")
  case True
  assume "dlists h D L" "d \<in> D"
  then have "distinct (d # L d)" by (rule dlists_distinct)
  with True show ?thesis by simp
next
  case False
  assume "dlists h D L" "d \<in> D" "e \<in> D"
  from dlists_disjoint [OF this False] show ?thesis by auto
qed

lemma dlists_member_unique:
  assumes "dlists h D L" "d \<in> D" "e \<in> D" "x \<in> set (L d)" "x \<in> set (L e)"
  shows "d = e"
  using dlists_disjoint [OF assms(1-3)] assms(4,5) by auto

lemma dlists_mono: "dlists h D L \<Longrightarrow> E \<subseteq> D \<Longrightarrow> dlists h E L"
  unfolding dlists_def by blast

lemma dlists_cong_lists:
  assumes "dlists h D L" and "\<And>d. d \<in> D \<Longrightarrow> L' d = L d"
  shows "dlists h D L'"
  using assms unfolding dlists_def by simp

text \<open>
  One list of the family changes, every other one is left alone: the common part of the
  proofs for insertion and deletion.
\<close>

lemma dlists_update:
  assumes fam: "dlists h D L" and d: "d \<in> D"
    and new: "dlist h' d xs"
    and frame: "\<And>x. x \<notin> set (d # L d) \<Longrightarrow> x \<notin> set xs \<Longrightarrow> h' x = h x"
    and fresh: "\<And>x e. x \<in> set xs \<Longrightarrow> x \<notin> set (L d) \<Longrightarrow> e \<in> D \<Longrightarrow> x \<notin> set (e # L e)"
  shows "dlists h' D (L(d := xs))"
proof
  fix e assume e: "e \<in> D"
  show "dlist h' e ((L(d := xs)) e)"
  proof (cases "e = d")
    case True
    with new show ?thesis by simp
  next
    case False
    have "dlist h' e (L e)"
    proof (rule dlist_frame [OF dlists_dlist [OF fam e]])
      fix x assume x: "x \<in> set (e # L e)"
      then have out: "x \<notin> set (d # L d)"
        using dlists_disjoint [OF fam e d False] by blast
      moreover have "x \<notin> set xs" using fresh [of x e] out x e by auto
      ultimately show "h' x = h x" by (rule frame)
    qed
    with False show ?thesis by simp
  qed
next
  fix e f assume e: "e \<in> D" and f: "f \<in> D" and ne: "e \<noteq> f"
  have key: "set (d # xs) \<inter> set (g # L g) = {}" if g: "g \<in> D" "g \<noteq> d" for g
  proof -
    have old: "set (d # L d) \<inter> set (g # L g) = {}"
      using dlists_disjoint [OF fam d g(1)] g(2) by blast
    have "x \<notin> set (g # L g)" if "x \<in> set xs" for x
      using fresh [OF that _ g(1)] old by (cases "x \<in> set (L d)") auto
    then show ?thesis using old by auto
  qed
  show "set (e # (L(d := xs)) e) \<inter> set (f # (L(d := xs)) f) = {}"
    using key [of e] key [of f] dlists_disjoint [OF fam e f ne] e f ne
    by (cases "e = d"; cases "f = d") (auto simp: Int_commute)
qed

lemma dlists_add_tail:
  assumes fam: "dlists h D L" and d: "d \<in> D" and n: "\<And>e. e \<in> D \<Longrightarrow> n \<notin> set (e # L e)"
  shows "dlists (list_add_tail n d h) D (L(d := L d @ [n]))"
proof (rule dlists_update [OF fam d])
  show "dlist (list_add_tail n d h) d (L d @ [n])"
    using dlist_add_tail [OF dlists_dlist [OF fam d] n [OF d]] .
  fix x assume "x \<notin> set (d # L d)" "x \<notin> set (L d @ [n])"
  then show "list_add_tail n d h x = h x"
    by (intro add_tail_frame [OF dlists_dlist [OF fam d]]) auto
next
  fix x e assume "x \<in> set (L d @ [n])" "x \<notin> set (L d)" "e \<in> D"
  then show "x \<notin> set (e # L e)" using n by auto
qed

lemma dlists_del:
  assumes fam: "dlists h D L" and d: "d \<in> D" and y: "y \<in> set (L d)"
  shows "dlists (list_del y h) D (L(d := remove1 y (L d)))"
proof -
  have "distinct (L d)" using dlists_distinct [OF fam d] by simp
  then obtain xs ys where s: "L d = xs @ y # ys" and r: "remove1 y (L d) = xs @ ys"
    and ny: "y \<notin> set xs" "y \<notin> set ys"
    by (rule distinct_split_remove1 [OF _ y])
  have l: "dlist h d (xs @ y # ys)" using dlists_dlist [OF fam d] s by simp
  show ?thesis unfolding r
  proof (rule dlists_update [OF fam d])
    show "dlist (list_del y h) d (xs @ ys)" by (rule dlist_del [OF l])
    fix x assume "x \<notin> set (d # L d)" "x \<notin> set (xs @ ys)"
    then show "list_del y h x = h x" by (intro list_del_frame [OF l]) auto
  next
    fix x e assume "x \<in> set (xs @ ys)" "x \<notin> set (L d)" "e \<in> D"
    then show "x \<notin> set (e # L e)" using s by auto
  qed
qed

lemma dlists_list_empty: "dlists h D L \<Longrightarrow> d \<in> D \<Longrightarrow> list_empty d h \<longleftrightarrow> L d = []"
  using dlist_list_empty dlists_dlist by metis

lemma dlists_first: "dlists h D L \<Longrightarrow> d \<in> D \<Longrightarrow> L d \<noteq> [] \<Longrightarrow> list_first d h = hd (L d)"
  using dlist_first dlists_dlist unfolding list_first_def by fastforce

lemma dlists_INIT:
  assumes fam: "dlists h D L" and d: "\<And>e. e \<in> D \<Longrightarrow> d \<notin> set (e # L e)"
  shows "dlists (INIT_LIST_HEAD d h) (insert d D) (L(d := []))"
proof
  fix e assume e: "e \<in> insert d D"
  show "dlist (INIT_LIST_HEAD d h) e ((L(d := [])) e)"
  proof (cases "e = d")
    case True
    then show ?thesis by (simp add: dlist_INIT)
  next
    case False
    with e have eD: "e \<in> D" by simp
    have "dlist (INIT_LIST_HEAD d h) e (L e)"
      by (rule dlist_frame [OF dlists_dlist [OF fam eD]]) (use d [OF eD] in \<open>auto intro: INIT_frame\<close>)
    with False show ?thesis by simp
  qed
next
  fix e f assume "e \<in> insert d D" "f \<in> insert d D" "e \<noteq> f"
  then show "set (e # (L(d := [])) e) \<inter> set (f # (L(d := [])) f) = {}"
    using d dlists_disjoint [OF fam] by (cases "e = d"; cases "f = d") fastforce+
qed

section \<open>The interface the clients rely on\<close>

text \<open>
  What a component that keeps its objects on intrusive lists may assume of the list
  operations: appending, deleting and initialising change exactly one list of the family.
\<close>

locale list_family =
  fixes repr :: "'h \<Rightarrow> 'n set \<Rightarrow> ('n \<Rightarrow> 'n list) \<Rightarrow> bool"
    and add_tail :: "'n \<Rightarrow> 'n \<Rightarrow> 'h \<Rightarrow> 'h"
    and del :: "'n \<Rightarrow> 'h \<Rightarrow> 'h"
    and is_empty :: "'n \<Rightarrow> 'h \<Rightarrow> bool"
    and first :: "'n \<Rightarrow> 'h \<Rightarrow> 'n"
  assumes repr_distinct: "repr h D L \<Longrightarrow> d \<in> D \<Longrightarrow> distinct (d # L d)"
    and repr_disjoint: "repr h D L \<Longrightarrow> d \<in> D \<Longrightarrow> e \<in> D \<Longrightarrow> d \<noteq> e \<Longrightarrow>
          set (d # L d) \<inter> set (e # L e) = {}"
    and repr_add_tail: "repr h D L \<Longrightarrow> d \<in> D \<Longrightarrow> (\<And>e. e \<in> D \<Longrightarrow> n \<notin> set (e # L e)) \<Longrightarrow>
          repr (add_tail n d h) D (L(d := L d @ [n]))"
    and repr_del: "repr h D L \<Longrightarrow> d \<in> D \<Longrightarrow> y \<in> set (L d) \<Longrightarrow>
          repr (del y h) D (L(d := remove1 y (L d)))"
    and repr_empty: "repr h D L \<Longrightarrow> d \<in> D \<Longrightarrow> is_empty d h \<longleftrightarrow> L d = []"
    and repr_first: "repr h D L \<Longrightarrow> d \<in> D \<Longrightarrow> L d \<noteq> [] \<Longrightarrow> first d h = hd (L d)"
begin

text \<open>Taking the first element off a list, the way both allocators take a page.\<close>

lemma take_first:
  assumes "repr h D L" "d \<in> D" "\<not> is_empty d h"
  shows "first d h \<in> set (L d)"
    and "repr (del (first d h) h) D (L(d := tl (L d)))"
proof -
  from assms have ne: "L d \<noteq> []" by (simp add: repr_empty)
  then obtain x xs where l: "L d = x # xs" by (cases "L d") auto
  from assms ne l have f: "first d h = x" by (simp add: repr_first)
  with l show m: "first d h \<in> set (L d)" by simp
  from repr_del [OF assms(1,2) m] l f
  show "repr (del (first d h) h) D (L(d := tl (L d)))" by simp
qed

text \<open>Moving a node between two lists of the family.\<close>

lemma move:
  assumes r: "repr h D L" and d: "d \<in> D" and e: "e \<in> D" and ne: "d \<noteq> e" and y: "y \<in> set (L d)"
  shows "repr (add_tail y e (del y h)) D (L(d := remove1 y (L d), e := L e @ [y]))"
proof -
  let ?L = "L(d := remove1 y (L d))"
  have r1: "repr (del y h) D ?L" by (rule repr_del [OF r d y])
  have fresh: "y \<notin> set (f # ?L f)" if f: "f \<in> D" for f
  proof (cases "f = d")
    case True
    with repr_distinct [OF r d] y show ?thesis by auto
  next
    case False
    with repr_disjoint [OF r f d] y show ?thesis by auto
  qed
  have "repr (add_tail y e (del y h)) D (?L(e := ?L e @ [y]))"
    by (rule repr_add_tail [OF r1 e fresh])
  with ne show ?thesis by simp
qed

text \<open>First in, first out.\<close>

lemma fifo:
  assumes "repr h D L" "d \<in> D" "L d = x # xs" "\<And>e. e \<in> D \<Longrightarrow> n \<notin> set (e # L e)"
  shows "first d (add_tail n d h) = x"
  using repr_first [OF repr_add_tail [OF assms(1,2,4)] assms(2)] assms(3) by simp

end

interpretation kl: list_family dlists list_add_tail list_del list_empty list_first
  by unfold_locales
    (fact dlists_distinct dlists_disjoint dlists_add_tail dlists_del dlists_list_empty
      dlists_first)+

end
