(* ===== verification/Mm_State.thy ===== *)
theory Mm_State
  imports Linked_List
begin

text \<open>
  The data of \<open>src/mm.c\<close> and \<open>include/mm.h\<close>: the page frames, the free areas of the buddy
  system, the pool of object allocators, and the list nodes embedded in them. A
  \<open>struct page *\<close> is the index of the page in \<open>bookkeep\<close>, an \<open>obj_allocator_t *\<close> the index
  (token) in \<open>obj_alloc_pool\<close>, an \<open>int\<close> of the source a HOL integer (every value the code
  computes stays far below the 32-bit range, which the bounds lemmas of the components show),
  and a physical address a 64-bit word. Initial memory is that of the zeroed bss section.
\<close>

abbreviation PAGE_SHIFT :: nat where "PAGE_SHIFT \<equiv> 12"
abbreviation PAGE_SIZE :: int where "PAGE_SIZE \<equiv> 4096"
abbreviation PAGE_FRAME_NUM :: int where "PAGE_FRAME_NUM \<equiv> 4096"
abbreviation MAX_ORDER :: int where "MAX_ORDER \<equiv> 9"
abbreviation MAX_ORDER_SIZE :: int where "MAX_ORDER_SIZE \<equiv> 512"
abbreviation LOW_MEMORY :: int where "LOW_MEMORY \<equiv> 0x200000"
abbreviation MAX_OBJ_ALLOCTOR_NUM :: int where "MAX_OBJ_ALLOCTOR_NUM \<equiv> 16"
abbreviation MIN_ALLOCATAED_OBJ_SIZE :: int where "MIN_ALLOCATAED_OBJ_SIZE \<equiv> 8"
abbreviation MAX_ALLOCATAED_OBJ_SIZE :: int where "MAX_ALLOCATAED_OBJ_SIZE \<equiv> 2048"
abbreviation MIN_KMALLOC_ORDER :: int where "MIN_KMALLOC_ORDER \<equiv> 3"
abbreviation MAX_KMALLOC_ORDER :: int where "MAX_KMALLOC_ORDER \<equiv> 11"
abbreviation PFN_MASK :: u64 where "PFN_MASK \<equiv> 0x0000FFFFFFFFF000"

definition FIND_BUDDY_PFN :: "int \<Rightarrow> int \<Rightarrow> int" where
  "FIND_BUDDY_PFN pfn ord = pfn XOR push_bit (nat ord) 1"

definition FIND_LBUDDY_PFN :: "int \<Rightarrow> int \<Rightarrow> int" where
  "FIND_LBUDDY_PFN pfn ord = pfn AND NOT (push_bit (nat ord) 1)"

text \<open>
  \<open>PHY_ADDR_TO_PFN\<close> computes on \<open>unsigned long\<close>; its users store the value in an \<open>int\<close>.
\<close>

definition PHY_ADDR_TO_PFN :: "u64 \<Rightarrow> int" where
  "PHY_ADDR_TO_PFN addr =
     uint (drop_bit PAGE_SHIFT ((addr - word_of_int LOW_MEMORY) AND PFN_MASK))"

datatype booking_status = Free | Taken

text \<open>
  Every \<open>struct list_head\<close> of the memory manager: the one embedded in a page, the freelist
  head of a free area, and the three heads of an object allocator. \<open>Null_Node\<close> is the null
  pointer.
\<close>

datatype mm_node =
    Null_Node
  | PageNode int
  | FreeArea int
  | FullHead int
  | PartialHead int
  | EmptyHead int

text \<open>
  \<open>struct page\<close>. Its \<open>list\<close> member is the node \<open>PageNode\<close> of the link heap; \<open>free\<close> is the
  address of the first free object, 0 for \<open>NULL\<close>.
\<close>

record page =
  order :: int
  pfn :: int
  used :: booking_status
  phy_addr :: u64
  pg_obj_used :: int
  obj_alloc :: "int option"
  free :: u64

text \<open>\<open>struct object_allocator\<close>, without its three list heads.\<close>

record obj_allocator =
  curr_page :: "int option"
  objsize :: int
  obj_per_page :: int
  alloc_obj_used :: int
  page_used :: int

text \<open>
  The globals of \<open>mm.c\<close>. \<open>nr_free\<close> holds the counters of \<open>free_area\<close>, \<open>links\<close> all list heads,
  and \<open>obj_mem\<close> the first eight bytes of each object, where a freed object keeps the address
  of the next free one.
\<close>

record mm_state =
  bookkeep :: "int \<Rightarrow> page"
  nr_free :: "int \<Rightarrow> int"
  links :: "mm_node list_heap"
  obj_alloc_pool :: "int \<Rightarrow> obj_allocator"
  obj_mem :: "u64 \<Rightarrow> u64"

definition zero_page :: page where
  "zero_page = \<lparr>order = 0, pfn = 0, used = Free, phy_addr = 0, pg_obj_used = 0,
     obj_alloc = None, free = 0\<rparr>"

definition zero_allocator :: obj_allocator where
  "zero_allocator = \<lparr>curr_page = None, objsize = 0, obj_per_page = 0, alloc_obj_used = 0,
     page_used = 0\<rparr>"

definition bss_mm :: mm_state where
  "bss_mm = \<lparr>bookkeep = (\<lambda>_. zero_page), nr_free = (\<lambda>_. 0),
     links = (\<lambda>_. \<lparr>nxt = Null_Node, prv = Null_Node\<rparr>),
     obj_alloc_pool = (\<lambda>_. zero_allocator), obj_mem = (\<lambda>_. 0)\<rparr>"

definition in_bookkeep :: "int \<Rightarrow> bool" where
  "in_bookkeep i \<longleftrightarrow> 0 \<le> i \<and> i < PAGE_FRAME_NUM"

text \<open>The cast \<open>(struct page *) node\<close>: the identity on the node a page starts with.\<close>

fun page_of :: "mm_node \<Rightarrow> int result" where
  "page_of (PageNode i) = Inr i"
| "page_of Null_Node = Inl Null_Deref"
| "page_of _ = Inl Bad_Cast"

definition upd_page :: "int \<Rightarrow> (page \<Rightarrow> page) \<Rightarrow> mm_state \<Rightarrow> mm_state" where
  "upd_page i f s = s\<lparr>bookkeep := (bookkeep s)(i := f (bookkeep s i))\<rparr>"

definition upd_links :: "(mm_node list_heap \<Rightarrow> mm_node list_heap) \<Rightarrow> mm_state \<Rightarrow> mm_state" where
  "upd_links f s = s\<lparr>links := f (links s)\<rparr>"

definition upd_alloc :: "int \<Rightarrow> (obj_allocator \<Rightarrow> obj_allocator) \<Rightarrow> mm_state \<Rightarrow> mm_state" where
  "upd_alloc t f s = s\<lparr>obj_alloc_pool := (obj_alloc_pool s)(t := f (obj_alloc_pool s t))\<rparr>"

lemma upd_page_simps [simp]:
  "bookkeep (upd_page i f s) = (bookkeep s)(i := f (bookkeep s i))"
  "nr_free (upd_page i f s) = nr_free s"
  "links (upd_page i f s) = links s"
  "obj_alloc_pool (upd_page i f s) = obj_alloc_pool s"
  "obj_mem (upd_page i f s) = obj_mem s"
  by (simp_all add: upd_page_def)

lemma upd_links_simps [simp]:
  "bookkeep (upd_links g s) = bookkeep s"
  "nr_free (upd_links g s) = nr_free s"
  "links (upd_links g s) = g (links s)"
  "obj_alloc_pool (upd_links g s) = obj_alloc_pool s"
  "obj_mem (upd_links g s) = obj_mem s"
  by (simp_all add: upd_links_def)

lemma upd_alloc_simps [simp]:
  "bookkeep (upd_alloc t f s) = bookkeep s"
  "nr_free (upd_alloc t f s) = nr_free s"
  "links (upd_alloc t f s) = links s"
  "obj_alloc_pool (upd_alloc t f s) = (obj_alloc_pool s)(t := f (obj_alloc_pool s t))"
  "obj_mem (upd_alloc t f s) = obj_mem s"
  by (simp_all add: upd_alloc_def)

lemma upd_page_cong: "f (bookkeep s i) = g (bookkeep s i) \<Longrightarrow> upd_page i f s = upd_page i g s"
  by (simp add: upd_page_def)

end
