(* ===== verification/Buddy.thy ===== *)
theory Buddy
  imports Mm_State
begin

text \<open>
  The buddy system of \<open>src/mm.c\<close> (\<open>page_init\<close> to \<open>buddy_block_free\<close>): definitions, then the
  invariant, and what allocation and release do to it. Blocks are pairs of a first page frame
  and an order.
\<close>

section \<open>The operations\<close>

definition page_init_step :: "int \<Rightarrow> mm_state \<Rightarrow> mm_state" where
  "page_init_step i = upd_page i (\<lambda>p. p\<lparr>pfn := i, used := Free,
     phy_addr := word_of_int (LOW_MEMORY + i * PAGE_SIZE), order := -1\<rparr>)"

definition page_init :: "mm_state \<Rightarrow> mm_state" where
  "page_init s = fold page_init_step [0..PAGE_FRAME_NUM - 1] s"

definition push_block_to_free_area :: "int \<Rightarrow> int \<Rightarrow> int \<Rightarrow> mm_state \<Rightarrow> mm_state" where
  "push_block_to_free_area pushed_block fa ord s =
     (let s1 = upd_links (list_add_tail (PageNode pushed_block) (FreeArea fa)) s;
          s2 = upd_page pushed_block (\<lambda>p. p\<lparr>order := ord, used := Free\<rparr>) s1
      in s2\<lparr>nr_free := (nr_free s2)(fa := nr_free s2 fa + 1)\<rparr>)"

definition pop_block_from_free_area :: "int \<Rightarrow> int \<Rightarrow> mm_state \<Rightarrow> mm_state" where
  "pop_block_from_free_area poped_block fa s =
     (let s1 = upd_links (list_del (PageNode poped_block)) s;
          s2 = upd_page poped_block (\<lambda>p. p\<lparr>used := Taken\<rparr>) s1
      in s2\<lparr>nr_free := (nr_free s2)(fa := nr_free s2 fa - 1)\<rparr>)"

text \<open>The second loop of \<open>free_area_init\<close>: one block of the largest order every 512 pages.\<close>

function free_area_fill :: "int \<Rightarrow> mm_state \<Rightarrow> mm_state" where
  "free_area_fill i s =
     (if i < PAGE_FRAME_NUM
      then free_area_fill (i + MAX_ORDER_SIZE) (push_block_to_free_area i MAX_ORDER MAX_ORDER s)
      else s)"
  by pat_completeness auto
termination
  by (relation "measure (\<lambda>(i, s). nat (PAGE_FRAME_NUM - i))") auto

definition free_area_init :: "mm_state \<Rightarrow> mm_state" where
  "free_area_init s =
     free_area_fill 0 (fold (\<lambda>i. upd_links (INIT_LIST_HEAD (FreeArea i))) [0..MAX_ORDER] s)"

text \<open>The inner loop of \<open>buddy_block_alloc\<close>: give the upper halves back.\<close>

function buddy_split :: "int \<Rightarrow> int \<Rightarrow> int \<Rightarrow> mm_state \<Rightarrow> mm_state result" where
  "buddy_split target_block current_order ord s =
     (if ord < current_order then
        let downward_order = current_order - 1;
            buddy_pfn = FIND_BUDDY_PFN (pfn (bookkeep s target_block)) downward_order
        in if in_bookkeep buddy_pfn
           then buddy_split target_block downward_order ord
                  (push_block_to_free_area buddy_pfn downward_order downward_order s)
           else Inl Out_Of_Bounds
      else Inr s)"
  by pat_completeness auto
termination
  by (relation "measure (\<lambda>(t, c, r, s). nat (c - r))") auto

text \<open>The outer loop, from order \<open>i\<close> upwards. \<open>None\<close> is the null pointer.\<close>

function buddy_scan :: "int \<Rightarrow> int \<Rightarrow> mm_state \<Rightarrow> (mm_state \<times> int option) result" where
  "buddy_scan i ord s =
     (if i \<le> MAX_ORDER then
        if list_empty (FreeArea i) (links s) then buddy_scan (i + 1) ord s
        else
          bind_result (page_of (list_first (FreeArea i) (links s))) (\<lambda>target_block.
            let s1 = pop_block_from_free_area target_block i s;
                s2 = upd_page target_block (\<lambda>p. p\<lparr>order := ord\<rparr>) s1
            in bind_result (buddy_split target_block i ord s2) (\<lambda>s3.
                 Inr (s3, Some target_block)))
      else Inr (s, None))"
  by pat_completeness auto
termination
  by (relation "measure (\<lambda>(i, r, s). nat (MAX_ORDER + 1 - i))") auto

declare free_area_fill.simps [simp del] buddy_split.simps [simp del] buddy_scan.simps [simp del]

definition buddy_block_alloc :: "int \<Rightarrow> mm_state \<Rightarrow> (mm_state \<times> int option) result" where
  "buddy_block_alloc ord s =
     (if ord < 0 \<or> MAX_ORDER < ord then Inr (s, None) else buddy_scan ord ord s)"

text \<open>
  The coalescing loop of \<open>buddy_block_free\<close>: its condition, one round of its body (which ends
  with the left one of the two buddies as the new block), and the loop with the final push.
  The bound is one more than the number of merges the orders allow, so a loop that merges
  once per order and then stops never uses it up.
\<close>

definition buddy_mergeable :: "int \<Rightarrow> int \<Rightarrow> mm_state \<Rightarrow> bool" where
  "buddy_mergeable block buddy_block s \<longleftrightarrow>
     order (bookkeep s block) < MAX_ORDER \<and>
     order (bookkeep s block) = order (bookkeep s buddy_block) \<and>
     used (bookkeep s buddy_block) = Free"

definition buddy_merge :: "int \<Rightarrow> int \<Rightarrow> mm_state \<Rightarrow> int \<times> mm_state" where
  "buddy_merge block buddy_block s =
     (let s1 = pop_block_from_free_area buddy_block (order (bookkeep s buddy_block)) s;
          lbuddy_pfn = FIND_LBUDDY_PFN (pfn (bookkeep s1 block)) (order (bookkeep s1 block))
      in (lbuddy_pfn, upd_page lbuddy_pfn (\<lambda>p. p\<lparr>order := order p + 1\<rparr>) s1))"

fun buddy_coalesce :: "nat \<Rightarrow> int \<Rightarrow> mm_state \<Rightarrow> mm_state result" where
  "buddy_coalesce 0 block s = Inl No_Return"
| "buddy_coalesce (Suc fuel) block s =
     (let ord = order (bookkeep s block);
          buddy_pfn = FIND_BUDDY_PFN (pfn (bookkeep s block)) ord
      in if ord < 0 then Inl Bad_Shift
         else if \<not> in_bookkeep buddy_pfn then Inl Out_Of_Bounds
         else if buddy_mergeable block buddy_pfn s then
           (case buddy_merge block buddy_pfn s of (block', s') \<Rightarrow> buddy_coalesce fuel block' s')
         else Inr (push_block_to_free_area block ord ord s))"

definition buddy_block_free :: "int \<Rightarrow> mm_state \<Rightarrow> mm_state result" where
  "buddy_block_free block s = buddy_coalesce (nat (MAX_ORDER + 1)) block s"

end
