(* ===== verification/Slab.thy ===== *)
theory Slab
  imports Buddy
begin

text \<open>
  The object allocators of \<open>src/mm.c\<close> (\<open>__init_obj_alloc\<close> to \<open>obj_free\<close>) and the dynamic
  allocator \<open>kmalloc\<close>/\<open>kfree\<close> on top of them and the buddy system. A \<open>void *\<close> result is a
  64-bit address, 0 for \<open>NULL\<close>.
\<close>

section \<open>Object allocators\<close>

text \<open>\<open>__init_obj_alloc\<close>. \<open>objsize\<close> is at least 8 in every call, so the quotient is plain.\<close>

definition init_obj_alloc :: "int \<Rightarrow> int \<Rightarrow> mm_state \<Rightarrow> mm_state" where
  "init_obj_alloc t sz s =
     (let s1 = upd_links (INIT_LIST_HEAD (FullHead t)) s;
          s2 = upd_links (INIT_LIST_HEAD (PartialHead t)) s1;
          s3 = upd_links (INIT_LIST_HEAD (EmptyHead t)) s2
      in upd_alloc t (\<lambda>a. a\<lparr>curr_page := None, objsize := sz, obj_per_page := PAGE_SIZE div sz,
           alloc_obj_used := 0, page_used := 0\<rparr>) s3)"

text \<open>\<open>__init_obj_page\<close>.\<close>

definition init_obj_page :: "int \<Rightarrow> mm_state \<Rightarrow> mm_state" where
  "init_obj_page p = upd_page p (\<lambda>q. q\<lparr>pg_obj_used := 0, obj_alloc := None, free := 0\<rparr>)"

text \<open>The loop of \<open>register_obj_allocator\<close> over the tokens.\<close>

function register_scan :: "int \<Rightarrow> int \<Rightarrow> mm_state \<Rightarrow> mm_state \<times> int" where
  "register_scan token sz s =
     (if token < MAX_OBJ_ALLOCTOR_NUM then
        if objsize (obj_alloc_pool s token) \<noteq> 0 then register_scan (token + 1) sz s
        else (init_obj_alloc token sz s, token)
      else (s, -1))"
  by pat_completeness auto
termination
  by (relation "measure (\<lambda>(t, z, s). nat (MAX_OBJ_ALLOCTOR_NUM - t))") auto

declare register_scan.simps [simp del]

definition register_obj_allocator :: "int \<Rightarrow> mm_state \<Rightarrow> mm_state \<times> int" where
  "register_obj_allocator sz s =
     (let sz1 = (if sz < MIN_ALLOCATAED_OBJ_SIZE then MIN_ALLOCATAED_OBJ_SIZE else sz);
          sz2 = (if sz1 > MAX_ALLOCATAED_OBJ_SIZE then MAX_ALLOCATAED_OBJ_SIZE else sz1)
      in register_scan 0 sz2 s)"

text \<open>
  The first part of \<open>obj_allocate\<close>: find the page to allocate from when there is none. A page
  comes from the partial list, the empty list or the buddy system, in this order; a null
  pointer from the buddy system is dereferenced by \<open>__init_obj_page\<close>.
\<close>

definition obj_take_first :: "mm_node \<Rightarrow> mm_state \<Rightarrow> (mm_state \<times> int) result" where
  "obj_take_first head s =
     bind_result (page_of (list_first head (links s))) (\<lambda>p.
       Inr (upd_links (list_del (PageNode p)) s, p))"

definition obj_new_page :: "int \<Rightarrow> mm_state \<Rightarrow> (mm_state \<times> int) result" where
  "obj_new_page t s =
     bind_result (buddy_block_alloc 0 s) (\<lambda>(s1, r).
       case r of
         None \<Rightarrow> Inl Null_Deref
       | Some p \<Rightarrow>
           Inr (upd_alloc t (\<lambda>a. a\<lparr>page_used := page_used a + 1\<rparr>)
                  (upd_page p (\<lambda>q. q\<lparr>obj_alloc := Some t\<rparr>) (init_obj_page p s1)), p))"

definition obj_refill :: "int \<Rightarrow> mm_state \<Rightarrow> (mm_state \<times> int) result" where
  "obj_refill t s =
     (case curr_page (obj_alloc_pool s t) of
        Some p \<Rightarrow> Inr (s, p)
      | None \<Rightarrow>
          bind_result
            (if \<not> list_empty (PartialHead t) (links s) then obj_take_first (PartialHead t) s
             else if \<not> list_empty (EmptyHead t) (links s) then obj_take_first (EmptyHead t) s
             else obj_new_page t s)
            (\<lambda>(s1, p). Inr (upd_alloc t (\<lambda>a. a\<lparr>curr_page := Some p\<rparr>) s1, p)))"

text \<open>
  The second part. The source assigns the rest of the free list to a local variable only, so
  \<open>free\<close> of the page keeps its value.
\<close>

definition obj_address :: "int \<Rightarrow> int \<Rightarrow> mm_state \<Rightarrow> u64" where
  "obj_address t p s =
     (if free (bookkeep s p) \<noteq> 0 then free (bookkeep s p)
      else phy_addr (bookkeep s p) +
        word_of_int (pg_obj_used (bookkeep s p) * objsize (obj_alloc_pool s t)))"

definition obj_count_up :: "int \<Rightarrow> int \<Rightarrow> mm_state \<Rightarrow> mm_state" where
  "obj_count_up t p s =
     upd_page p (\<lambda>q. q\<lparr>pg_obj_used := pg_obj_used q + 1\<rparr>)
       (upd_alloc t (\<lambda>a. a\<lparr>alloc_obj_used := alloc_obj_used a + 1\<rparr>) s)"

definition obj_retire_full :: "int \<Rightarrow> int \<Rightarrow> mm_state \<Rightarrow> mm_state" where
  "obj_retire_full t p s =
     (if obj_per_page (obj_alloc_pool s t) = pg_obj_used (bookkeep s p)
      then upd_alloc t (\<lambda>a. a\<lparr>curr_page := None\<rparr>)
             (upd_links (list_add_tail (PageNode p) (FullHead t)) s)
      else s)"

definition obj_allocate :: "int \<Rightarrow> mm_state \<Rightarrow> (mm_state \<times> u64) result" where
  "obj_allocate token s =
     (if token < 0 \<or> MAX_OBJ_ALLOCTOR_NUM \<le> token then Inr (s, 0)
      else bind_result (obj_refill token s) (\<lambda>(s1, p).
        Inr (obj_retire_full token p (obj_count_up token p s1), obj_address token p s1)))"

text \<open>
  \<open>obj_free\<close>: push the object on the page's free list, count down, and move the page between
  the lists of its allocator. The page number is stored in an \<open>int\<close>, which keeps the low 32
  bits of the 36-bit value.
\<close>

definition addr_pfn :: "u64 \<Rightarrow> int" where
  "addr_pfn addr = signed_take_bit 31 (PHY_ADDR_TO_PFN addr)"

definition obj_push_free :: "u64 \<Rightarrow> int \<Rightarrow> mm_state \<Rightarrow> mm_state" where
  "obj_push_free addr p s =
     (let temp = free (bookkeep s p);
          s1 = upd_page p (\<lambda>q. q\<lparr>free := addr\<rparr>) s
      in s1\<lparr>obj_mem := (obj_mem s1)(addr := temp)\<rparr>)"

definition obj_count_down :: "int \<Rightarrow> int \<Rightarrow> mm_state \<Rightarrow> mm_state" where
  "obj_count_down t p s =
     upd_page p (\<lambda>q. q\<lparr>pg_obj_used := pg_obj_used q - 1\<rparr>)
       (upd_alloc t (\<lambda>a. a\<lparr>alloc_obj_used := alloc_obj_used a - 1\<rparr>) s)"

definition obj_full_to_partial :: "int \<Rightarrow> int \<Rightarrow> mm_state \<Rightarrow> mm_state" where
  "obj_full_to_partial t p s =
     (if obj_per_page (obj_alloc_pool s t) - 1 = pg_obj_used (bookkeep s p)
      then upd_links (list_add_tail (PageNode p) (PartialHead t))
             (upd_links (list_del (PageNode p)) s)
      else s)"

definition obj_release_page :: "int \<Rightarrow> int \<Rightarrow> mm_state \<Rightarrow> mm_state result" where
  "obj_release_page t p s =
     buddy_block_free p
       (upd_page p (\<lambda>q. q\<lparr>free := 0, obj_alloc := None, pg_obj_used := 0\<rparr>)
         (upd_alloc t (\<lambda>a. a\<lparr>page_used := page_used a - 1\<rparr>) s))"

definition obj_partial_to_empty :: "int \<Rightarrow> int \<Rightarrow> mm_state \<Rightarrow> mm_state result" where
  "obj_partial_to_empty t p s =
     (if pg_obj_used (bookkeep s p) = 0 \<and> curr_page (obj_alloc_pool s t) \<noteq> Some p then
        let s1 = upd_links (list_del (PageNode p)) s
        in if page_used (obj_alloc_pool s1 t) \<ge> 10 then obj_release_page t p s1
           else Inr (upd_links (list_add_tail (PageNode p) (EmptyHead t)) s1)
      else Inr s)"

definition obj_free :: "u64 \<Rightarrow> mm_state \<Rightarrow> mm_state result" where
  "obj_free obj_addr s =
     (let p = addr_pfn obj_addr
      in if \<not> in_bookkeep p then Inl Out_Of_Bounds
         else case obj_alloc (bookkeep s p) of
           None \<Rightarrow> Inl Null_Deref
         | Some t \<Rightarrow>
             obj_partial_to_empty t p
               (obj_full_to_partial t p (obj_count_down t p (obj_push_free obj_addr p s))))"

section \<open>The dynamic allocator\<close>

text \<open>\<open>__init_kmalloc\<close>: one allocator per power of two from 8 to 2048 bytes.\<close>

definition init_kmalloc :: "mm_state \<Rightarrow> mm_state" where
  "init_kmalloc s =
     fold (\<lambda>i s. fst (register_obj_allocator (2 ^ nat i) s)) [MIN_KMALLOC_ORDER..MAX_KMALLOC_ORDER] s"

function kmalloc_buddy :: "int \<Rightarrow> int \<Rightarrow> mm_state \<Rightarrow> (mm_state \<times> u64) result" where
  "kmalloc_buddy i sz s =
     (if i \<le> MAX_ORDER then
        if sz \<le> 2 ^ nat (i + int PAGE_SHIFT) then
          bind_result (buddy_block_alloc i s) (\<lambda>(s1, r).
            case r of None \<Rightarrow> Inl Null_Deref | Some p \<Rightarrow> Inr (s1, phy_addr (bookkeep s1 p)))
        else kmalloc_buddy (i + 1) sz s
      else Inr (s, 0))"
  by pat_completeness auto
termination
  by (relation "measure (\<lambda>(i, z, s). nat (MAX_ORDER + 1 - i))") auto

function kmalloc_obj :: "int \<Rightarrow> int \<Rightarrow> mm_state \<Rightarrow> (mm_state \<times> u64) result" where
  "kmalloc_obj i sz s =
     (if i \<le> MAX_KMALLOC_ORDER then
        if sz \<le> 2 ^ nat i then obj_allocate (i - MIN_KMALLOC_ORDER) s
        else kmalloc_obj (i + 1) sz s
      else kmalloc_buddy 0 sz s)"
  by pat_completeness auto
termination
  by (relation "measure (\<lambda>(i, z, s). nat (MAX_KMALLOC_ORDER + 1 - i))") auto

declare kmalloc_buddy.simps [simp del] kmalloc_obj.simps [simp del]

definition kmalloc :: "int \<Rightarrow> mm_state \<Rightarrow> (mm_state \<times> u64) result" where
  "kmalloc sz s = kmalloc_obj MIN_KMALLOC_ORDER sz s"

definition kfree :: "u64 \<Rightarrow> mm_state \<Rightarrow> mm_state result" where
  "kfree addr s =
     (let p = addr_pfn addr
      in if \<not> in_bookkeep p then Inl Out_Of_Bounds
         else if obj_alloc (bookkeep s p) \<noteq> None then obj_free addr s
         else buddy_block_free p s)"

definition mm_init :: "mm_state \<Rightarrow> mm_state" where
  "mm_init s = init_kmalloc (free_area_init (page_init s))"

end
