(* ===== verification/Buddy_Inv.thy ===== *)
theory Buddy_Inv
  imports Buddy
begin

text \<open>
  The invariant of the buddy system and its preservation. The invariant relates the state to
  the free lists \<open>F\<close> (first frames, by order), the lists \<open>M\<close> other components keep in the same
  heap (with heads \<open>E\<close>), and the set \<open>A\<close> of blocks handed out. Free and handed-out blocks
  partition the page frames; the free lists hold no block together with its buddy.
\<close>

section \<open>Blocks\<close>

type_synonym block = "int \<times> int"

definition frames :: "block \<Rightarrow> int set" where
  "frames b = block_range (fst b) (nat (snd b))"

definition valid_block :: "block \<Rightarrow> bool" where
  "valid_block b \<longleftrightarrow> 0 \<le> snd b \<and> snd b \<le> MAX_ORDER \<and> 0 \<le> fst b \<and>
     fst b + 2 ^ nat (snd b) \<le> PAGE_FRAME_NUM \<and> 2 ^ nat (snd b) dvd fst b"

definition free_blocks :: "(int \<Rightarrow> int list) \<Rightarrow> block set" where
  "free_blocks F = {(p, k). 0 \<le> k \<and> k \<le> MAX_ORDER \<and> p \<in> set (F k)}"

definition partitions :: "block set \<Rightarrow> bool" where
  "partitions B \<longleftrightarrow> (\<forall>b\<in>B. valid_block b) \<and>
     (\<forall>b\<in>B. \<forall>c\<in>B. b \<noteq> c \<longrightarrow> frames b \<inter> frames c = {}) \<and>
     \<Union> (frames ` B) = {0..<PAGE_FRAME_NUM}"

lemma frames_self [simp]: "p \<in> frames (p, k)" "frames b \<noteq> {}"
  by (simp_all add: frames_def)

lemma valid_block_in_bookkeep: "valid_block (p, k) \<Longrightarrow> x \<in> frames (p, k) \<Longrightarrow> in_bookkeep x"
  by (auto simp: valid_block_def frames_def block_range_def in_bookkeep_def)

lemma partitionsD:
  assumes "partitions B" "b \<in> B"
  shows "valid_block b" and "c \<in> B \<Longrightarrow> b \<noteq> c \<Longrightarrow> frames b \<inter> frames c = {}"
    and "c \<in> B \<Longrightarrow> x \<in> frames b \<Longrightarrow> x \<in> frames c \<Longrightarrow> b = c"
  using assms unfolding partitions_def by blast+

lemma partitions_head_unique:
  assumes "partitions B" "(p, k) \<in> B" "(p, j) \<in> B"
  shows "k = j"
  using partitionsD(3) [OF assms(1,2,3), of p] by simp

text \<open>Replacing a block by two halves of it, or two halves by the whole, keeps a partition.\<close>

lemma partitions_replace:
  assumes p: "partitions B" and C: "C \<subseteq> B" and N: "\<forall>b\<in>N. valid_block b"
    and dis: "\<And>b c. b \<in> N \<Longrightarrow> c \<in> N \<Longrightarrow> b \<noteq> c \<Longrightarrow> frames b \<inter> frames c = {}"
    and eq: "\<Union> (frames ` N) = \<Union> (frames ` C)"
  shows "partitions ((B - C) \<union> N)"
proof -
  have out: "frames b \<inter> frames c = {}" if b: "b \<in> B - C" and c: "c \<in> N" for b c
  proof -
    have "frames c \<subseteq> \<Union> (frames ` C)" using eq c by blast
    moreover have "frames b \<inter> frames c' = {}" if "c' \<in> C" for c'
      using partitionsD(2) [OF p, of b c'] b C that by auto
    ultimately show ?thesis by blast
  qed
  have "frames b \<inter> frames c = {}" if "b \<in> (B - C) \<union> N" "c \<in> (B - C) \<union> N" "b \<noteq> c" for b c
    using that out [of b c] out [of c b] dis [of b c] partitionsD(2) [OF p, of b c] by blast
  moreover have "\<Union> (frames ` ((B - C) \<union> N)) = \<Union> (frames ` B)"
    using eq C by blast
  moreover have "valid_block b" if "b \<in> (B - C) \<union> N" for b
    using that N partitionsD(1) [OF p] by blast
  ultimately show ?thesis using p unfolding partitions_def by auto
qed

section \<open>Buddies\<close>

lemma pow2_nat_Suc: "0 \<le> k \<Longrightarrow> (2::int) ^ nat (k + 1) = 2 * 2 ^ nat k"
  by (simp add: nat_add_distrib)

lemma pow2_order_dvd: "k \<le> 12 \<Longrightarrow> (2::int) ^ nat k dvd 4096"
  using le_imp_power_dvd [of "nat k" 12 "2::int"] by simp

lemma aligned_fits:
  assumes "(2::int) ^ nat k dvd p" "k \<le> 12" "p < 4096"
  shows "p + 2 ^ nat k \<le> 4096"
proof -
  have "2 ^ nat k dvd 4096 - p" using assms pow2_order_dvd by (intro dvd_diff)
  then show ?thesis using assms(3) zdvd_imp_le [of "2 ^ nat k" "4096 - p"] by simp
qed

lemma buddy_cases:
  assumes "valid_block (p, k)" "k < MAX_ORDER"
  obtains (right) "FIND_BUDDY_PFN p k = p - 2 ^ nat k" "FIND_LBUDDY_PFN p k = p - 2 ^ nat k"
      "valid_block (p - 2 ^ nat k, k)" "valid_block (p - 2 ^ nat k, k + 1)"
    | (left) "FIND_BUDDY_PFN p k = p + 2 ^ nat k" "FIND_LBUDDY_PFN p k = p"
      "valid_block (p + 2 ^ nat k, k)" "valid_block (p, k + 1)"
proof -
  from assms have k: "0 \<le> k" "k < 9" and p: "0 \<le> p" "p + 2 ^ nat k \<le> 4096" "2 ^ nat k dvd p"
    by (simp_all add: valid_block_def)
  note find = FIND_BUDDY_PFN_def FIND_LBUDDY_PFN_def xor_pow2_int and_not_pow2_int
  have suc: "(2::int) ^ nat (k + 1) = 2 ^ Suc (nat k)" using k by (simp add: nat_add_distrib)
  show thesis
  proof (cases "bit p (nat k)")
    case True
    have "p \<noteq> 0" using True by auto
    then have le: "2 ^ nat k \<le> p" using p zdvd_imp_le [of "2 ^ nat k" p] by simp
    have "2 ^ nat (k + 1) dvd p - 2 ^ nat k" using bit_minus_pow2_dvd [OF p(3) True] suc by simp
    moreover have "p \<le> 4096" using p zero_le_power [of "2::int" "nat k"] by linarith
    ultimately show thesis using le p k True
      by (intro right) (simp_all add: find valid_block_def pow2_nat_Suc)
  next
    case False
    have d: "2 ^ nat (k + 1) dvd p" using False p(3) suc dvd_pow2_Suc_iff by metis
    have "p < 4096" using p zero_less_power [of "2::int" "nat k"] by linarith
    with d have "p + 2 ^ nat (k + 1) \<le> 4096" using k by (intro aligned_fits) auto
    with d p k False show thesis
      by (intro left) (simp_all add: find valid_block_def pow2_nat_Suc)
  qed
qed

lemma FIND_BUDDY_in_bookkeep:
  assumes "valid_block (p, k)"
  shows "in_bookkeep (FIND_BUDDY_PFN p k)"
proof (cases "k < MAX_ORDER")
  case True
  have "in_bookkeep c" if "valid_block (c, k)" for c
    using that by (rule valid_block_in_bookkeep) simp
  then show ?thesis by (cases rule: buddy_cases [OF assms True]) simp_all
next
  case False
  with assms have k: "k = 9" by (simp add: valid_block_def)
  with assms have p: "0 \<le> p" "p \<le> 3584" "512 dvd p" by (simp_all add: valid_block_def)
  then have "bit p 9 \<Longrightarrow> 512 \<le> p" using zdvd_imp_le [of 512 p] by (cases "p = 0") auto
  moreover have "p XOR 512 = (if bit p 9 then p - 512 else p + 512)"
    using xor_pow2_int [of p 9] by simp
  moreover have "p \<noteq> 3584" if "\<not> bit p 9" using that by auto
  ultimately show ?thesis using p
    by (fastforce simp: k FIND_BUDDY_PFN_def in_bookkeep_def)
qed

lemma FIND_BUDDY_involutive [simp]: "FIND_BUDDY_PFN (FIND_BUDDY_PFN p k) k = p"
  by (simp add: FIND_BUDDY_PFN_def xor.assoc)

lemma FIND_BUDDY_neq [simp]: "FIND_BUDDY_PFN p k \<noteq> p"
  by (simp add: FIND_BUDDY_PFN_def xor_pow2_int)

text \<open>The merged block covers both buddies, starts at one of them, and is aligned.\<close>

lemma buddy_merge_block:
  assumes v: "valid_block (p, k)" and k: "k < MAX_ORDER"
  shows "valid_block (FIND_BUDDY_PFN p k, k)"
    and "valid_block (FIND_LBUDDY_PFN p k, k + 1)"
    and "frames (FIND_LBUDDY_PFN p k, k + 1) = frames (p, k) \<union> frames (FIND_BUDDY_PFN p k, k)"
    and "FIND_LBUDDY_PFN p k \<in> {p, FIND_BUDDY_PFN p k}"
proof -
  have k0: "0 \<le> k" using v by (simp add: valid_block_def)
  have n: "nat (k + 1) = Suc (nat k)" using k0 by (simp add: nat_add_distrib)
  show "valid_block (FIND_BUDDY_PFN p k, k)" "valid_block (FIND_LBUDDY_PFN p k, k + 1)"
    "FIND_LBUDDY_PFN p k \<in> {p, FIND_BUDDY_PFN p k}"
    by (cases rule: buddy_cases [OF v k]; simp)+
  show "frames (FIND_LBUDDY_PFN p k, k + 1) = frames (p, k) \<union> frames (FIND_BUDDY_PFN p k, k)"
  proof (rule buddy_cases [OF v k], goal_cases)
    case 1
    then show ?thesis
      using block_range_halves(1) [of "p - 2 ^ nat k" "nat k"]
      by (simp add: frames_def n Un_commute)
  next
    case 2
    then show ?thesis
      using block_range_halves(1) [of p "nat k"] by (simp add: frames_def n)
  qed
qed

lemma buddy_split_block:
  assumes v: "valid_block (p, k)" and k: "0 < k"
  shows "FIND_BUDDY_PFN p (k - 1) = p + 2 ^ nat (k - 1)"
    and "valid_block (p, k - 1)" "valid_block (p + 2 ^ nat (k - 1), k - 1)"
    and "frames (p, k) = frames (p, k - 1) \<union> frames (p + 2 ^ nat (k - 1), k - 1)"
    and "frames (p, k - 1) \<inter> frames (p + 2 ^ nat (k - 1), k - 1) = {}"
proof -
  have n: "nat k = Suc (nat (k - 1))" using k by simp
  have d: "2 ^ Suc (nat (k - 1)) dvd p" using v by (simp add: valid_block_def n)
  show "FIND_BUDDY_PFN p (k - 1) = p + 2 ^ nat (k - 1)"
    using d unfolding dvd_pow2_Suc_iff by (simp add: FIND_BUDDY_PFN_def xor_pow2_int)
  show "valid_block (p, k - 1)" "valid_block (p + 2 ^ nat (k - 1), k - 1)"
    using v k d zero_le_power [of "2::int" "nat (k - 1)"] unfolding dvd_pow2_Suc_iff
    by (auto simp: valid_block_def n simp del: zero_le_power)
  show "frames (p, k) = frames (p, k - 1) \<union> frames (p + 2 ^ nat (k - 1), k - 1)"
    "frames (p, k - 1) \<inter> frames (p + 2 ^ nat (k - 1), k - 1) = {}"
    using block_range_halves [of p "nat (k - 1)"] by (simp_all add: frames_def n)
qed

section \<open>The invariant\<close>

fun lists_of :: "(int \<Rightarrow> int list) \<Rightarrow> (mm_node \<Rightarrow> int list) \<Rightarrow> mm_node \<Rightarrow> mm_node list" where
  "lists_of F M (FreeArea k) = map PageNode (F k)"
| "lists_of F M d = map PageNode (M d)"

definition area_heads :: "mm_node set" where
  "area_heads = FreeArea ` {0..MAX_ORDER}"

definition client_heads :: "mm_node set" where
  "client_heads = - (range FreeArea \<union> range PageNode)"

text \<open>
  \<open>links_ok\<close>: the free lists are \<open>F\<close>, the other lists of the heap are \<open>M\<close>, and only pages that
  start a handed-out block are on the latter.
\<close>

definition links_ok :: "mm_state \<Rightarrow> (int \<Rightarrow> int list) \<Rightarrow> mm_node set \<Rightarrow> (mm_node \<Rightarrow> int list) \<Rightarrow>
    block set \<Rightarrow> bool" where
  "links_ok s F E M A \<longleftrightarrow> dlists (links s) (area_heads \<union> E) (lists_of F M) \<and>
     E \<subseteq> client_heads \<and> (\<forall>d\<in>E. set (M d) \<subseteq> fst ` A)"

definition blocks_ok :: "(int \<Rightarrow> int list) \<Rightarrow> block set \<Rightarrow> bool" where
  "blocks_ok F A \<longleftrightarrow> partitions (free_blocks F \<union> A) \<and> free_blocks F \<inter> A = {}"

text \<open>
  \<open>pages_ok\<close>: the fields \<open>order\<close> and \<open>used\<close> of a page that starts a block say which block it
  is, and a page that says it is a free block of some order is on that free list (the pages
  inside a block are marked taken or carry the order -1 of \<open>page_init\<close>).
\<close>

definition pages_ok :: "mm_state \<Rightarrow> (int \<Rightarrow> int list) \<Rightarrow> block set \<Rightarrow> bool" where
  "pages_ok s F A \<longleftrightarrow>
     (\<forall>p. in_bookkeep p \<longrightarrow> pfn (bookkeep s p) = p) \<and>
     (\<forall>(p, k)\<in>free_blocks F. order (bookkeep s p) = k \<and> used (bookkeep s p) = Free) \<and>
     (\<forall>(p, k)\<in>A. order (bookkeep s p) = k \<and> used (bookkeep s p) = Taken) \<and>
     (\<forall>p. in_bookkeep p \<and> used (bookkeep s p) = Free \<and> 0 \<le> order (bookkeep s p) \<longrightarrow>
        (p, order (bookkeep s p)) \<in> free_blocks F) \<and>
     (\<forall>k\<in>{0..MAX_ORDER}. nr_free s k = int (length (F k)))"

definition buddy_core :: "mm_state \<Rightarrow> (int \<Rightarrow> int list) \<Rightarrow> mm_node set \<Rightarrow>
    (mm_node \<Rightarrow> int list) \<Rightarrow> block set \<Rightarrow> bool" where
  "buddy_core s F E M A \<longleftrightarrow> links_ok s F E M A \<and> blocks_ok F A \<and> pages_ok s F A"

definition coalesced :: "(int \<Rightarrow> int list) \<Rightarrow> bool" where
  "coalesced F \<longleftrightarrow> (\<forall>k\<in>{0..<MAX_ORDER}. \<forall>p\<in>set (F k). FIND_BUDDY_PFN p k \<notin> set (F k))"

definition buddy_inv :: "mm_state \<Rightarrow> (int \<Rightarrow> int list) \<Rightarrow> mm_node set \<Rightarrow>
    (mm_node \<Rightarrow> int list) \<Rightarrow> block set \<Rightarrow> bool" where
  "buddy_inv s F E M A \<longleftrightarrow> buddy_core s F E M A \<and> coalesced F"

lemmas core_defs = buddy_core_def links_ok_def blocks_ok_def pages_ok_def

lemma lists_of_upd [simp]:
  "lists_of (F(k := xs)) M = (lists_of F M)(FreeArea k := map PageNode xs)"
proof
  fix d show "lists_of (F(k := xs)) M d = ((lists_of F M)(FreeArea k := map PageNode xs)) d"
    by (cases d) auto
qed

lemma inj_PageNode [simp]: "inj PageNode"
  by (simp add: inj_def)

lemma area_heads_iff [simp]: "FreeArea k \<in> area_heads \<longleftrightarrow> 0 \<le> k \<and> k \<le> MAX_ORDER"
  by (auto simp: area_heads_def)

lemma PageNode_no_head [simp]: "PageNode p \<notin> area_heads" "PageNode p \<notin> client_heads"
  "FreeArea k \<notin> client_heads"
  by (auto simp: area_heads_def client_heads_def)

lemma lists_of_client: "d \<in> client_heads \<Longrightarrow> lists_of F M d = map PageNode (M d)"
  by (cases d) (auto simp: client_heads_def)

lemma free_blocksI: "0 \<le> k \<Longrightarrow> k \<le> MAX_ORDER \<Longrightarrow> p \<in> set (F k) \<Longrightarrow> (p, k) \<in> free_blocks F"
  by (simp add: free_blocks_def)

lemma core_free_distinct:
  assumes "buddy_core s F E M A" "0 \<le> k" "k \<le> MAX_ORDER"
  shows "distinct (F k)"
proof -
  have "distinct (FreeArea k # lists_of F M (FreeArea k))"
    using assms by (intro dlists_distinct [of "links s" "area_heads \<union> E"]) (auto simp: core_defs)
  then show ?thesis by (simp add: distinct_map)
qed

text \<open>A page that starts no block is on no list.\<close>

lemma core_member:
  assumes c: "buddy_core s F E M A" and d: "d \<in> area_heads \<union> E"
    and m: "PageNode p \<in> set (lists_of F M d)"
  shows "\<exists>k. (p, k) \<in> free_blocks F \<union> A"
proof (cases "d \<in> area_heads")
  case True
  then obtain k where "d = FreeArea k" "0 \<le> k" "k \<le> MAX_ORDER" by (auto simp: area_heads_def)
  with m show ?thesis by (auto simp: free_blocks_def)
next
  case False
  with d c have "d \<in> E" "d \<in> client_heads" and sub: "set (M d) \<subseteq> fst ` A"
    by (auto simp: core_defs)
  with m have "p \<in> set (M d)" by (auto simp: lists_of_client)
  with sub show ?thesis by force
qed

lemma core_valid: "buddy_core s F E M A \<Longrightarrow> b \<in> free_blocks F \<union> A \<Longrightarrow> valid_block b"
  unfolding buddy_core_def blocks_ok_def by (blast dest: partitionsD(1))

lemma core_client:
  assumes "buddy_core s F E M A" "d \<in> E" "q \<in> set (M d)"
  obtains j where "(q, j) \<in> A"
proof -
  have "q \<in> fst ` A" using assms by (auto simp: core_defs)
  then show thesis using that by force
qed

lemma core_meet:
  assumes "buddy_core s F E M A" "b \<in> free_blocks F \<union> A" "c \<in> free_blocks F \<union> A"
    "x \<in> frames b" "x \<in> frames c"
  shows "b = c"
  using assms unfolding buddy_core_def blocks_ok_def by (blast dest: partitionsD(3))

text \<open>A page inside a block, other than its first one, is on no list and starts no block.\<close>

lemma core_inside:
  assumes c: "buddy_core s F E M A" and b: "(q, k) \<in> free_blocks F \<union> A"
    and p: "p \<in> frames (q, k)" "p \<noteq> q"
  shows "(p, j) \<notin> free_blocks F \<union> A"
    and "d \<in> area_heads \<union> E \<Longrightarrow> PageNode p \<notin> set (d # lists_of F M d)"
proof -
  show none: "(p, j) \<notin> free_blocks F \<union> A" for j
  proof
    assume "(p, j) \<in> free_blocks F \<union> A"
    from core_meet [OF c this b _ p(1)] p(2) show False by simp
  qed
  assume d: "d \<in> area_heads \<union> E"
  have "d \<noteq> PageNode p" using d c by (auto simp: core_defs)
  then show "PageNode p \<notin> set (d # lists_of F M d)"
    using core_member [OF c d, of p] none by auto
qed

section \<open>Elementary steps\<close>

lemma map_remove1_inj: "inj f \<Longrightarrow> map f (remove1 x xs) = remove1 (f x) (map f xs)"
  by (induction xs) (auto simp: inj_eq)

lemma pop_simps [simp]:
  "links (pop_block_from_free_area p k s) = list_del (PageNode p) (links s)"
  "bookkeep (pop_block_from_free_area p k s) =
     (bookkeep s)(p := (bookkeep s p)\<lparr>used := Taken\<rparr>)"
  "nr_free (pop_block_from_free_area p k s) = (nr_free s)(k := nr_free s k - 1)"
  "obj_alloc_pool (pop_block_from_free_area p k s) = obj_alloc_pool s"
  "obj_mem (pop_block_from_free_area p k s) = obj_mem s"
  by (simp_all add: pop_block_from_free_area_def Let_def)

lemma push_simps [simp]:
  "links (push_block_to_free_area p fa k s) =
     list_add_tail (PageNode p) (FreeArea fa) (links s)"
  "bookkeep (push_block_to_free_area p fa k s) =
     (bookkeep s)(p := (bookkeep s p)\<lparr>order := k, used := Free\<rparr>)"
  "nr_free (push_block_to_free_area p fa k s) = (nr_free s)(fa := nr_free s fa + 1)"
  "obj_alloc_pool (push_block_to_free_area p fa k s) = obj_alloc_pool s"
  "obj_mem (push_block_to_free_area p fa k s) = obj_mem s"
  by (simp_all add: push_block_to_free_area_def Let_def)

lemma core_pages:
  assumes "buddy_core s F E M A"
  shows "in_bookkeep p \<Longrightarrow> pfn (bookkeep s p) = p"
    and "(p, k) \<in> free_blocks F \<Longrightarrow> order (bookkeep s p) = k \<and> used (bookkeep s p) = Free"
    and "(p, k) \<in> A \<Longrightarrow> order (bookkeep s p) = k \<and> used (bookkeep s p) = Taken"
    and "in_bookkeep p \<Longrightarrow> used (bookkeep s p) = Free \<Longrightarrow> 0 \<le> order (bookkeep s p) \<Longrightarrow>
       (p, order (bookkeep s p)) \<in> free_blocks F"
    and "0 \<le> k \<Longrightarrow> k \<le> MAX_ORDER \<Longrightarrow> nr_free s k = int (length (F k))"
  using assms by (auto simp: core_defs)

text \<open>Taking a block off its free list hands it out.\<close>

lemma core_take:
  assumes c: "buddy_core s F E M A" and k: "0 \<le> k" "k \<le> MAX_ORDER" and p: "p \<in> set (F k)"
  shows "buddy_core (pop_block_from_free_area p k s) (F(k := remove1 p (F k))) E M (insert (p, k) A)"
proof -
  let ?F = "F(k := remove1 p (F k))" and ?A = "insert (p, k) A"
  have pk: "(p, k) \<in> free_blocks F" using k p by (simp add: free_blocks_def)
  have dist: "distinct (F k)" by (rule core_free_distinct [OF c k])
  have F: "free_blocks ?F = free_blocks F - {(p, k)}"
    using dist k p by (auto simp: free_blocks_def)
  have U: "free_blocks ?F \<union> ?A = free_blocks F \<union> A" using F pk by auto
  have "dlists (links s) (area_heads \<union> E) (lists_of F M)" using c by (simp add: core_defs)
  then have "dlists (list_del (PageNode p) (links s)) (area_heads \<union> E)
      ((lists_of F M)(FreeArea k := remove1 (PageNode p) (lists_of F M (FreeArea k))))"
    by (rule kl.repr_del) (use k p in auto)
  then have "links_ok (pop_block_from_free_area p k s) ?F E M ?A"
    using c by (auto simp: core_defs map_remove1_inj)
  moreover have "blocks_ok ?F ?A" using c F U by (auto simp: core_defs)
  moreover have "pages_ok (pop_block_from_free_area p k s) ?F ?A"
    unfolding pages_ok_def
  proof (intro conjI allI impI ballI)
    fix q assume "in_bookkeep q"
    then show "pfn (bookkeep (pop_block_from_free_area p k s) q) = q"
      using core_pages(1) [OF c, of q] by auto
  next
    fix b assume b: "b \<in> free_blocks ?F"
    obtain q j where q: "b = (q, j)" by (cases b)
    have "q \<noteq> p" using core_meet [OF c, of "(q, j)" "(p, k)" p] b pk F q by auto
    then show "case b of (q, j) \<Rightarrow> order (bookkeep (pop_block_from_free_area p k s) q) = j \<and>
        used (bookkeep (pop_block_from_free_area p k s) q) = Free"
      using core_pages(2) [OF c, of q j] b F q by simp
  next
    fix b assume b: "b \<in> ?A"
    then show "case b of (q, j) \<Rightarrow> order (bookkeep (pop_block_from_free_area p k s) q) = j \<and>
        used (bookkeep (pop_block_from_free_area p k s) q) = Taken"
      using core_pages(3) [OF c] core_pages(2) [OF c pk] by (cases b) auto
  next
    fix q assume q: "in_bookkeep q \<and> used (bookkeep (pop_block_from_free_area p k s) q) = Free \<and>
      0 \<le> order (bookkeep (pop_block_from_free_area p k s) q)"
    then have "q \<noteq> p" by auto
    then show "(q, order (bookkeep (pop_block_from_free_area p k s) q)) \<in> free_blocks ?F"
      using q core_pages(4) [OF c, of q] F by simp
  next
    fix j assume "j \<in> {0..MAX_ORDER}"
    moreover have "Suc 0 \<le> length (F k)" using p by (cases "F k") auto
    ultimately show "nr_free (pop_block_from_free_area p k s) j = int (length (?F j))"
      using core_pages(5) [OF c, of j] p by (auto simp: length_remove1 of_nat_diff)
  qed
  ultimately show ?thesis by (simp add: buddy_core_def)
qed

text \<open>Pushing a handed-out block that is on no list makes it free again.\<close>

lemma core_give:
  assumes c: "buddy_core s F E M A" and p: "(p, k) \<in> A" and M: "\<And>d. d \<in> E \<Longrightarrow> p \<notin> set (M d)"
  shows "buddy_core (push_block_to_free_area p k k s) (F(k := F k @ [p])) E M (A - {(p, k)})"
proof -
  let ?F = "F(k := F k @ [p])" and ?A = "A - {(p, k)}" and ?s = "push_block_to_free_area p k k s"
  have v: "valid_block (p, k)" using core_valid [OF c] p by blast
  then have k: "0 \<le> k" "k \<le> MAX_ORDER" by (simp_all add: valid_block_def)
  have F: "free_blocks ?F = insert (p, k) (free_blocks F)"
    using k by (auto simp: free_blocks_def)
  have U: "free_blocks ?F \<union> ?A = free_blocks F \<union> A" using F p by auto
  have notF: "(p, j) \<notin> free_blocks F" for j
    using core_meet [OF c, of "(p, j)" "(p, k)" p] p c by (auto simp: core_defs)
  have fresh: "PageNode p \<notin> set (d # lists_of F M d)" if d: "d \<in> area_heads \<union> E" for d
  proof (cases "d \<in> area_heads")
    case True
    then show ?thesis using notF by (auto simp: area_heads_def free_blocks_def)
  next
    case False
    with d c have "d \<in> E" "d \<in> client_heads" by (auto simp: core_defs)
    then show ?thesis using M by (auto simp: lists_of_client)
  qed
  have "dlists (links s) (area_heads \<union> E) (lists_of F M)" using c by (simp add: core_defs)
  then have "dlists (list_add_tail (PageNode p) (FreeArea k) (links s)) (area_heads \<union> E)
      ((lists_of F M)(FreeArea k := lists_of F M (FreeArea k) @ [PageNode p]))"
    by (rule kl.repr_add_tail) (use k fresh in auto)
  moreover have "set (M d) \<subseteq> fst ` ?A" if d: "d \<in> E" for d
  proof
    fix q assume q: "q \<in> set (M d)"
    with d obtain j where "(q, j) \<in> A" by (rule core_client [OF c])
    moreover have "q \<noteq> p" using M [OF d] q by blast
    ultimately show "q \<in> fst ` ?A" by force
  qed
  ultimately have "links_ok ?s ?F E M ?A" using c by (auto simp: core_defs)
  moreover have "blocks_ok ?F ?A" using c F U by (auto simp: core_defs)
  moreover have "pages_ok ?s ?F ?A"
    unfolding pages_ok_def
  proof (intro conjI allI impI ballI)
    fix q assume "in_bookkeep q"
    then show "pfn (bookkeep ?s q) = q" using core_pages(1) [OF c, of q] by auto
  next
    fix b assume "b \<in> free_blocks ?F"
    then show "case b of (q, j) \<Rightarrow> order (bookkeep ?s q) = j \<and> used (bookkeep ?s q) = Free"
      using core_pages(2) [OF c] F notF by (cases b) auto
  next
    fix b assume b: "b \<in> ?A"
    obtain q j where q: "b = (q, j)" by (cases b)
    have "q \<noteq> p" using core_meet [OF c, of "(q, j)" "(p, k)" p] b q p by auto
    then show "case b of (q, j) \<Rightarrow> order (bookkeep ?s q) = j \<and> used (bookkeep ?s q) = Taken"
      using core_pages(3) [OF c, of q j] b q by simp
  next
    fix q assume q: "in_bookkeep q \<and> used (bookkeep ?s q) = Free \<and> 0 \<le> order (bookkeep ?s q)"
    then show "(q, order (bookkeep ?s q)) \<in> free_blocks ?F"
      using core_pages(4) [OF c, of q] F by (cases "q = p") auto
  next
    fix j assume "j \<in> {0..MAX_ORDER}"
    then show "nr_free ?s j = int (length (?F j))" using core_pages(5) [OF c, of j] by auto
  qed
  ultimately show ?thesis by (simp add: buddy_core_def)
qed

text \<open>Two handed-out buddies that are on no list count as one block of the next order.\<close>

lemma core_merge:
  assumes c: "buddy_core s F E M A" and b: "(b, j) \<in> A" "(FIND_BUDDY_PFN b j, j) \<in> A"
    and j: "j < MAX_ORDER" and l: "l = FIND_LBUDDY_PFN b j"
    and M: "\<And>d. d \<in> E \<Longrightarrow> b \<notin> set (M d) \<and> FIND_BUDDY_PFN b j \<notin> set (M d)"
  shows "buddy_core (upd_page l (\<lambda>p. p\<lparr>order := j + 1\<rparr>) s) F E M
           (insert (l, j + 1) (A - {(b, j), (FIND_BUDDY_PFN b j, j)}))"
proof -
  let ?c = "FIND_BUDDY_PFN b j" and ?s = "upd_page l (\<lambda>p. p\<lparr>order := j + 1\<rparr>) s"
  let ?C = "{(b, j), (?c, j)}"
  let ?A = "insert (l, j + 1) (A - ?C)"
  have v: "valid_block (b, j)" using core_valid [OF c] b by blast
  note mb = buddy_merge_block [OF v j]
  have lbc: "l \<in> {b, ?c}" using mb(4) l by simp
  have notF: "?C \<inter> free_blocks F = {}" using b c by (auto simp: core_defs)
  have P: "partitions (free_blocks F \<union> A)" using c by (simp add: core_defs)
  then have "partitions ((free_blocks F \<union> A - ?C) \<union> {(l, j + 1)})"
    by (rule partitions_replace) (use b mb l in auto)
  moreover have "(free_blocks F \<union> A - ?C) \<union> {(l, j + 1)} = free_blocks F \<union> ?A"
    using notF by auto
  moreover have lF: "(l, i) \<notin> free_blocks F" for i
    using core_meet [OF c, of "(l, i)" "(l, j)" l] lbc b notF c by (auto simp: core_defs)
  ultimately have "blocks_ok F ?A" using c by (auto simp: core_defs)
  moreover have "set (M d) \<subseteq> fst ` ?A" if d: "d \<in> E" for d
  proof
    fix q assume q: "q \<in> set (M d)"
    with d obtain i where "(q, i) \<in> A" by (rule core_client [OF c])
    with M [OF d] q show "q \<in> fst ` ?A" by force
  qed
  then have "links_ok ?s F E M ?A" using c by (auto simp: core_defs)
  moreover have "pages_ok ?s F ?A"
    unfolding pages_ok_def
  proof (intro conjI allI impI ballI)
    fix q assume "in_bookkeep q"
    then show "pfn (bookkeep ?s q) = q" using core_pages(1) [OF c, of q] by auto
  next
    fix x assume "x \<in> free_blocks F"
    then show "case x of (q, i) \<Rightarrow> order (bookkeep ?s q) = i \<and> used (bookkeep ?s q) = Free"
      using core_pages(2) [OF c] lF by (cases x) auto
  next
    fix x assume x: "x \<in> ?A"
    obtain q i where q: "x = (q, i)" by (cases x)
    have "used (bookkeep s l) = Taken" using lbc b core_pages(3) [OF c] by auto
    moreover have "q \<noteq> l" if "x \<noteq> (l, j + 1)"
      using that core_meet [OF c, of "(q, i)" "(l, j)" l] x q lbc b by auto
    ultimately show "case x of (q, i) \<Rightarrow> order (bookkeep ?s q) = i \<and> used (bookkeep ?s q) = Taken"
      using core_pages(3) [OF c, of q i] x q by auto
  next
    fix q assume q: "in_bookkeep q \<and> used (bookkeep ?s q) = Free \<and> 0 \<le> order (bookkeep ?s q)"
    have "used (bookkeep s l) = Taken" using lbc b core_pages(3) [OF c] by auto
    with q show "(q, order (bookkeep ?s q)) \<in> free_blocks F"
      using core_pages(4) [OF c, of q] by (cases "q = l") auto
  next
    fix k assume "k \<in> {0..MAX_ORDER}"
    then show "nr_free ?s k = int (length (F k))" using core_pages(5) [OF c, of k] by simp
  qed
  ultimately show ?thesis by (simp add: buddy_core_def)
qed

text \<open>A handed-out block counts as two of the order below once both pages say so.\<close>

lemma core_split:
  assumes c: "buddy_core s F E M A" and t: "(t, k) \<in> A" "0 < k" and h: "h = t + 2 ^ nat (k - 1)"
  shows "buddy_core (upd_page h (\<lambda>p. p\<lparr>order := k - 1, used := Taken\<rparr>)
             (upd_page t (\<lambda>p. p\<lparr>order := k - 1\<rparr>) s)) F E M
           (insert (h, k - 1) (insert (t, k - 1) (A - {(t, k)})))"
    and "\<And>d. d \<in> E \<Longrightarrow> h \<notin> set (M d)"
proof -
  let ?s = "upd_page h (\<lambda>p. p\<lparr>order := k - 1, used := Taken\<rparr>)
             (upd_page t (\<lambda>p. p\<lparr>order := k - 1\<rparr>) s)"
  let ?A = "insert (h, k - 1) (insert (t, k - 1) (A - {(t, k)}))"
  have v: "valid_block (t, k)" using core_valid [OF c] t by blast
  note sb = buddy_split_block [OF v t(2)]
  have hin: "h \<in> frames (t, k)" "h \<noteq> t" using sb(4) h by auto
  have tU: "(t, k) \<in> free_blocks F \<union> A" using t by simp
  note inside = core_inside [OF c tU hin]
  have tF: "(t, k) \<notin> free_blocks F" using t c by (auto simp: core_defs)
  have tF': "(t, i) \<notin> free_blocks F" for i
    using core_meet [OF c, of "(t, i)" "(t, k)" t] t tF by auto
  show hM: "h \<notin> set (M d)" if d: "d \<in> E" for d
  proof
    assume "h \<in> set (M d)"
    with d obtain i where "(h, i) \<in> A" by (rule core_client [OF c])
    with inside(1) show False by blast
  qed
  have P: "partitions (free_blocks F \<union> A)" using c by (simp add: core_defs)
  then have "partitions ((free_blocks F \<union> A - {(t, k)}) \<union> {(h, k - 1), (t, k - 1)})"
    by (rule partitions_replace) (use t sb h in auto)
  moreover have "(free_blocks F \<union> A - {(t, k)}) \<union> {(h, k - 1), (t, k - 1)} = free_blocks F \<union> ?A"
    using tF by auto
  ultimately have "blocks_ok F ?A" using c inside(1) tF' by (auto simp: core_defs)
  moreover have "set (M d) \<subseteq> fst ` ?A" if d: "d \<in> E" for d
  proof
    fix q assume "q \<in> set (M d)"
    with d obtain i where "(q, i) \<in> A" by (rule core_client [OF c])
    then show "q \<in> fst ` ?A" by (cases "q = t") force+
  qed
  then have "links_ok ?s F E M ?A" using c by (auto simp: core_defs)
  moreover have "pages_ok ?s F ?A"
    unfolding pages_ok_def
  proof (intro conjI allI impI ballI)
    fix q assume "in_bookkeep q"
    then show "pfn (bookkeep ?s q) = q" using core_pages(1) [OF c, of q] by auto
  next
    fix x assume "x \<in> free_blocks F"
    then show "case x of (q, i) \<Rightarrow> order (bookkeep ?s q) = i \<and> used (bookkeep ?s q) = Free"
      using core_pages(2) [OF c] tF' inside(1) by (cases x) auto
  next
    fix x assume x: "x \<in> ?A"
    obtain q i where q: "x = (q, i)" by (cases x)
    have "q \<noteq> t \<and> q \<noteq> h" if "x \<noteq> (t, k - 1)" "x \<noteq> (h, k - 1)"
      using that core_meet [OF c, of "(q, i)" "(t, k)" t] x q t inside(1) by auto
    then show "case x of (q, i) \<Rightarrow> order (bookkeep ?s q) = i \<and> used (bookkeep ?s q) = Taken"
      using core_pages(3) [OF c, of q i] core_pages(3) [OF c t(1)] x q hin by auto
  next
    fix q assume q: "in_bookkeep q \<and> used (bookkeep ?s q) = Free \<and> 0 \<le> order (bookkeep ?s q)"
    have "used (bookkeep s t) = Taken" using t core_pages(3) [OF c] by auto
    with q show "(q, order (bookkeep ?s q)) \<in> free_blocks F"
      using core_pages(4) [OF c, of q] by (cases "q = t"; cases "q = h") auto
  next
    fix i assume "i \<in> {0..MAX_ORDER}"
    then show "nr_free ?s i = int (length (F i))" using core_pages(5) [OF c, of i] by simp
  qed
  ultimately show "buddy_core ?s F E M ?A" by (simp add: buddy_core_def)
qed

section \<open>The loops\<close>

text \<open>The buddy system leaves the object allocators' part of the state alone.\<close>

definition slab_same :: "mm_state \<Rightarrow> mm_state \<Rightarrow> bool" where
  "slab_same s s' \<longleftrightarrow> obj_alloc_pool s' = obj_alloc_pool s \<and> obj_mem s' = obj_mem s \<and>
     (\<forall>p. phy_addr (bookkeep s' p) = phy_addr (bookkeep s p) \<and>
          pg_obj_used (bookkeep s' p) = pg_obj_used (bookkeep s p) \<and>
          obj_alloc (bookkeep s' p) = obj_alloc (bookkeep s p) \<and>
          free (bookkeep s' p) = free (bookkeep s p))"

lemma slab_same_refl [simp]: "slab_same s s"
  by (simp add: slab_same_def)

lemma slab_same_trans: "slab_same s t \<Longrightarrow> slab_same t u \<Longrightarrow> slab_same s u"
  by (simp add: slab_same_def)

lemma slab_same_steps:
  "slab_same s (pop_block_from_free_area p k s)"
  "slab_same s (push_block_to_free_area p k j s)"
  "slab_same s (upd_page p (\<lambda>q. q\<lparr>order := i\<rparr>) s)"
  by (simp_all add: slab_same_def)

lemma coalesced_push:
  assumes "coalesced F" "FIND_BUDDY_PFN p k \<notin> set (F k)"
  shows "coalesced (F(k := F k @ [p]))"
proof -
  have "FIND_BUDDY_PFN q k \<noteq> p" if "q \<in> set (F k)" for q
    using that assms(2) FIND_BUDDY_involutive [of q k] by auto
  moreover have "FIND_BUDDY_PFN p k \<noteq> p" by simp
  ultimately show ?thesis using assms unfolding coalesced_def by auto
qed

lemma coalesced_pop:
  assumes "coalesced F"
  shows "coalesced (F(k := remove1 p (F k)))"
proof -
  have "set (remove1 p (F k)) \<subseteq> set (F k)" by (rule set_remove1_subset)
  with assms show ?thesis unfolding coalesced_def by (auto dest: subsetD)
qed

lemma coalesced_top: "coalesced F \<Longrightarrow> MAX_ORDER \<le> k \<Longrightarrow> coalesced (F(k := xs))"
  by (simp add: coalesced_def)

lemma push_after_mark:
  assumes "h \<noteq> t"
  shows "push_block_to_free_area h k k (upd_page h (\<lambda>p. p\<lparr>order := k, used := Taken\<rparr>)
           (upd_page t (\<lambda>p. p\<lparr>order := k\<rparr>) (upd_page t (\<lambda>p. p\<lparr>order := c\<rparr>) s)))
         = upd_page t (\<lambda>p. p\<lparr>order := k\<rparr>) (push_block_to_free_area h k k s)"
  using assms
  by (auto simp: push_block_to_free_area_def upd_page_def upd_links_def Let_def fun_upd_twist
      intro!: mm_state.equality)

lemma buddy_split_core:
  assumes "buddy_core (upd_page t (\<lambda>p. p\<lparr>order := cur\<rparr>) s) F E M (insert (t, cur) A)"
    and "\<forall>i. (t, i) \<notin> A" and "order (bookkeep s t) = ord" and "0 \<le> ord" "ord \<le> cur"
    and "coalesced F"
  shows "\<exists>s' F'. buddy_split t cur ord s = Inr s' \<and> buddy_core s' F' E M (insert (t, ord) A) \<and>
           coalesced F' \<and> slab_same s s'"
  using assms
proof (induction t cur ord s arbitrary: F rule: buddy_split.induct)
  case (1 t cur ord s)
  note c = "1.prems"(1)
  have tc: "(t, cur) \<in> insert (t, cur) A" by simp
  have v: "valid_block (t, cur)" using core_valid [OF c] by blast
  show ?case
  proof (cases "ord < cur")
    case False
    with "1.prems" have "cur = ord" by simp
    moreover have "upd_page t (\<lambda>p. p\<lparr>order := ord\<rparr>) s = s"
      using "1.prems"(3) by (auto simp: upd_page_def intro!: mm_state.equality)
    ultimately show ?thesis using "1.prems" by (auto simp: buddy_split.simps [of t])
  next
    case True
    with "1.prems" have pos: "0 < cur" by simp
    define k h where "k = cur - 1" and "h = t + 2 ^ nat (cur - 1)"
    let ?F = "F(k := F k @ [h])" and ?s = "push_block_to_free_area h k k s"
    note sb = buddy_split_block [OF v pos]
    have ht: "h \<noteq> t" "h \<in> frames (t, cur)" using sb(4) by (auto simp: h_def)
    have pf: "pfn (bookkeep s t) = t"
      using core_pages(1) [OF c, of t] valid_block_in_bookkeep [OF v, of t] by simp
    have hA: "(h, k) \<notin> A" using core_inside(1) [OF c _ ht(2) ht(1)] by blast
    have A: "insert (t, cur) A - {(t, cur)} = A" using "1.prems"(2) by auto
    note sp = core_split [OF c tc pos, of h, unfolded A, folded k_def]
    have sp1: "buddy_core (upd_page h (\<lambda>p. p\<lparr>order := k, used := Taken\<rparr>)
        (upd_page t (\<lambda>p. p\<lparr>order := k\<rparr>) (upd_page t (\<lambda>p. p\<lparr>order := cur\<rparr>) s))) F E M
        (insert (h, k) (insert (t, k) A))"
      by (rule sp(1)) (simp add: h_def k_def)
    have hM: "h \<notin> set (M d)" if "d \<in> E" for d
      by (rule sp(2)) (simp_all add: h_def k_def that)
    have "buddy_core (upd_page t (\<lambda>p. p\<lparr>order := k\<rparr>) ?s) ?F E M
        (insert (h, k) (insert (t, k) A) - {(h, k)})"
      using core_give [OF sp1 insertI1 hM] unfolding push_after_mark [OF ht(1)] .
    moreover have "insert (h, k) (insert (t, k) A) - {(h, k)} = insert (t, k) A"
      using hA ht by auto
    ultimately have c': "buddy_core (upd_page t (\<lambda>p. p\<lparr>order := k\<rparr>) ?s) ?F E M (insert (t, k) A)"
      by simp
    have "t \<notin> set (F k)"
    proof
      assume "t \<in> set (F k)"
      then have "(t, k) \<in> free_blocks F"
        using "1.prems"(4) True v by (auto simp: free_blocks_def k_def valid_block_def)
      with core_meet [OF c, of "(t, k)" "(t, cur)" t] show False by (simp add: k_def)
    qed
    moreover have "FIND_BUDDY_PFN h k = t"
      using FIND_BUDDY_involutive [of t k] sb(1) by (simp add: h_def k_def)
    ultimately have "coalesced ?F" using "1.prems"(6) by (intro coalesced_push) simp_all
    moreover have "in_bookkeep (FIND_BUDDY_PFN (pfn (bookkeep s t)) (cur - 1))"
      using sb(1) pf valid_block_in_bookkeep [OF v ht(2)] by (simp add: h_def)
    moreover have FB: "FIND_BUDDY_PFN (pfn (bookkeep s t)) (cur - 1) = h" "cur - 1 = k"
      using sb(1) pf by (simp_all add: h_def k_def)
    moreover have "order (bookkeep ?s t) = ord" using ht "1.prems"(3) by simp
    moreover have "ord \<le> k" using True by (simp add: k_def)
    ultimately have "\<exists>s' F'. buddy_split t k ord ?s = Inr s' \<and>
        buddy_core s' F' E M (insert (t, ord) A) \<and> coalesced F' \<and> slab_same ?s s'"
      using "1.IH" [OF True refl refl _ _ "1.prems"(2), of ?F] "1.prems"(4) c'
      by (simp add: fun_upd_def)
    moreover have "buddy_split t cur ord s = buddy_split t k ord ?s"
      using True FB \<open>in_bookkeep _\<close> by (simp add: buddy_split.simps [of t cur] Let_def)
    ultimately show ?thesis using slab_same_trans slab_same_steps(2) by metis
  qed
qed

lemma buddy_scan_none:
  assumes "buddy_core s F E M A" "0 \<le> i" "\<forall>k\<in>{i..MAX_ORDER}. F k = []"
  shows "buddy_scan i ord s = Inr (s, None)"
  using assms
proof (induction i ord s rule: buddy_scan.induct)
  case (1 i ord s)
  show ?case
  proof (cases "i \<le> MAX_ORDER")
    case True
    with "1.prems" have e: "list_empty (FreeArea i) (links s)"
      by (subst kl.repr_empty [of _ "area_heads \<union> E" "lists_of F M"]) (auto simp: core_defs)
    with True "1" have "buddy_scan (i + 1) ord s = Inr (s, None)" by auto
    with e True show ?thesis by (simp add: buddy_scan.simps [of i])
  qed (simp add: buddy_scan.simps [of i])
qed

text \<open>The scan takes the first block of the least sufficient order that has one.\<close>

lemma buddy_scan_some:
  assumes "buddy_inv s F E M A" "0 \<le> ord" "ord \<le> i" "i \<le> k" "k \<le> MAX_ORDER"
    "F k \<noteq> []" "\<forall>j\<in>{i..<k}. F j = []"
  shows "\<exists>s' F'. buddy_scan i ord s = Inr (s', Some (hd (F k))) \<and>
           buddy_inv s' F' E M (insert (hd (F k), ord) A) \<and> slab_same s s'"
  using assms
proof (induction i ord s rule: buddy_scan.induct)
  case (1 i ord s)
  have c: "buddy_core s F E M A" and co: "coalesced F"
    using "1.prems"(1) by (simp_all add: buddy_inv_def)
  have fam: "dlists (links s) (area_heads \<union> E) (lists_of F M)" using c by (simp add: core_defs)
  have i: "0 \<le> i" "i \<le> MAX_ORDER" using "1.prems" by auto
  then have iD: "FreeArea i \<in> area_heads \<union> E" by simp
  show ?case
  proof (cases "i = k")
    case False
    with "1.prems" have "F i = []" by auto
    then have "list_empty (FreeArea i) (links s)" using kl.repr_empty [OF fam iD] by simp
    then show ?thesis using "1" False i
      by (simp add: buddy_scan.simps [of i])
  next
    case True
    define t where "t = hd (F k)"
    have ne: "lists_of F M (FreeArea i) \<noteq> []" using True "1.prems"(6) by simp
    then have ft: "list_first (FreeArea i) (links s) = PageNode t"
      using kl.repr_first [OF fam iD] True "1.prems"(6) by (simp add: hd_map t_def)
    have tm: "t \<in> set (F i)" using True "1.prems"(6) by (simp add: t_def)
    have tF: "(t, i) \<in> free_blocks F" using tm i by (simp add: free_blocks_def)
    define s1 where "s1 = pop_block_from_free_area t i s"
    define s2 where "s2 = upd_page t (\<lambda>p. p\<lparr>order := ord\<rparr>) s1"
    let ?F = "F(i := remove1 t (F i))"
    have c1: "buddy_core s1 ?F E M (insert (t, i) A)"
      unfolding s1_def by (rule core_take [OF c i tm])
    have tA: "\<forall>j. (t, j) \<notin> A"
      using core_meet [OF c, of "(t, _)" "(t, i)" t] tF c by (auto simp: core_defs)
    have "upd_page t (\<lambda>p. p\<lparr>order := i\<rparr>) s2 = s1"
      using core_pages(3) [OF c1, of t i] by (auto simp: s2_def upd_page_def intro!: mm_state.equality)
    then have c2: "buddy_core (upd_page t (\<lambda>p. p\<lparr>order := i\<rparr>) s2) ?F E M (insert (t, i) A)"
      using c1 by simp
    obtain s3 F3 where s3: "buddy_split t i ord s2 = Inr s3" "buddy_core s3 F3 E M (insert (t, ord) A)"
      "coalesced F3" "slab_same s2 s3"
      using buddy_split_core [OF c2 tA _ "1.prems"(2,3) coalesced_pop [OF co]]
      by (auto simp: s2_def)
    have "\<not> list_empty (FreeArea i) (links s)" using kl.repr_empty [OF fam iD] ne by simp
    then have "buddy_scan i ord s = Inr (s3, Some t)"
      using i ft s3(1) by (simp add: buddy_scan.simps [of i] s1_def s2_def Let_def)
    moreover have "slab_same s s3"
      using slab_same_steps(1,3) s3(4) slab_same_trans unfolding s1_def s2_def by metis
    ultimately show ?thesis using s3 by (auto simp: buddy_inv_def t_def)
  qed
qed

lemma buddy_block_alloc_cases:
  assumes inv: "buddy_inv s F E M A" and ord: "0 \<le> ord" "ord \<le> MAX_ORDER"
  obtains (null) "\<forall>k\<in>{ord..MAX_ORDER}. F k = []" "buddy_block_alloc ord s = Inr (s, None)"
    | (block) s' F' t k where "ord \<le> k" "k \<le> MAX_ORDER" "(t, k) \<in> free_blocks F"
        "buddy_block_alloc ord s = Inr (s', Some t)"
        "buddy_inv s' F' E M (insert (t, ord) A)" "slab_same s s'"
proof (cases "\<forall>k\<in>{ord..MAX_ORDER}. F k = []")
  case True
  with assms buddy_scan_none [of s F E M A ord ord] show thesis
    by (intro null) (simp_all add: buddy_block_alloc_def buddy_inv_def)
next
  case False
  let ?P = "\<lambda>n. F (ord + int n) \<noteq> [] \<and> ord + int n \<le> MAX_ORDER"
  define n where "n = (LEAST n. ?P n)"
  from False obtain k where "k \<in> {ord..MAX_ORDER}" "F k \<noteq> []" by blast
  then have "?P (nat (k - ord))" by simp
  then have n: "?P n" unfolding n_def by (rule LeastI)
  have least: "F j = []" if "j \<in> {ord..<ord + int n}" for j
  proof -
    have "nat (j - ord) < n" using that by auto
    then have "\<not> ?P (nat (j - ord))" unfolding n_def by (rule not_less_Least)
    with that n show ?thesis by auto
  qed
  obtain s' F' where "buddy_scan ord ord s = Inr (s', Some (hd (F (ord + int n))))"
    "buddy_inv s' F' E M (insert (hd (F (ord + int n)), ord) A)" "slab_same s s'"
    using buddy_scan_some [OF inv ord(1) order_refl, of "ord + int n"] n least by auto
  moreover have "(hd (F (ord + int n)), ord + int n) \<in> free_blocks F"
    using n ord by (auto simp: free_blocks_def)
  ultimately show thesis using n ord
    by (intro block [of "ord + int n"]) (auto simp: buddy_block_alloc_def)
qed

text \<open>Release: every round merges with a free buddy, and the last one pushes the block.\<close>

lemma buddy_coalesce_core:
  assumes "buddy_core s F E M A" "coalesced F" "(b, j) \<in> A" "nat (MAX_ORDER - j) < fuel"
    "\<And>d. d \<in> E \<Longrightarrow> b \<notin> set (M d)"
  shows "\<exists>s' F'. buddy_coalesce fuel b s = Inr s' \<and> buddy_inv s' F' E M (A - {(b, j)}) \<and>
           slab_same s s'"
  using assms
proof (induction fuel arbitrary: s F A b j)
  case 0
  then show ?case by simp
next
  case (Suc fuel)
  note c = Suc.prems(1) and bA = Suc.prems(3) and bM = Suc.prems(5)
  have v: "valid_block (b, j)" using core_valid [OF c] bA by blast
  then have j: "0 \<le> j" "j \<le> MAX_ORDER" by (simp_all add: valid_block_def)
  define d where "d = FIND_BUDDY_PFN b j"
  have pf: "pfn (bookkeep s b) = b"
    using core_pages(1) [OF c] valid_block_in_bookkeep [OF v, of b] by simp
  have ob: "order (bookkeep s b) = j" using core_pages(3) [OF c bA] by simp
  have din: "in_bookkeep d" unfolding d_def by (rule FIND_BUDDY_in_bookkeep [OF v])
  show ?case
  proof (cases "buddy_mergeable b d s")
    case False
    have "coalesced (F(j := F j @ [b]))"
    proof (cases "j < MAX_ORDER")
      case True
      with False have "(d, j) \<notin> free_blocks F"
        using core_pages(2) [OF c, of d j] ob by (auto simp: buddy_mergeable_def)
      with True j have "d \<notin> set (F j)" by (simp add: free_blocks_def)
      then show ?thesis unfolding d_def by (rule coalesced_push [OF Suc.prems(2)])
    next
      case top: False
      with j show ?thesis by (intro coalesced_top Suc.prems(2)) simp
    qed
    moreover have "buddy_core (push_block_to_free_area b j j s) (F(j := F j @ [b])) E M (A - {(b, j)})"
      by (rule core_give [OF c bA bM])
    moreover have "buddy_coalesce (Suc fuel) b s = Inr (push_block_to_free_area b j j s)"
      using False din j pf ob by (simp add: d_def)
    ultimately show ?thesis using slab_same_steps(2) by (auto simp: buddy_inv_def)
  next
    case True
    then have j9: "j < MAX_ORDER" and od: "order (bookkeep s d) = j"
      and ud: "used (bookkeep s d) = Free" using ob by (auto simp: buddy_mergeable_def)
    have dF: "(d, j) \<in> free_blocks F" using core_pages(4) [OF c din ud] od j by simp
    then have dFj: "d \<in> set (F j)" by (simp add: free_blocks_def)
    define s1 where "s1 = pop_block_from_free_area d j s"
    define l where "l = FIND_LBUDDY_PFN b j"
    define s2 where "s2 = upd_page l (\<lambda>p. p\<lparr>order := j + 1\<rparr>) s1"
    let ?F = "F(j := remove1 d (F j))" and ?A = "insert (l, j + 1) (A - {(b, j)})"
    have c1: "buddy_core s1 ?F E M (insert (d, j) A)"
      unfolding s1_def by (rule core_take [OF c j dFj])
    have dA: "(d, i) \<notin> A" for i
      using core_meet [OF c, of "(d, i)" "(d, j)" d] dF c by (auto simp: core_defs)
    have bA': "i = j" if "(b, i) \<in> A" for i
      using core_meet [OF c, of "(b, i)" "(b, j)" b] that bA by simp
    have dM: "d \<notin> set (M e)" if "e \<in> E" for e
      using core_client [OF c that] dA by blast
    have ne: "d \<noteq> b" by (simp add: d_def)
    have "insert (d, j) A - {(b, j), (d, j)} = A - {(b, j)}" using dA by auto
    with core_merge [OF c1, of b j l] bA bM dM j9
    have c2: "buddy_core s2 ?F E M ?A" by (simp add: d_def l_def s2_def)
    have lbd: "l \<in> {b, d}" using buddy_merge_block(4) [OF v j9] by (simp add: l_def d_def)
    have "order (bookkeep s1 l) = j" using lbd ob od ne by (auto simp: s1_def)
    then have "upd_page l (\<lambda>p. p\<lparr>order := order p + 1\<rparr>) s1 = s2"
      unfolding s2_def by (intro upd_page_cong) simp
    moreover have "pfn (bookkeep s1 b) = b" "order (bookkeep s1 b) = j"
      using pf ob ne by (simp_all add: s1_def)
    ultimately have "buddy_merge b d s = (l, s2)"
      by (simp add: buddy_merge_def od l_def flip: s1_def)
    then have eq: "buddy_coalesce (Suc fuel) b s = buddy_coalesce fuel l s2"
      using True din j pf ob by (simp add: d_def)
    have lM: "l \<notin> set (M e)" if "e \<in> E" for e using lbd bM dM that by auto
    have "nat (MAX_ORDER - (j + 1)) < fuel" using Suc.prems(4) j9 by simp
    from Suc.IH [OF c2 coalesced_pop [OF Suc.prems(2)] insertI1 this lM]
    obtain s' F' where r: "buddy_coalesce fuel l s2 = Inr s'"
      "buddy_inv s' F' E M (?A - {(l, j + 1)})" "slab_same s2 s'" by blast
    have "(l, j + 1) \<notin> A"
    proof
      assume "(l, j + 1) \<in> A"
      with lbd dA have "(b, j + 1) \<in> A" by auto
      from bA' [OF this] show False by simp
    qed
    then have "?A - {(l, j + 1)} = A - {(b, j)}" by simp
    moreover have "slab_same s s'"
      using slab_same_steps(1,3) r(3) slab_same_trans unfolding s1_def s2_def by metis
    ultimately show ?thesis using r eq by auto
  qed
qed

lemma buddy_block_free_inv:
  assumes "buddy_inv s F E M A" "(b, j) \<in> A" "\<And>d. d \<in> E \<Longrightarrow> b \<notin> set (M d)"
  shows "\<exists>s' F'. buddy_block_free b s = Inr s' \<and> buddy_inv s' F' E M (A - {(b, j)}) \<and> slab_same s s'"
proof -
  have "0 \<le> j" using assms core_valid [of s F E M A "(b, j)"] by (auto simp: buddy_inv_def valid_block_def)
  then have "nat (MAX_ORDER - j) < nat (MAX_ORDER + 1)" by simp
  with assms show ?thesis unfolding buddy_block_free_def
    by (intro buddy_coalesce_core [of s F E M A]) (auto simp: buddy_inv_def)
qed

end
