(* ===== verification/Buddy_Spec.thy ===== *)
theory Buddy_Spec
  imports Buddy_Inv
begin

text \<open>
  What the buddy system promises: the abstract allocator of aligned blocks it refines, its
  initial state, the completeness of allocation that coalescing buys, and the interface the
  object allocator relies on.
\<close>

section \<open>The abstract allocator\<close>

text \<open>
  The state of the abstract allocator is the set of blocks handed out. Allocation returns an
  aligned block that meets none of them, and may fail only when there is no such block.
\<close>

definition occupied :: "block set \<Rightarrow> int set" where
  "occupied A = \<Union> (frames ` A)"

definition spec_alloc :: "int \<Rightarrow> block set \<Rightarrow> int option \<Rightarrow> block set \<Rightarrow> bool" where
  "spec_alloc ord A r A' \<longleftrightarrow>
     (case r of
        None \<Rightarrow> A' = A \<and> (\<forall>q. valid_block (q, ord) \<longrightarrow> frames (q, ord) \<inter> occupied A \<noteq> {})
      | Some t \<Rightarrow> valid_block (t, ord) \<and> frames (t, ord) \<inter> occupied A = {} \<and> A' = insert (t, ord) A)"

definition spec_free :: "int \<Rightarrow> block set \<Rightarrow> block set \<Rightarrow> bool" where
  "spec_free b A A' \<longleftrightarrow> (\<exists>k. (b, k) \<in> A \<and> A' = A - {(b, k)})"

section \<open>Completeness of the free lists\<close>

lemma aligned_same_order:
  assumes "2 ^ k dvd (p::int)" "2 ^ k dvd (q::int)" "x \<in> block_range p k" "x \<in> block_range q k"
  shows "p = q"
proof -
  from assms have "p div 2 ^ k = q div 2 ^ k" by (simp add: aligned_range_iff)
  then show ?thesis using assms(1,2) by (metis dvd_mult_div_cancel)
qed

lemma frames_nested:
  assumes "valid_block (p, j)" "valid_block (q, k)" "j \<le> k" "x \<in> frames (p, j)" "x \<in> frames (q, k)"
  shows "frames (p, j) \<subseteq> frames (q, k)"
proof -
  have "nat j \<le> nat k" using assms(3) by simp
  with assms show ?thesis unfolding frames_def valid_block_def fst_conv snd_conv
    by (intro aligned_nested) auto
qed

text \<open>
  Every frame range that meets no handed-out block lies in one free block: a free block inside
  it of least order would have a free buddy.
\<close>

lemma free_range_in_block:
  assumes inv: "buddy_inv s F E M A" and v: "valid_block (q, k)"
    and free: "frames (q, k) \<inter> occupied A = {}"
  obtains p j where "(p, j) \<in> free_blocks F" "k \<le> j" "frames (q, k) \<subseteq> frames (p, j)"
proof -
  have c: "buddy_core s F E M A" and co: "coalesced F" using inv by (simp_all add: buddy_inv_def)
  have cover: "\<exists>b\<in>free_blocks F. x \<in> frames b" if x: "x \<in> frames (q, k)" for x
  proof -
    have "in_bookkeep x" by (rule valid_block_in_bookkeep [OF v x])
    moreover have "\<Union> (frames ` (free_blocks F \<union> A)) = {0..<PAGE_FRAME_NUM}"
      using c by (simp add: core_defs partitions_def)
    ultimately have "x \<in> \<Union> (frames ` (free_blocks F \<union> A))" by (simp add: in_bookkeep_def)
    moreover have "x \<notin> occupied A" using free x by blast
    ultimately show ?thesis by (auto simp: occupied_def)
  qed
  let ?meets = "\<lambda>b. b \<in> free_blocks F \<and> frames b \<inter> frames (q, k) \<noteq> {}"
  obtain b0 where "b0 \<in> free_blocks F" "q \<in> frames b0" using cover [of q] by auto
  then have "?meets b0" using frames_self(1) [of q k] by blast
  then obtain b where b: "?meets b" and least: "\<And>b'. ?meets b' \<Longrightarrow> nat (snd b) \<le> nat (snd b')"
    using ex_has_least_nat [of ?meets b0 "\<lambda>b. nat (snd b)"] by blast
  obtain p j where pj: "b = (p, j)" by (cases b)
  have vp: "valid_block (p, j)" using core_valid [OF c] b pj by blast
  obtain x where x: "x \<in> frames (p, j)" "x \<in> frames (q, k)" using b pj by blast
  have "k \<le> j"
  proof (rule ccontr)
    assume "\<not> k \<le> j"
    then have jk: "j < k" by simp
    then have j9: "j < MAX_ORDER" using v by (simp add: valid_block_def)
    define d l where "d = FIND_BUDDY_PFN p j" and "l = FIND_LBUDDY_PFN p j"
    note mb = buddy_merge_block [OF vp j9, folded d_def l_def]
    have "frames (l, j + 1) \<subseteq> frames (q, k)"
      using frames_nested [OF mb(2) v, of x] jk x mb(3) by auto
    then have "d \<in> frames (q, k)" using mb(3) by auto
    then obtain b' where b': "b' \<in> free_blocks F" "d \<in> frames b'" using cover by blast
    then have "?meets b'" using \<open>d \<in> frames (q, k)\<close> by auto
    obtain p' j' where pj': "b' = (p', j')" by (cases b')
    have vp': "valid_block (p', j')" using core_valid [OF c] b' pj' by blast
    have "0 \<le> j'" using vp' by (simp add: valid_block_def)
    then have jj': "j \<le> j'" using least [OF \<open>?meets b'\<close>] pj pj' by (simp add: nat_le_eq_zle)
    show False
    proof (cases "j' = j")
      case True
      then have "p' = d"
        using mb(1) vp' b'(2) pj' aligned_same_order [of "nat j" p' d d]
        by (simp add: frames_def valid_block_def)
      then have "d \<in> set (F j)" "p \<in> set (F j)" using b' b pj pj' True by (auto simp: free_blocks_def)
      moreover have "j \<in> {0..<MAX_ORDER}" using vp j9 by (simp add: valid_block_def)
      ultimately show False using co by (auto simp: coalesced_def d_def)
    next
      case False
      then have "j + 1 \<le> j'" using jj' by simp
      then have "frames (l, j + 1) \<subseteq> frames (p', j')"
        using frames_nested [OF mb(2) vp', of d] b'(2) pj' mb(3) by auto
      then have "p \<in> frames (p', j')" using mb(3) by auto
      then have "(p, j) = (p', j')"
        using core_meet [OF c, of "(p, j)" "(p', j')" p] b b' pj pj' by auto
      with False show False by simp
    qed
  qed
  moreover from this have "frames (q, k) \<subseteq> frames (p, j)" using frames_nested [OF v vp _ x(2,1)] by simp
  ultimately show thesis using that b pj by blast
qed

section \<open>Refinement of the abstract allocator\<close>

lemma buddy_block_alloc_refines:
  assumes inv: "buddy_inv s F E M A" and ord: "0 \<le> ord" "ord \<le> MAX_ORDER"
  shows "\<exists>s' r F' A'. buddy_block_alloc ord s = Inr (s', r) \<and> spec_alloc ord A r A' \<and>
           buddy_inv s' F' E M A' \<and> slab_same s s'"
  using assms
proof (cases rule: buddy_block_alloc_cases)
  case null
  have "frames (q, ord) \<inter> occupied A \<noteq> {}" if v: "valid_block (q, ord)" for q
  proof
    assume "frames (q, ord) \<inter> occupied A = {}"
    then obtain p j where "(p, j) \<in> free_blocks F" "ord \<le> j"
      by (rule free_range_in_block [OF inv v])
    then have "p \<in> set (F j)" "j \<in> {ord..MAX_ORDER}" by (auto simp: free_blocks_def)
    with null(1) have "p \<in> set []" by (metis)
    then show False by simp
  qed
  then have "spec_alloc ord A None A" by (simp add: spec_alloc_def)
  with null(2) inv show ?thesis using slab_same_refl by blast
next
  case (block s' F' t k)
  have c: "buddy_core s F E M A" using inv by (simp add: buddy_inv_def)
  have vt: "valid_block (t, k)" using core_valid [OF c] block(3) by blast
  have vo: "valid_block (t, ord)"
    using core_valid [of s' F' E M "insert (t, ord) A"] block(5) by (auto simp: buddy_inv_def)
  have sub: "frames (t, ord) \<subseteq> frames (t, k)" by (rule frames_nested [OF vo vt block(1), of t]) auto
  have "frames (t, k) \<inter> frames b = {}" if "b \<in> A" for b
  proof -
    have "(t, k) \<noteq> b" using block(3) that c by (auto simp: core_defs)
    then show ?thesis using core_meet [OF c, of "(t, k)" b] block(3) that by auto
  qed
  with sub have "frames (t, ord) \<inter> occupied A = {}" by (auto simp: occupied_def)
  with vo have "spec_alloc ord A (Some t) (insert (t, ord) A)" by (simp add: spec_alloc_def)
  with block show ?thesis by blast
qed

section \<open>The initial state\<close>

lemma fold_upd_page:
  assumes "distinct is"
  shows "bookkeep (fold (\<lambda>i. upd_page i (f i)) is s) =
           (\<lambda>j. if j \<in> set is then f j (bookkeep s j) else bookkeep s j)"
    and "nr_free (fold (\<lambda>i. upd_page i (f i)) is s) = nr_free s"
    and "links (fold (\<lambda>i. upd_page i (f i)) is s) = links s"
    and "obj_alloc_pool (fold (\<lambda>i. upd_page i (f i)) is s) = obj_alloc_pool s"
    and "obj_mem (fold (\<lambda>i. upd_page i (f i)) is s) = obj_mem s"
  using assms by (induction "is" arbitrary: s) (auto simp: fun_eq_iff)

lemma page_init_simps:
  "bookkeep (page_init s) = (\<lambda>i. if in_bookkeep i
     then (bookkeep s i)\<lparr>pfn := i, used := Free,
            phy_addr := word_of_int (LOW_MEMORY + i * PAGE_SIZE), order := -1\<rparr>
     else bookkeep s i)"
  "nr_free (page_init s) = nr_free s"
  "links (page_init s) = links s"
  "obj_alloc_pool (page_init s) = obj_alloc_pool s"
  "obj_mem (page_init s) = obj_mem s"
  using fold_upd_page [of "[0..PAGE_FRAME_NUM - 1]"
      "\<lambda>i p. p\<lparr>pfn := i, used := Free, phy_addr := word_of_int (LOW_MEMORY + i * PAGE_SIZE),
          order := -1\<rparr>" s]
  unfolding page_init_def page_init_step_def [abs_def] in_bookkeep_def
  by (simp_all add: fun_eq_iff)

lemma fold_INIT:
  assumes "distinct ks"
  shows "dlists (links (fold (\<lambda>i. upd_links (INIT_LIST_HEAD (FreeArea i))) ks s))
           (FreeArea ` set ks) (\<lambda>_. [])"
  using assms
proof (induction ks rule: rev_induct)
  case Nil
  show ?case by (simp add: dlists_def)
next
  case (snoc k ks)
  let ?h = "links (fold (\<lambda>i. upd_links (INIT_LIST_HEAD (FreeArea i))) ks s)"
  have "dlists ?h (FreeArea ` set ks) (\<lambda>_. [])" using snoc by simp
  then have "dlists (INIT_LIST_HEAD (FreeArea k) ?h) (insert (FreeArea k) (FreeArea ` set ks))
      ((\<lambda>_. [])(FreeArea k := []))"
    by (rule dlists_INIT) (use snoc.prems in auto)
  then show ?case by (simp add: fun_upd_idem)
qed

lemma fold_INIT_rest:
  "bookkeep (fold (\<lambda>i. upd_links (INIT_LIST_HEAD (FreeArea i))) ks s) = bookkeep s"
  "nr_free (fold (\<lambda>i. upd_links (INIT_LIST_HEAD (FreeArea i))) ks s) = nr_free s"
  "obj_alloc_pool (fold (\<lambda>i. upd_links (INIT_LIST_HEAD (FreeArea i))) ks s) = obj_alloc_pool s"
  "obj_mem (fold (\<lambda>i. upd_links (INIT_LIST_HEAD (FreeArea i))) ks s) = obj_mem s"
  by (induction ks arbitrary: s) simp_all

text \<open>
  The second loop of \<open>free_area_init\<close> pushes the blocks of the largest order one by one. For
  the proof, the blocks still to come count as handed out.
\<close>

definition top_blocks :: "int \<Rightarrow> block set" where
  "top_blocks i = {(q, k). k = MAX_ORDER \<and> MAX_ORDER_SIZE dvd q \<and> i \<le> q \<and> q < PAGE_FRAME_NUM}"

definition mark_top :: "int \<Rightarrow> mm_state \<Rightarrow> mm_state" where
  "mark_top i s = s\<lparr>bookkeep := (\<lambda>q. if (q, MAX_ORDER) \<in> top_blocks i
     then (bookkeep s q)\<lparr>order := MAX_ORDER, used := Taken\<rparr> else bookkeep s q)\<rparr>"

lemma top_blocks_step:
  assumes "MAX_ORDER_SIZE dvd i" "i < PAGE_FRAME_NUM"
  shows "top_blocks i = insert (i, MAX_ORDER) (top_blocks (i + MAX_ORDER_SIZE))"
proof -
  have "i \<le> q \<longleftrightarrow> q = i \<or> i + 512 \<le> q" if q: "512 dvd q" for q
  proof -
    have "512 \<le> q - i" if "i \<le> q" "q \<noteq> i"
      by (rule zdvd_imp_le) (use q that assms(1) in \<open>simp_all add: dvd_diff\<close>)
    then show ?thesis by linarith
  qed
  then have "(q, k) \<in> top_blocks i \<longleftrightarrow>
      (q, k) \<in> insert (i, MAX_ORDER) (top_blocks (i + MAX_ORDER_SIZE))" for q k
    unfolding top_blocks_def using assms by blast
  then show ?thesis by (intro set_eqI) (simp only: split_paired_all)
qed

lemma push_mark_top:
  assumes "MAX_ORDER_SIZE dvd i" "i < PAGE_FRAME_NUM"
  shows "push_block_to_free_area i MAX_ORDER MAX_ORDER (mark_top i s) =
    mark_top (i + MAX_ORDER_SIZE) (push_block_to_free_area i MAX_ORDER MAX_ORDER s)"
    (is "?l = ?r")
proof -
  have iff: "(q, MAX_ORDER) \<in> top_blocks i \<longleftrightarrow> q = i \<or> (q, MAX_ORDER) \<in> top_blocks (i + MAX_ORDER_SIZE)"
    for q using top_blocks_step [OF assms] by simp
  have i: "(i, MAX_ORDER) \<notin> top_blocks (i + MAX_ORDER_SIZE)" by (simp add: top_blocks_def)
  have "bookkeep ?l q = bookkeep ?r q" for q
    by (cases "q = i") (simp_all add: mark_top_def iff i)
  then have "bookkeep ?l = bookkeep ?r" by (rule ext)
  then show ?thesis
    by (rule mm_state.equality) (simp_all add: mark_top_def)
qed

lemma free_area_fill_core:
  assumes "buddy_core (mark_top i s) F {} M (top_blocks i)" "MAX_ORDER_SIZE dvd i" "coalesced F"
  shows "\<exists>F'. buddy_inv (free_area_fill i s) F' {} M {} \<and> slab_same s (free_area_fill i s)"
  using assms
proof (induction i s arbitrary: F rule: free_area_fill.induct)
  case (1 i s)
  show ?case
  proof (cases "i < PAGE_FRAME_NUM")
    case False
    then have "top_blocks i = {}" by (auto simp: top_blocks_def)
    with "1.prems" False show ?thesis
      by (auto simp: buddy_inv_def free_area_fill.simps [of i] mark_top_def)
  next
    case True
    let ?s = "push_block_to_free_area i MAX_ORDER MAX_ORDER s"
    let ?F = "F(MAX_ORDER := F MAX_ORDER @ [i])"
    note step = top_blocks_step [OF "1.prems"(2) True]
    have "(i, MAX_ORDER) \<in> top_blocks i" by (simp add: step)
    from core_give [OF "1.prems"(1) this]
    have "buddy_core (mark_top (i + MAX_ORDER_SIZE) ?s) ?F {} M (top_blocks i - {(i, MAX_ORDER)})"
      by (simp add: push_mark_top [OF "1.prems"(2) True])
    moreover have "top_blocks i - {(i, MAX_ORDER)} = top_blocks (i + MAX_ORDER_SIZE)"
      unfolding step by (auto simp: top_blocks_def)
    ultimately have c: "buddy_core (mark_top (i + MAX_ORDER_SIZE) ?s) ?F {} M
        (top_blocks (i + MAX_ORDER_SIZE))" by simp
    have "coalesced ?F" by (rule coalesced_top [OF "1.prems"(3)]) simp
    from "1.IH" [OF True c _ this] "1.prems"(2)
    obtain F' where F': "buddy_inv (free_area_fill (i + MAX_ORDER_SIZE) ?s) F' {} M {}"
      "slab_same ?s (free_area_fill (i + MAX_ORDER_SIZE) ?s)" by auto
    moreover have "free_area_fill i s = free_area_fill (i + MAX_ORDER_SIZE) ?s"
      using True by (simp add: free_area_fill.simps [of i])
    ultimately show ?thesis using slab_same_trans slab_same_steps(2) by metis
  qed
qed

lemma top_blocks_partition: "partitions (top_blocks 0)"
proof -
  have v: "valid_block b" if "b \<in> top_blocks 0" for b
    using that aligned_fits [of 9 "fst b"] by (auto simp: top_blocks_def valid_block_def)
  have d: "b = c" if "b \<in> top_blocks 0" "c \<in> top_blocks 0" "x \<in> frames b" "x \<in> frames c" for b c x
    using that aligned_same_order [of 9 "fst b" "fst c" x]
    by (auto simp: top_blocks_def frames_def)
  have "{0..<PAGE_FRAME_NUM} \<subseteq> \<Union> (frames ` top_blocks 0)"
  proof
    fix x :: int assume x: "x \<in> {0..<PAGE_FRAME_NUM}"
    then have "(512 * (x div 512), MAX_ORDER) \<in> top_blocks 0" by (auto simp: top_blocks_def)
    moreover have "x \<in> frames (512 * (x div 512), MAX_ORDER)"
      by (auto simp: frames_def block_range_def)
    ultimately show "x \<in> \<Union> (frames ` top_blocks 0)" by blast
  qed
  moreover have "\<Union> (frames ` top_blocks 0) \<subseteq> {0..<PAGE_FRAME_NUM}"
    using v valid_block_in_bookkeep by (fastforce simp: in_bookkeep_def)
  ultimately show ?thesis using v d unfolding partitions_def by blast
qed

text \<open>
  After \<open>page_init\<close> and \<open>free_area_init\<close> on zeroed counters the invariant holds with nothing
  handed out.
\<close>

lemma free_area_init_inv:
  assumes "\<forall>k\<in>{0..MAX_ORDER}. nr_free s k = 0"
  shows "\<exists>F. buddy_inv (free_area_init (page_init s)) F {} M {}"
    and "slab_same (page_init s) (free_area_init (page_init s))"
proof -
  define s1 where "s1 = fold (\<lambda>i. upd_links (INIT_LIST_HEAD (FreeArea i))) [0..MAX_ORDER] (page_init s)"
  have L: "lists_of (\<lambda>_. []) (\<lambda>_. []) = (\<lambda>_. [])"
  proof
    fix d show "lists_of (\<lambda>_. []) (\<lambda>_. []) d = []" by (cases d) auto
  qed
  have "dlists (links s1) area_heads (\<lambda>_. [])"
    using fold_INIT [of "[0..MAX_ORDER]" "page_init s"] by (simp add: s1_def area_heads_def)
  then have "dlists (links s1) area_heads (lists_of (\<lambda>_. []) M)"
    by (rule dlists_cong_lists) (auto simp: area_heads_def)
  then have "links_ok (mark_top 0 s1) (\<lambda>_. []) {} M (top_blocks 0)"
    by (simp add: links_ok_def mark_top_def)
  moreover have fb: "free_blocks (\<lambda>_. []) = {}" by (simp add: free_blocks_def)
  then have "blocks_ok (\<lambda>_. []) (top_blocks 0)"
    by (simp add: blocks_ok_def top_blocks_partition)
  moreover have "pages_ok (mark_top 0 s1) (\<lambda>_. []) (top_blocks 0)"
    using assms fb
    by (auto simp: pages_ok_def mark_top_def s1_def fold_INIT_rest page_init_simps top_blocks_def
        in_bookkeep_def)
  ultimately have "buddy_core (mark_top 0 s1) (\<lambda>_. []) {} M (top_blocks 0)"
    by (simp add: buddy_core_def)
  then obtain F where F: "buddy_inv (free_area_fill 0 s1) F {} M {}" "slab_same s1 (free_area_fill 0 s1)"
    using free_area_fill_core [of 0 s1 "\<lambda>_. []" M] by (auto simp: coalesced_def)
  moreover have "slab_same (page_init s) s1"
    by (simp add: slab_same_def s1_def fold_INIT_rest)
  moreover have "free_area_init (page_init s) = free_area_fill 0 s1"
    by (simp add: free_area_init_def s1_def)
  ultimately show "\<exists>F. buddy_inv (free_area_init (page_init s)) F {} M {}"
    "slab_same (page_init s) (free_area_init (page_init s))"
    using slab_same_trans by auto
qed

section \<open>Accounting\<close>

lemma core_finite:
  assumes "buddy_core s F E M A"
  shows "finite (free_blocks F \<union> A)"
proof (rule inj_on_finite [of fst _ "{0..<PAGE_FRAME_NUM}"])
  show "inj_on fst (free_blocks F \<union> A)"
  proof (rule inj_onI)
    fix b c assume "b \<in> free_blocks F \<union> A" "c \<in> free_blocks F \<union> A" "fst b = fst c"
    then show "b = c" using core_meet [OF assms, of b c "fst b"]
      by (cases b, cases c) simp
  qed
  show "fst ` (free_blocks F \<union> A) \<subseteq> {0..<PAGE_FRAME_NUM}"
    using core_valid [OF assms] valid_block_in_bookkeep frames_self(1)
    by (fastforce simp: in_bookkeep_def)
qed simp

lemma sum_free_blocks:
  assumes c: "buddy_core s F E M A"
  shows "(\<Sum>b\<in>free_blocks F. 2 ^ nat (snd b)) = (\<Sum>k\<in>{0..MAX_ORDER}. nr_free s k * 2 ^ nat k)"
proof -
  have eq: "free_blocks F = (\<lambda>(k, p). (p, k)) ` (SIGMA k:{0..MAX_ORDER}. set (F k))"
    by (auto simp: free_blocks_def image_iff)
  have "(\<Sum>b\<in>free_blocks F. (2::int) ^ nat (snd b)) =
      (\<Sum>(k, p)\<in>(SIGMA k:{0..MAX_ORDER}. set (F k)). 2 ^ nat k)"
    unfolding eq by (subst sum.reindex) (auto simp: inj_on_def intro!: sum.cong)
  also have "\<dots> = (\<Sum>k\<in>{0..MAX_ORDER}. \<Sum>p\<in>set (F k). 2 ^ nat k)"
    by (subst sum.Sigma) auto
  also have "\<dots> = (\<Sum>k\<in>{0..MAX_ORDER}. nr_free s k * 2 ^ nat k)"
    using core_pages(5) [OF c] core_free_distinct [OF c]
    by (intro sum.cong) (auto simp: distinct_card)
  finally show ?thesis .
qed

lemma frames_conserved:
  assumes c: "buddy_core s F E M A"
  shows "(\<Sum>k\<in>{0..MAX_ORDER}. nr_free s k * 2 ^ nat k) + (\<Sum>b\<in>A. 2 ^ nat (snd b)) = PAGE_FRAME_NUM"
proof -
  let ?B = "free_blocks F \<union> A"
  have fin: "finite ?B" by (rule core_finite [OF c])
  have P: "partitions ?B" "free_blocks F \<inter> A = {}" using c by (simp_all add: core_defs)
  have "int (card (\<Union> (frames ` ?B))) = (\<Sum>b\<in>?B. int (card (frames b)))"
    using fin P partitionsD(2) [OF P(1)]
    by (subst card_UN_disjoint) (auto simp: frames_def)
  then have "(\<Sum>b\<in>?B. (2::int) ^ nat (snd b)) = int (card {0..<PAGE_FRAME_NUM})"
    using P by (simp add: frames_def partitions_def)
  also have "\<dots> = PAGE_FRAME_NUM" by simp
  finally have "(\<Sum>b\<in>?B. (2::int) ^ nat (snd b)) = PAGE_FRAME_NUM" .
  then show ?thesis using fin P sum_free_blocks [OF c]
    by (subst (asm) sum.union_disjoint) auto
qed

text \<open>With nothing handed out, every block has been merged back to the largest order.\<close>

lemma all_free_coalesced:
  assumes inv: "buddy_inv s F E M {}"
  shows "free_blocks F = top_blocks 0"
proof -
  have c: "buddy_core s F E M {}" using inv by (simp add: buddy_inv_def)
  have sub: "b \<in> free_blocks F" if b: "b \<in> top_blocks 0" for b
  proof -
    obtain q where q: "b = (q, MAX_ORDER)" using b by (auto simp: top_blocks_def)
    have v: "valid_block (q, MAX_ORDER)" using partitionsD(1) [OF top_blocks_partition b] q by simp
    obtain p j where pj: "(p, j) \<in> free_blocks F" "MAX_ORDER \<le> j"
      "frames (q, MAX_ORDER) \<subseteq> frames (p, j)"
      by (rule free_range_in_block [OF inv v]) (simp add: occupied_def)
    then have j: "j = MAX_ORDER" by (simp add: free_blocks_def)
    have "valid_block (p, j)" using core_valid [OF c] pj by blast
    moreover have "q \<in> block_range p 9"
      using pj(3) j block_range_nonempty(2) [of q 9] by (auto simp: frames_def)
    ultimately have "p = q" using v j aligned_same_order [of 9 p q q]
      by (simp add: frames_def valid_block_def)
    with pj j q show ?thesis by simp
  qed
  have "b \<in> top_blocks 0" if b: "b \<in> free_blocks F" for b
  proof -
    obtain p k where pk: "b = (p, k)" by (cases b)
    have "in_bookkeep p" using core_valid [OF c, of b] b pk valid_block_in_bookkeep by fastforce
    then have "p \<in> \<Union> (frames ` top_blocks 0)"
      using top_blocks_partition by (simp add: partitions_def in_bookkeep_def)
    then obtain t where t: "t \<in> top_blocks 0" "p \<in> frames t" by blast
    with sub core_meet [OF c, of b t p] b pk show ?thesis by simp
  qed
  with sub show ?thesis by blast
qed

section \<open>Reachable states\<close>

text \<open>
  The states the buddy system can be in, with the blocks handed out so far: after the
  initialisation, any sequence of allocations that return a block and of releases of blocks
  handed out.
\<close>

inductive buddy_reach :: "mm_state \<Rightarrow> block set \<Rightarrow> bool" where
  init: "buddy_reach (free_area_init (page_init bss_mm)) {}"
| alloc: "buddy_reach s A \<Longrightarrow> buddy_block_alloc ord s = Inr (s', Some t) \<Longrightarrow>
    buddy_reach s' (insert (t, ord) A)"
| release: "buddy_reach s A \<Longrightarrow> (b, k) \<in> A \<Longrightarrow> buddy_block_free b s = Inr s' \<Longrightarrow>
    buddy_reach s' (A - {(b, k)})"

lemma buddy_reach_inv: "buddy_reach s A \<Longrightarrow> \<exists>F. buddy_inv s F {} (\<lambda>_. []) A"
proof (induction rule: buddy_reach.induct)
  case init
  show ?case by (rule free_area_init_inv(1)) (simp add: bss_mm_def)
next
  case (alloc s A ord s' t)
  then obtain F where F: "buddy_inv s F {} (\<lambda>_. []) A" by blast
  have ord: "0 \<le> ord" "ord \<le> MAX_ORDER"
    using alloc.hyps(2) by (auto simp: buddy_block_alloc_def split: if_splits)
  from F ord show ?case
    by (cases rule: buddy_block_alloc_cases) (use alloc.hyps(2) in auto)
next
  case (release s A b k s')
  then obtain F where F: "buddy_inv s F {} (\<lambda>_. []) A" by blast
  from buddy_block_free_inv [OF this release.hyps(2)] release.hyps(3) show ?case by auto
qed

section \<open>The interface of a page allocator\<close>

text \<open>
  What a client of a page allocator may rely on. A client may keep blocks it owns on lists of
  its own; \<open>pinned\<close> are the first frames of the blocks that are on one, which must not be
  released, and \<open>same\<close> says that the client's part of the state is unchanged.
\<close>

locale page_allocator =
  fixes alloc :: "int \<Rightarrow> 's \<Rightarrow> ('s \<times> int option) result"
    and release :: "int \<Rightarrow> 's \<Rightarrow> 's result"
    and inv :: "'s \<Rightarrow> block set \<Rightarrow> bool"
    and pinned :: "int set"
    and same :: "'s \<Rightarrow> 's \<Rightarrow> bool"
  assumes alloc_spec: "inv s A \<Longrightarrow> 0 \<le> k \<Longrightarrow> k \<le> MAX_ORDER \<Longrightarrow>
      \<exists>s' r A'. alloc k s = Inr (s', r) \<and> spec_alloc k A r A' \<and> inv s' A' \<and> same s s'"
    and release_spec: "inv s A \<Longrightarrow> (b, k) \<in> A \<Longrightarrow> b \<notin> pinned \<Longrightarrow>
      \<exists>s'. release b s = Inr s' \<and> inv s' (A - {(b, k)}) \<and> same s s'"
    and blocks_disjoint: "inv s A \<Longrightarrow> x \<in> A \<Longrightarrow> y \<in> A \<Longrightarrow> x \<noteq> y \<Longrightarrow> frames x \<inter> frames y = {}"
    and blocks_valid: "inv s A \<Longrightarrow> x \<in> A \<Longrightarrow> valid_block x"
begin

lemma alloc_fresh:
  assumes "inv s A" "0 \<le> k" "k \<le> MAX_ORDER" "alloc k s = Inr (s', Some t)"
  shows "inv s' (insert (t, k) A)" "(t, k) \<notin> A" "same s s'" "frames (t, k) \<inter> occupied A = {}"
proof -
  from alloc_spec [OF assms(1-3)] assms(4)
  have *: "inv s' (insert (t, k) A)" "same s s'" "frames (t, k) \<inter> occupied A = {}"
    by (auto simp: spec_alloc_def)
  then show "inv s' (insert (t, k) A)" "same s s'" "frames (t, k) \<inter> occupied A = {}" by simp_all
  show "(t, k) \<notin> A"
  proof
    assume "(t, k) \<in> A"
    then have "t \<in> occupied A" unfolding occupied_def by (rule UN_I) simp
    with *(3) frames_self(1) [of t k] show False by blast
  qed
qed

text \<open>Releasing what was just allocated gives the former set of blocks back.\<close>

lemma alloc_release:
  assumes "inv s A" "0 \<le> k" "k \<le> MAX_ORDER" "alloc k s = Inr (s1, Some t)" "t \<notin> pinned"
  shows "\<exists>s2. release t s1 = Inr s2 \<and> inv s2 A"
proof -
  note f = alloc_fresh [OF assms(1-4)]
  from release_spec [OF f(1) insertI1 assms(5)] f(2) show ?thesis by auto
qed

text \<open>A block that was released can be allocated again: no memory is lost.\<close>

lemma release_then_alloc:
  assumes i: "inv s A" and b: "(b, k) \<in> A" "b \<notin> pinned"
  shows "\<exists>s1 s2 t. release b s = Inr s1 \<and> alloc k s1 = Inr (s2, Some t)"
proof -
  have v: "valid_block (b, k)" by (rule blocks_valid [OF i b(1)])
  then have k: "0 \<le> k" "k \<le> MAX_ORDER" by (simp_all add: valid_block_def)
  obtain s1 where s1: "release b s = Inr s1" "inv s1 (A - {(b, k)})"
    using release_spec [OF i b] by blast
  obtain s2 r A' where s2: "alloc k s1 = Inr (s2, r)" "spec_alloc k (A - {(b, k)}) r A'"
    using alloc_spec [OF s1(2) k] by blast
  have "frames (b, k) \<inter> frames c = {}" if "c \<in> A - {(b, k)}" for c
    using blocks_disjoint [OF i b(1), of c] that by auto
  then have "frames (b, k) \<inter> occupied (A - {(b, k)}) = {}" by (auto simp: occupied_def)
  with v s2(2) have "r \<noteq> None" by (cases r) (auto simp: spec_alloc_def)
  with s1 s2 show ?thesis by auto
qed

end

definition buddy_pinned :: "mm_node set \<Rightarrow> (mm_node \<Rightarrow> int list) \<Rightarrow> int set" where
  "buddy_pinned E M = (\<Union>d\<in>E. set (M d))"

definition buddy_owns :: "mm_node set \<Rightarrow> (mm_node \<Rightarrow> int list) \<Rightarrow> mm_state \<Rightarrow> block set \<Rightarrow> bool" where
  "buddy_owns E M s A \<longleftrightarrow> (\<exists>F. buddy_inv s F E M A)"

interpretation buddy: page_allocator buddy_block_alloc buddy_block_free "buddy_owns E M"
  "buddy_pinned E M" slab_same for E M
proof unfold_locales
  fix s A k assume a: "buddy_owns E M s A" "0 \<le> k" "k \<le> MAX_ORDER"
  from a(1) obtain F where F: "buddy_inv s F E M A" by (auto simp: buddy_owns_def)
  from buddy_block_alloc_refines [OF F a(2,3)] show "\<exists>s' r A'. buddy_block_alloc k s = Inr (s', r) \<and> spec_alloc k A r A' \<and>
      buddy_owns E M s' A' \<and> slab_same s s'"
    unfolding buddy_owns_def by blast
next
  fix s A b k assume a: "buddy_owns E M s A" "(b, k) \<in> A" "b \<notin> buddy_pinned E M"
  from a(1) obtain F where F: "buddy_inv s F E M A" by (auto simp: buddy_owns_def)
  have "b \<notin> set (M d)" if "d \<in> E" for d using a(3) that by (auto simp: buddy_pinned_def)
  from buddy_block_free_inv [OF F a(2) this]
  show "\<exists>s'. buddy_block_free b s = Inr s' \<and> buddy_owns E M s' (A - {(b, k)}) \<and> slab_same s s'"
    unfolding buddy_owns_def by blast
next
  fix s A b c assume "buddy_owns E M s A" "b \<in> A" "c \<in> A" "b \<noteq> c"
  then show "frames b \<inter> frames c = {}"
    unfolding buddy_owns_def buddy_inv_def using core_meet by blast
next
  fix s A b assume "buddy_owns E M s A" "b \<in> A"
  then show "valid_block b" unfolding buddy_owns_def buddy_inv_def using core_valid by blast
qed

section \<open>Properties of the buddy system\<close>

abbreviation buddy_start :: mm_state where
  "buddy_start \<equiv> free_area_init (page_init bss_mm)"

lemma reach_owns: "buddy_reach s A \<Longrightarrow> buddy_owns {} (\<lambda>_. []) s A"
  using buddy_reach_inv by (simp add: buddy_owns_def)

lemma start_alloc:
  assumes "0 \<le> k" "k \<le> MAX_ORDER"
  shows "\<exists>s t. buddy_block_alloc k buddy_start = Inr (s, Some t) \<and> buddy_reach s {(t, k)}"
proof -
  from buddy.alloc_spec [OF reach_owns [OF buddy_reach.init] assms]
  obtain s r A' where r: "buddy_block_alloc k buddy_start = Inr (s, r)" "spec_alloc k {} r A'" by blast
  have "(2::int) ^ nat k \<le> 2 ^ 9" using assms by (intro power_increasing) auto
  then have "valid_block (0, k)" using assms by (simp add: valid_block_def)
  with r(2) obtain t where "r = Some t" by (cases r) (auto simp: spec_alloc_def occupied_def)
  with r(1) show ?thesis using buddy_reach.alloc [OF buddy_reach.init, of k s t] by auto
qed

text \<open>
  C1. In every state the buddy system can reach, \<open>buddy_block_alloc\<close> returns, and what it
  returns is what the abstract allocator allows: an aligned block of the order asked for,
  inside the managed memory and disjoint from every block handed out before; the null pointer
  only when no such block exists. The state it leaves is reachable again.
\<close>

theorem buddy_block_alloc_correct:
  assumes "buddy_reach s A" "0 \<le> k" "k \<le> MAX_ORDER"
  shows "\<exists>s' r A'. buddy_block_alloc k s = Inr (s', r) \<and> spec_alloc k A r A' \<and>
           (\<exists>t. r = Some t \<and> buddy_reach s' A' \<or> r = None \<and> s' = s)"
proof -
  obtain F where F: "buddy_inv s F {} (\<lambda>_. []) A" using buddy_reach_inv assms(1) by blast
  from buddy.alloc_spec [OF reach_owns [OF assms(1)] assms(2,3)]
  obtain s' r A' where r: "buddy_block_alloc k s = Inr (s', r)" "spec_alloc k A r A'" by blast
  show ?thesis
  proof (cases r)
    case None
    from F assms(2,3) have "s' = s"
      by (cases rule: buddy_block_alloc_cases) (use r(1) None in auto)
    with r None show ?thesis by blast
  next
    case (Some t)
    with buddy_reach.alloc [OF assms(1), of k s' t] r show ?thesis by (auto simp: spec_alloc_def)
  qed
qed

theorem buddy_block_alloc_correct_witness:
  "\<exists>s' r A'. buddy_block_alloc 3 buddy_start = Inr (s', r) \<and> spec_alloc 3 {} r A' \<and>
     (\<exists>t. r = Some t \<and> buddy_reach s' A' \<or> r = None \<and> s' = buddy_start)"
  by (rule buddy_block_alloc_correct [OF buddy_reach.init]) simp_all

text \<open>
  C2. Releasing a block that was handed out returns: the merging loop ends, never indexes
  outside \<open>bookkeep\<close> and never shifts by a negative order. Exactly that block leaves the set
  of blocks handed out, and the state is reachable again.
\<close>

theorem buddy_block_free_correct:
  assumes "buddy_reach s A" "(b, k) \<in> A"
  shows "\<exists>s'. buddy_block_free b s = Inr s' \<and> buddy_reach s' (A - {(b, k)})"
proof -
  have "b \<notin> buddy_pinned {} (\<lambda>_. [])" by (simp add: buddy_pinned_def)
  from buddy.release_spec [OF reach_owns [OF assms(1)] assms(2) this]
  obtain s' where "buddy_block_free b s = Inr s'" by blast
  with buddy_reach.release [OF assms this] show ?thesis by blast
qed

theorem buddy_block_free_correct_witness:
  "\<exists>s t s'. buddy_block_alloc 3 buddy_start = Inr (s, Some t) \<and> buddy_block_free t s = Inr s' \<and>
     buddy_reach s' {}"
proof -
  obtain s t where s: "buddy_block_alloc 3 buddy_start = Inr (s, Some t)" "buddy_reach s {(t, 3)}"
    using start_alloc [of 3] by auto
  with buddy_block_free_correct [OF s(2), of t 3] show ?thesis by auto
qed

text \<open>
  C3. No page frame is lost or counted twice: in every reachable state the frames of the free
  lists, as the counters \<open>nr_free\<close> have them, and the frames handed out add up to
  \<open>PAGE_FRAME_NUM\<close>.
\<close>

theorem buddy_frames_conserved:
  assumes "buddy_reach s A"
  shows "(\<Sum>k\<in>{0..MAX_ORDER}. nr_free s k * 2 ^ nat k) + (\<Sum>b\<in>A. 2 ^ nat (snd b)) = PAGE_FRAME_NUM"
proof -
  obtain F where "buddy_inv s F {} (\<lambda>_. []) A" using buddy_reach_inv assms by blast
  then have "buddy_core s F {} (\<lambda>_. []) A" by (simp add: buddy_inv_def)
  then show ?thesis by (rule frames_conserved)
qed

theorem buddy_frames_conserved_witness:
  "(\<Sum>k\<in>{0..MAX_ORDER}. nr_free buddy_start k * 2 ^ nat k) = PAGE_FRAME_NUM"
  using buddy_frames_conserved [OF buddy_reach.init] by simp

text \<open>
  C4. No fragmentation survives the release of all blocks: after any sequence of operations
  that leaves nothing handed out, every free area but the largest is empty, and that one
  counts all blocks of the largest order.
\<close>

theorem buddy_all_free_coalesced:
  assumes "buddy_reach s {}" "0 \<le> k" "k \<le> MAX_ORDER"
  shows "nr_free s k = (if k = MAX_ORDER then PAGE_FRAME_NUM div MAX_ORDER_SIZE else 0)"
proof -
  obtain F where F: "buddy_inv s F {} (\<lambda>_. []) {}" using buddy_reach_inv assms(1) by blast
  then have c: "buddy_core s F {} (\<lambda>_. []) {}" by (simp add: buddy_inv_def)
  have zero: "nr_free s j = 0" if j: "0 \<le> j" "j < MAX_ORDER" for j
  proof -
    have "p \<notin> set (F j)" for p
    proof
      assume "p \<in> set (F j)"
      then have "(p, j) \<in> top_blocks 0"
        unfolding all_free_coalesced [OF F, symmetric] using j by (intro free_blocksI) auto
      then show False using j by (simp add: top_blocks_def)
    qed
    then have "F j = []" by (cases "F j") auto
    then show ?thesis using core_pages(5) [OF c] j by simp
  qed
  have "(\<Sum>k\<in>{0..MAX_ORDER}. nr_free s k * 2 ^ nat k) = nr_free s MAX_ORDER * 2 ^ nat MAX_ORDER"
    using zero by (subst sum.remove [of _ MAX_ORDER]) (auto intro!: sum.neutral)
  with frames_conserved [OF c] have "nr_free s MAX_ORDER = PAGE_FRAME_NUM div MAX_ORDER_SIZE" by simp
  with zero assms(2,3) show ?thesis by auto
qed

theorem buddy_all_free_coalesced_witness:
  "\<exists>s t s'. buddy_block_alloc 0 buddy_start = Inr (s, Some t) \<and> buddy_block_free t s = Inr s' \<and>
     nr_free s' 9 = 8 \<and> nr_free s' 0 = 0"
proof -
  obtain s t where s: "buddy_block_alloc 0 buddy_start = Inr (s, Some t)" "buddy_reach s {(t, 0)}"
    using start_alloc [of 0] by auto
  have "t \<notin> buddy_pinned {} (\<lambda>_. [])" by (simp add: buddy_pinned_def)
  from buddy.release_spec [OF reach_owns [OF s(2)] insertI1 this]
  obtain s' where s': "buddy_block_free t s = Inr s'" by blast
  have "buddy_reach s' {}" using buddy_reach.release [OF s(2) insertI1 s'] by simp
  from buddy_all_free_coalesced [OF this, of 9] buddy_all_free_coalesced [OF this, of 0] s(1) s'
  show ?thesis by auto
qed

text \<open>
  A released block is not lost to fragmentation: right after its release an allocation of
  the same order succeeds.
\<close>

theorem buddy_release_then_alloc:
  assumes "buddy_reach s A" "(b, k) \<in> A"
  shows "\<exists>s1 s2 t. buddy_block_free b s = Inr s1 \<and> buddy_block_alloc k s1 = Inr (s2, Some t)"
  by (rule buddy.release_then_alloc [OF reach_owns [OF assms(1)] assms(2)])
    (simp add: buddy_pinned_def)

theorem buddy_release_then_alloc_witness:
  "\<exists>s t s1 s2 t2. buddy_block_alloc 9 buddy_start = Inr (s, Some t) \<and> buddy_block_free t s = Inr s1 \<and>
     buddy_block_alloc 9 s1 = Inr (s2, Some t2)"
proof -
  obtain s t where s: "buddy_block_alloc 9 buddy_start = Inr (s, Some t)" "buddy_reach s {(t, 9)}"
    using start_alloc [of 9] by auto
  with buddy_release_then_alloc [OF s(2) insertI1] show ?thesis by blast
qed

end
