(* ===== verification/Slab_Inv.thy ===== *)
theory Slab_Inv
  imports Slab Buddy_Spec "HOL-Library.Multiset"
begin

text \<open>
  The invariant of the object allocators on top of that of the buddy system, its preservation
  by \<open>obj_allocate\<close> and \<open>obj_free\<close>, and the addresses objects get.
\<close>

section \<open>Object addresses\<close>

definition obj_slot :: "int \<Rightarrow> int \<Rightarrow> u64 \<Rightarrow> bool" where
  "obj_slot p z a \<longleftrightarrow> (\<exists>i. 0 \<le> i \<and> i < PAGE_SIZE div z \<and>
     a = word_of_int (LOW_MEMORY + p * PAGE_SIZE + i * z))"

lemma PFN_MASK_drop: "drop_bit 12 (x AND PFN_MASK) = take_bit 36 (drop_bit 12 x)"
  by (simp add: drop_bit_and mask_eq_exp_minus_1 take_bit_eq_mask)

lemma PHY_ADDR_TO_PFN_in_page:
  assumes p: "in_bookkeep p" and off: "0 \<le> off" "off < PAGE_SIZE"
  shows "PHY_ADDR_TO_PFN (word_of_int (LOW_MEMORY + p * PAGE_SIZE + off)) = p"
proof -
  let ?n = "p * 4096 + off"
  have n: "0 \<le> ?n" "?n < 2 ^ 24" using p off by (auto simp: in_bookkeep_def)
  have "(word_of_int (LOW_MEMORY + p * PAGE_SIZE + off) :: u64) - word_of_int LOW_MEMORY
      = word_of_int ?n"
    by (metis (no_types, lifting) add.assoc add_diff_cancel_left' wi_hom_sub)
  moreover have "uint (word_of_int ?n :: u64) = ?n"
    using n by (intro uint_u64_of_int) auto
  moreover have "take_bit LENGTH(64) ?n = ?n"
    by (rule take_bit_int_eq_self) (use n in auto)
  ultimately have "PHY_ADDR_TO_PFN (word_of_int (LOW_MEMORY + p * PAGE_SIZE + off)) =
      take_bit 36 (drop_bit 12 ?n)"
    unfolding PHY_ADDR_TO_PFN_def PFN_MASK_drop
    by (simp only: unsigned_take_bit_eq unsigned_drop_bit_eq)
  also have "drop_bit 12 ?n = p" using off by (simp add: drop_bit_eq_div)
  also have "take_bit 36 p = p" using p by (simp add: in_bookkeep_def take_bit_int_eq_self_iff)
  finally show ?thesis .
qed

lemma signed_take_bit_in_bookkeep: "in_bookkeep p \<Longrightarrow> signed_take_bit 31 p = p"
  by (intro signed_take_bit_int_eq_self) (auto simp: in_bookkeep_def)

lemma obj_slot_bounds:
  assumes "obj_slot p z a" "0 < z" "in_bookkeep p"
  shows "addr_pfn a = p" "a \<noteq> 0"
    and "LOW_MEMORY + p * PAGE_SIZE \<le> uint a" "uint a + z \<le> LOW_MEMORY + (p + 1) * PAGE_SIZE"
    and "z dvd uint a - (LOW_MEMORY + p * PAGE_SIZE)"
proof -
  from assms(1) obtain i where i: "0 \<le> i" "i < 4096 div z"
    and a: "a = word_of_int (LOW_MEMORY + p * PAGE_SIZE + i * z)"
    by (auto simp: obj_slot_def)
  have "(i + 1) * z \<le> (4096 div z) * z" using i assms(2) by (intro mult_right_mono) auto
  also have "\<dots> \<le> 4096"
    using assms(2) pos_mod_sign [of z 4096] by (simp flip: minus_mod_eq_div_mult)
  finally have top: "i * z + z \<le> 4096" by (simp add: algebra_simps)
  have low: "0 \<le> i * z" using i assms(2) by simp
  with top assms(2) have "PHY_ADDR_TO_PFN a = p"
    unfolding a by (intro PHY_ADDR_TO_PFN_in_page assms(3)) auto
  then show "addr_pfn a = p" by (simp add: addr_pfn_def signed_take_bit_in_bookkeep assms(3))
  have "uint a = LOW_MEMORY + p * PAGE_SIZE + i * z"
    unfolding a using low top assms(2,3) by (intro uint_u64_of_int) (auto simp: in_bookkeep_def)
  with low top assms(2,3)
  show "LOW_MEMORY + p * PAGE_SIZE \<le> uint a" "uint a + z \<le> LOW_MEMORY + (p + 1) * PAGE_SIZE"
    "z dvd uint a - (LOW_MEMORY + p * PAGE_SIZE)" "a \<noteq> 0"
    by (auto simp: in_bookkeep_def algebra_simps)
qed

section \<open>The invariant\<close>

definition slab_heads :: "int set \<Rightarrow> mm_node set" where
  "slab_heads R = FullHead ` R \<union> PartialHead ` R \<union> EmptyHead ` R"

definition curr_list :: "mm_state \<Rightarrow> int \<Rightarrow> int list" where
  "curr_list s t = (case curr_page (obj_alloc_pool s t) of None \<Rightarrow> [] | Some p \<Rightarrow> [p])"

text \<open>The pages an allocator owns: those on its three lists and the current one.\<close>

definition slab_pages :: "mm_state \<Rightarrow> (mm_node \<Rightarrow> int list) \<Rightarrow> int \<Rightarrow> int list" where
  "slab_pages s M t = M (FullHead t) @ M (PartialHead t) @ M (EmptyHead t) @ curr_list s t"

definition counts_ok :: "mm_state \<Rightarrow> (mm_node \<Rightarrow> int list) \<Rightarrow> int \<Rightarrow> bool" where
  "counts_ok s M t \<longleftrightarrow> (let n = obj_per_page (obj_alloc_pool s t); u = \<lambda>p. pg_obj_used (bookkeep s p) in
     (\<forall>p\<in>set (M (FullHead t)). u p = n) \<and>
     (\<forall>p\<in>set (M (PartialHead t)). 0 < u p \<and> u p < n) \<and>
     (\<forall>p\<in>set (M (EmptyHead t)). u p = 0) \<and>
     (\<forall>p\<in>set (curr_list s t). 0 \<le> u p \<and> u p < n))"

definition sizes_ok :: "mm_state \<Rightarrow> int \<Rightarrow> bool" where
  "sizes_ok s t \<longleftrightarrow> (let a = obj_alloc_pool s t in
     MIN_ALLOCATAED_OBJ_SIZE \<le> objsize a \<and> objsize a \<le> MAX_ALLOCATAED_OBJ_SIZE \<and>
     obj_per_page a = PAGE_SIZE div objsize a)"

definition totals_ok :: "mm_state \<Rightarrow> (mm_node \<Rightarrow> int list) \<Rightarrow> int \<Rightarrow> bool" where
  "totals_ok s M t \<longleftrightarrow>
     page_used (obj_alloc_pool s t) = int (length (slab_pages s M t)) \<and>
     alloc_obj_used (obj_alloc_pool s t) = (\<Sum>p\<in>set (slab_pages s M t). pg_obj_used (bookkeep s p))"

definition owned_ok :: "mm_state \<Rightarrow> (mm_node \<Rightarrow> int list) \<Rightarrow> block set \<Rightarrow> int \<Rightarrow> bool" where
  "owned_ok s M A t \<longleftrightarrow> distinct (slab_pages s M t) \<and>
     (\<forall>p\<in>set (slab_pages s M t). (p, 0) \<in> A \<and> obj_alloc (bookkeep s p) = Some t \<and>
        (free (bookkeep s p) = 0 \<or> obj_slot p (objsize (obj_alloc_pool s t)) (free (bookkeep s p))))"

definition alloc_ok :: "mm_state \<Rightarrow> (mm_node \<Rightarrow> int list) \<Rightarrow> block set \<Rightarrow> int \<Rightarrow> bool" where
  "alloc_ok s M A t \<longleftrightarrow> sizes_ok s t \<and> owned_ok s M A t \<and> counts_ok s M t \<and> totals_ok s M t"

definition registered :: "mm_state \<Rightarrow> int set" where
  "registered s = {t. 0 \<le> t \<and> t < MAX_OBJ_ALLOCTOR_NUM \<and> objsize (obj_alloc_pool s t) \<noteq> 0}"

definition slab_ok :: "mm_state \<Rightarrow> (mm_node \<Rightarrow> int list) \<Rightarrow> block set \<Rightarrow> bool" where
  "slab_ok s M A \<longleftrightarrow>
     (\<forall>t\<in>registered s. alloc_ok s M A t) \<and>
     (\<forall>p t. in_bookkeep p \<longrightarrow> obj_alloc (bookkeep s p) = Some t \<longrightarrow>
        t \<in> registered s \<and> p \<in> set (slab_pages s M t)) \<and>
     (\<forall>p. in_bookkeep p \<longrightarrow> phy_addr (bookkeep s p) = word_of_int (LOW_MEMORY + p * PAGE_SIZE))"

definition mm_inv :: "mm_state \<Rightarrow> (mm_node \<Rightarrow> int list) \<Rightarrow> block set \<Rightarrow> bool" where
  "mm_inv s M A \<longleftrightarrow> buddy_owns (slab_heads (registered s)) M s A \<and> slab_ok s M A"

lemma slab_heads_client [simp]: "slab_heads R \<subseteq> client_heads"
  by (auto simp: slab_heads_def client_heads_def)

lemma slab_heads_iff [simp]:
  "FullHead t \<in> slab_heads R \<longleftrightarrow> t \<in> R" "PartialHead t \<in> slab_heads R \<longleftrightarrow> t \<in> R"
  "EmptyHead t \<in> slab_heads R \<longleftrightarrow> t \<in> R" "FreeArea k \<notin> slab_heads R" "PageNode p \<notin> slab_heads R"
  by (auto simp: slab_heads_def)

lemma lists_of_upd_client [simp]:
  "d \<in> client_heads \<Longrightarrow> lists_of F (M(d := xs)) = (lists_of F M)(d := map PageNode xs)"
proof
  fix e assume "d \<in> client_heads"
  then show "lists_of F (M(d := xs)) e = ((lists_of F M)(d := map PageNode xs)) e"
    by (cases d; cases e) (auto simp: client_heads_def)
qed

lemma client_head_intros [simp]:
  "FullHead t \<in> client_heads" "PartialHead t \<in> client_heads" "EmptyHead t \<in> client_heads"
  by (auto simp: client_heads_def)

text \<open>
  A step of a client that changes its lists and its own page fields only keeps the buddy
  invariant.
\<close>

definition buddy_same :: "mm_state \<Rightarrow> mm_state \<Rightarrow> bool" where
  "buddy_same s s' \<longleftrightarrow> nr_free s' = nr_free s \<and>
     (\<forall>p. order (bookkeep s' p) = order (bookkeep s p) \<and> used (bookkeep s' p) = used (bookkeep s p) \<and>
          pfn (bookkeep s' p) = pfn (bookkeep s p))"

lemma buddy_owns_client:
  assumes "buddy_owns E M s A" and "buddy_same s s'"
    and "\<And>F. dlists (links s) (area_heads \<union> E) (lists_of F M) \<Longrightarrow>
           dlists (links s') (area_heads \<union> E) (lists_of F M')"
    and "\<And>d. d \<in> E \<Longrightarrow> set (M' d) \<subseteq> fst ` A"
  shows "buddy_owns E M' s' A"
proof -
  from assms(1) obtain F where F: "buddy_inv s F E M A" by (auto simp: buddy_owns_def)
  then have "links_ok s' F E M' A" using assms(3) [of F] assms(4)
    by (auto simp: buddy_inv_def core_defs)
  moreover have "pages_ok s' F A" using F assms(2)
    by (auto simp: buddy_inv_def core_defs buddy_same_def)
  ultimately show ?thesis using F unfolding buddy_owns_def buddy_inv_def buddy_core_def by blast
qed

lemma buddy_owns_same:
  "buddy_owns E M s A \<Longrightarrow> buddy_same s s' \<Longrightarrow> links s' = links s \<Longrightarrow> buddy_owns E M s' A"
  by (rule buddy_owns_client [of E M s A])
    (auto simp: buddy_owns_def buddy_inv_def core_defs)

lemma buddy_owns_heads: "buddy_owns E M s A \<Longrightarrow> d \<in> E \<Longrightarrow> set (M d) \<subseteq> fst ` A"
  by (auto simp: buddy_owns_def buddy_inv_def core_defs)

text \<open>Taking a page off a client list, putting one on, and moving one.\<close>

lemma buddy_owns_del:
  assumes b: "buddy_owns E M s A" and d: "d \<in> E" "E \<subseteq> client_heads" and p: "p \<in> set (M d)"
    and s': "links s' = list_del (PageNode p) (links s)" "buddy_same s s'"
  shows "buddy_owns E (M(d := remove1 p (M d))) s' A"
proof (rule buddy_owns_client [OF b s'(2)])
  have dc: "d \<in> client_heads" using d by blast
  fix F assume "dlists (links s) (area_heads \<union> E) (lists_of F M)"
  from kl.repr_del [OF this, of d "PageNode p"]
  show "dlists (links s') (area_heads \<union> E) (lists_of F (M(d := remove1 p (M d))))"
    using d p dc by (simp add: s' lists_of_client map_remove1_inj)
next
  fix e assume "e \<in> E"
  then show "set ((M(d := remove1 p (M d))) e) \<subseteq> fst ` A"
    using buddy_owns_heads [OF b, of e] set_remove1_subset [of p "M d"] by (auto split: if_splits)
qed

lemma buddy_owns_add:
  assumes b: "buddy_owns E M s A" and d: "d \<in> E" "E \<subseteq> client_heads"
    and p: "(p, k) \<in> A" "\<And>e. e \<in> E \<Longrightarrow> p \<notin> set (M e)"
    and s': "links s' = list_add_tail (PageNode p) d (links s)" "buddy_same s s'"
  shows "buddy_owns E (M(d := M d @ [p])) s' A"
proof -
  from b obtain F where F: "buddy_core s F E M A" "coalesced F"
    by (auto simp: buddy_owns_def buddy_inv_def)
  have dc: "d \<in> client_heads" using d by blast
  have notF: "(p, j) \<notin> free_blocks F" for j
    using core_meet [OF F(1), of "(p, j)" "(p, k)" p] p(1) F(1) by (auto simp: core_defs)
  have fresh: "PageNode p \<notin> set (e # lists_of F M e)" if e: "e \<in> area_heads \<union> E" for e
  proof (cases "e \<in> area_heads")
    case True
    then show ?thesis using notF by (auto simp: area_heads_def free_blocks_def)
  next
    case False
    with e d have "e \<in> E" "e \<in> client_heads" by auto
    then show ?thesis using p(2) by (auto simp: lists_of_client)
  qed
  have "dlists (links s) (area_heads \<union> E) (lists_of F M)" using F(1) by (simp add: core_defs)
  from kl.repr_add_tail [OF this, of d "PageNode p"] fresh d dc
  have "dlists (links s') (area_heads \<union> E) (lists_of F (M(d := M d @ [p])))"
    by (simp add: s' lists_of_client)
  moreover have "set ((M(d := M d @ [p])) e) \<subseteq> fst ` A" if "e \<in> E" for e
    using buddy_owns_heads [OF b, of e] that p(1) by (auto simp: image_iff split: if_splits) force+
  ultimately have "links_ok s' F E (M(d := M d @ [p])) A" using F(1)
    by (auto simp: core_defs)
  moreover have "pages_ok s' F A" using F s'(2) by (auto simp: core_defs buddy_same_def)
  ultimately show ?thesis using F unfolding buddy_owns_def buddy_inv_def buddy_core_def by blast
qed

section \<open>One allocator changes\<close>

definition obj_same :: "page \<Rightarrow> page \<Rightarrow> bool" where
  "obj_same q q' \<longleftrightarrow> pg_obj_used q' = pg_obj_used q \<and> obj_alloc q' = obj_alloc q \<and> free q' = free q"

definition heads_same :: "(mm_node \<Rightarrow> int list) \<Rightarrow> (mm_node \<Rightarrow> int list) \<Rightarrow> int \<Rightarrow> bool" where
  "heads_same M M' u \<longleftrightarrow> M' (FullHead u) = M (FullHead u) \<and> M' (PartialHead u) = M (PartialHead u) \<and>
     M' (EmptyHead u) = M (EmptyHead u)"

lemma slab_pages_same:
  "obj_alloc_pool s' u = obj_alloc_pool s u \<Longrightarrow> heads_same M M' u \<Longrightarrow> slab_pages s' M' u = slab_pages s M u"
  by (simp add: slab_pages_def curr_list_def heads_same_def)

lemma alloc_ok_frame:
  assumes "alloc_ok s M A u" "obj_alloc_pool s' u = obj_alloc_pool s u" "heads_same M M' u"
    "\<And>q. q \<in> set (slab_pages s M u) \<Longrightarrow> obj_same (bookkeep s q) (bookkeep s' q) \<and> (q, 0) \<in> A'"
  shows "alloc_ok s' M' A' u"
proof -
  note pg = slab_pages_same [OF assms(2,3)]
  have cl: "curr_list s' u = curr_list s u" using assms(2) by (simp add: curr_list_def)
  have mem: "set (M (FullHead u)) \<subseteq> set (slab_pages s M u)"
    "set (M (PartialHead u)) \<subseteq> set (slab_pages s M u)"
    "set (M (EmptyHead u)) \<subseteq> set (slab_pages s M u)"
    "set (curr_list s u) \<subseteq> set (slab_pages s M u)"
    by (auto simp: slab_pages_def)
  have used: "pg_obj_used (bookkeep s' q) = pg_obj_used (bookkeep s q)"
    if "q \<in> set (slab_pages s M u)" for q using assms(4) [OF that] by (simp add: obj_same_def)
  have "counts_ok s' M' u"
    using assms(1) used mem cl assms(2,3)
    by (simp add: alloc_ok_def counts_ok_def heads_same_def Let_def subset_iff)
  moreover have "sizes_ok s' u" using assms(1,2) by (simp add: alloc_ok_def sizes_ok_def)
  moreover have "owned_ok s' M' A' u"
    using assms(1,2,4) pg by (auto simp: alloc_ok_def owned_ok_def obj_same_def)
  moreover have "totals_ok s' M' u"
    using assms(1,2) pg used by (simp add: alloc_ok_def totals_ok_def cong: sum.cong)
  ultimately show ?thesis by (simp add: alloc_ok_def)
qed

text \<open>
  The rule for a step that changes the allocator \<open>t\<close>, its lists and the pages it owns or
  acquires: only \<open>t\<close> has to be looked at.
\<close>

lemma slab_ok_update:
  assumes ok: "slab_ok s M A" and t: "t \<in> registered s"
    and pool: "\<And>u. u \<noteq> t \<Longrightarrow> obj_alloc_pool s' u = obj_alloc_pool s u"
    and size: "objsize (obj_alloc_pool s' t) = objsize (obj_alloc_pool s t)"
    and heads: "\<And>u. u \<noteq> t \<Longrightarrow> heads_same M M' u"
    and others: "\<And>q. obj_alloc (bookkeep s' q) \<noteq> Some t \<Longrightarrow> obj_alloc (bookkeep s q) \<noteq> Some t \<Longrightarrow>
           obj_same (bookkeep s q) (bookkeep s' q)"
    and lost: "\<And>q. obj_alloc (bookkeep s q) = Some t \<Longrightarrow> obj_alloc (bookkeep s' q) \<in> {Some t, None}"
    and got: "\<And>q. obj_alloc (bookkeep s' q) = Some t \<Longrightarrow> obj_alloc (bookkeep s q) \<in> {Some t, None}"
    and phy: "\<And>q. phy_addr (bookkeep s' q) = phy_addr (bookkeep s q)"
    and blocks: "\<And>q u. u \<noteq> t \<Longrightarrow> obj_alloc (bookkeep s q) = Some u \<Longrightarrow> (q, 0) \<in> A \<Longrightarrow> (q, 0) \<in> A'"
    and new: "alloc_ok s' M' A' t"
    and owner: "\<And>q. in_bookkeep q \<Longrightarrow> obj_alloc (bookkeep s' q) = Some t \<Longrightarrow>
           q \<in> set (slab_pages s' M' t)"
  shows "slab_ok s' M' A' \<and> registered s' = registered s"
proof -
  have "objsize (obj_alloc_pool s' u) = objsize (obj_alloc_pool s u)" for u
    using pool [of u] size by (cases "u = t") simp_all
  then have R: "registered s' = registered s" by (simp add: registered_def)
  have own: "obj_alloc (bookkeep s q) = Some u \<and> (q, 0) \<in> A"
    if "u \<in> registered s" "q \<in> set (slab_pages s M u)" for q u
    using ok that by (auto simp: slab_ok_def alloc_ok_def owned_ok_def)
  have same: "obj_same (bookkeep s q) (bookkeep s' q)"
    if "obj_alloc (bookkeep s q) = Some u" "u \<noteq> t" for q u
    using that others [of q] got [of q] by (cases "obj_alloc (bookkeep s' q) = Some t") auto
  have "alloc_ok s' M' A' u" if u: "u \<in> registered s" for u
  proof (cases "u = t")
    case False
    show ?thesis
    proof (rule alloc_ok_frame [OF _ pool [OF False] heads [OF False]])
      show "alloc_ok s M A u" using ok u by (simp add: slab_ok_def)
      fix q assume "q \<in> set (slab_pages s M u)"
      with own [OF u] have "obj_alloc (bookkeep s q) = Some u" "(q, 0) \<in> A" by auto
      then show "obj_same (bookkeep s q) (bookkeep s' q) \<and> (q, 0) \<in> A'"
        using same False blocks by blast
    qed
  qed (simp add: new)
  moreover have "u \<in> registered s \<and> q \<in> set (slab_pages s' M' u)"
    if q: "in_bookkeep q" "obj_alloc (bookkeep s' q) = Some u" for q u
  proof (cases "u = t")
    case True
    with q owner t show ?thesis by simp
  next
    case False
    with q lost [of q] have "obj_alloc (bookkeep s q) \<noteq> Some t" by auto
    with others [of q] q False have "obj_alloc (bookkeep s q) = Some u" by (auto simp: obj_same_def)
    with ok q have "u \<in> registered s" "q \<in> set (slab_pages s M u)" by (auto simp: slab_ok_def)
    then show ?thesis using slab_pages_same [OF pool [OF False] heads [OF False]] by simp
  qed
  ultimately show ?thesis using ok phy R by (simp add: slab_ok_def)
qed

text \<open>Facts on an allocator that the steps use.\<close>

lemma mm_alloc_ok: "mm_inv s M A \<Longrightarrow> t \<in> registered s \<Longrightarrow> alloc_ok s M A t"
  by (simp add: mm_inv_def slab_ok_def)

lemma sizes_ok_pos:
  assumes "sizes_ok s t"
  shows "0 < objsize (obj_alloc_pool s t)" "2 \<le> obj_per_page (obj_alloc_pool s t)"
proof -
  let ?z = "objsize (obj_alloc_pool s t)"
  have z: "8 \<le> ?z" "?z \<le> 2048" and n: "obj_per_page (obj_alloc_pool s t) = 4096 div ?z"
    using assms by (simp_all add: sizes_ok_def Let_def)
  show "0 < ?z" using z by simp
  have "2 = 4096 div (2048::int)" by simp
  also have "\<dots> \<le> 4096 div ?z" using z by (intro zdiv_mono2) auto
  finally show "2 \<le> obj_per_page (obj_alloc_pool s t)" using n by simp
qed

lemma mm_page_in:
  assumes "mm_inv s M A" "t \<in> registered s" "p \<in> set (slab_pages s M t)"
  shows "in_bookkeep p" "(p, 0) \<in> A" "obj_alloc (bookkeep s p) = Some t"
proof -
  show A: "(p, 0) \<in> A" and "obj_alloc (bookkeep s p) = Some t"
    using mm_alloc_ok [OF assms(1,2)] assms(3) by (auto simp: alloc_ok_def owned_ok_def)
  have "valid_block (p, 0)" using assms(1) A buddy.blocks_valid by (auto simp: mm_inv_def)
  then show "in_bookkeep p" by (rule valid_block_in_bookkeep) simp
qed

lemma mm_owner:
  assumes "mm_inv s M A" "in_bookkeep p" "obj_alloc (bookkeep s p) = Some t"
  shows "t \<in> registered s" "p \<in> set (slab_pages s M t)" "(p, 0) \<in> A"
proof -
  show *: "t \<in> registered s" "p \<in> set (slab_pages s M t)"
    using assms by (simp_all add: mm_inv_def slab_ok_def)
  show "(p, 0) \<in> A" by (rule mm_page_in(2) [OF assms(1) *])
qed

text \<open>No page is on the lists of two allocators, and the current page is on none.\<close>

lemma mm_page_elsewhere:
  assumes "mm_inv s M A" "t \<in> registered s" "p \<in> set (slab_pages s M t)"
    and "u \<in> registered s" "p \<in> set (slab_pages s M u)"
  shows "u = t"
  using mm_page_in(3) [OF assms(1-3)] mm_page_in(3) [OF assms(1,4,5)] by simp

lemma mm_curr_on_no_list:
  assumes i: "mm_inv s M A" and t: "t \<in> registered s" and c: "curr_page (obj_alloc_pool s t) = Some p"
    and d: "d \<in> slab_heads (registered s)"
  shows "p \<notin> set (M d)"
proof
  assume p: "p \<in> set (M d)"
  obtain u where u: "u \<in> registered s" "d \<in> {FullHead u, PartialHead u, EmptyHead u}"
    using d by (auto simp: slab_heads_def)
  have pu: "p \<in> set (slab_pages s M u)" using p u by (auto simp: slab_pages_def)
  have pt: "p \<in> set (slab_pages s M t)" using c by (simp add: slab_pages_def curr_list_def)
  have "u = t" by (rule mm_page_elsewhere [OF i t pt u(1) pu])
  moreover have "distinct (slab_pages s M t)"
    using mm_alloc_ok [OF i t] by (simp add: alloc_ok_def owned_ok_def)
  ultimately show False using p u c by (auto simp: slab_pages_def curr_list_def)
qed

end
