(* ===== verification/Slab_Steps.thy ===== *)
theory Slab_Steps
  imports Slab_Inv
begin

text \<open>
  \<open>obj_allocate\<close> and \<open>obj_free\<close> keep the invariant of the memory manager: one lemma for the
  steps that move a page between the lists of its allocator, one each for taking a page from
  the buddy system and for giving one back.
\<close>

section \<open>The steps inside an allocator\<close>

lemma slab_ok_same:
  assumes "slab_ok s M A" "slab_same s s'" "\<And>p t. obj_alloc (bookkeep s p) = Some t \<Longrightarrow> (p, 0) \<in> A \<Longrightarrow> (p, 0) \<in> A'"
  shows "slab_ok s' M A'" "registered s' = registered s"
proof -
  show R: "registered s' = registered s" using assms(2) by (simp add: registered_def slab_same_def)
  have pg: "slab_pages s' M t = slab_pages s M t" for t
    using assms(2) by (simp add: slab_pages_def curr_list_def slab_same_def)
  have "alloc_ok s' M A' t" if t: "t \<in> registered s" for t
  proof (rule alloc_ok_frame)
    show a: "alloc_ok s M A t" using assms(1) t by (simp add: slab_ok_def)
    fix q assume "q \<in> set (slab_pages s M t)"
    with a have "obj_alloc (bookkeep s q) = Some t" "(q, 0) \<in> A" by (auto simp: alloc_ok_def owned_ok_def)
    then show "obj_same (bookkeep s q) (bookkeep s' q) \<and> (q, 0) \<in> A'"
      using assms(2,3) by (auto simp: obj_same_def slab_same_def)
  qed (use assms(2) in \<open>simp_all add: slab_same_def heads_same_def\<close>)
  then show "slab_ok s' M A'" using assms(1,2) R pg by (simp add: slab_ok_def slab_same_def)
qed

lemma totals_ok_step:
  assumes "totals_ok s M t" "distinct (slab_pages s M t)" "p \<in> set (slab_pages s M t)"
    and "mset (slab_pages s' M' t) = mset (slab_pages s M t)"
    and "\<And>q. q \<noteq> p \<Longrightarrow> pg_obj_used (bookkeep s' q) = pg_obj_used (bookkeep s q)"
    and "pg_obj_used (bookkeep s' p) = pg_obj_used (bookkeep s p) + d"
    and "alloc_obj_used (obj_alloc_pool s' t) = alloc_obj_used (obj_alloc_pool s t) + d"
    and "page_used (obj_alloc_pool s' t) = page_used (obj_alloc_pool s t)"
  shows "totals_ok s' M' t"
proof -
  let ?P = "set (slab_pages s M t)"
  have P': "set (slab_pages s' M' t) = ?P" using assms(4) by (metis set_mset_mset)
  have len: "length (slab_pages s' M' t) = length (slab_pages s M t)"
    using assms(4) by (metis size_mset)
  have "(\<Sum>q\<in>?P. pg_obj_used (bookkeep s' q)) =
      pg_obj_used (bookkeep s' p) + (\<Sum>q\<in>?P - {p}. pg_obj_used (bookkeep s' q))"
    using assms(3) by (simp add: sum.remove)
  also have "(\<Sum>q\<in>?P - {p}. pg_obj_used (bookkeep s' q)) = (\<Sum>q\<in>?P - {p}. pg_obj_used (bookkeep s q))"
    using assms(5) by (intro sum.cong) auto
  also have "pg_obj_used (bookkeep s' p) + \<dots> = (\<Sum>q\<in>?P. pg_obj_used (bookkeep s q)) + d"
    using assms(3,6) by (simp add: sum.remove)
  finally show ?thesis using assms(1,7,8) P' len by (simp add: totals_ok_def)
qed

lemma slab_step:
  assumes i: "mm_inv s M A" and t: "t \<in> registered s" and p: "p \<in> set (slab_pages s M t)"
    and pool: "\<And>u. u \<noteq> t \<Longrightarrow> obj_alloc_pool s' u = obj_alloc_pool s u"
    and size: "objsize (obj_alloc_pool s' t) = objsize (obj_alloc_pool s t)"
      "obj_per_page (obj_alloc_pool s' t) = obj_per_page (obj_alloc_pool s t)"
    and tot: "alloc_obj_used (obj_alloc_pool s' t) = alloc_obj_used (obj_alloc_pool s t) + d"
      "page_used (obj_alloc_pool s' t) = page_used (obj_alloc_pool s t)"
    and rest: "\<And>q. q \<noteq> p \<Longrightarrow> bookkeep s' q = bookkeep s q"
    and pp: "obj_alloc (bookkeep s' p) = Some t" "phy_addr (bookkeep s' p) = phy_addr (bookkeep s p)"
      "pg_obj_used (bookkeep s' p) = pg_obj_used (bookkeep s p) + d"
      "free (bookkeep s' p) \<in> {0, free (bookkeep s p)} \<or>
       obj_slot p (objsize (obj_alloc_pool s t)) (free (bookkeep s' p))"
    and heads: "\<And>u. u \<noteq> t \<Longrightarrow> heads_same M M' u"
    and perm: "mset (slab_pages s' M' t) = mset (slab_pages s M t)"
    and counts: "counts_ok s' M' t"
    and buddy: "buddy_owns (slab_heads (registered s)) M' s' A"
  shows "mm_inv s' M' A \<and> registered s' = registered s"
proof -
  have ok: "slab_ok s M A" using i by (simp add: mm_inv_def)
  have a: "alloc_ok s M A t" by (rule mm_alloc_ok [OF i t])
  have mem: "set (slab_pages s' M' t) = set (slab_pages s M t)" using perm by (metis set_mset_mset)
  have own: "obj_alloc (bookkeep s p) = Some t" by (rule mm_page_in(3) [OF i t p])
  have dist: "distinct (slab_pages s M t)" using a by (simp add: alloc_ok_def owned_ok_def)
  have oa: "obj_alloc (bookkeep s' q) = obj_alloc (bookkeep s q)" for q
    using rest [of q] pp(1) own by (cases "q = p") simp_all
  have "owned_ok s' M' A t"
    unfolding owned_ok_def
  proof (intro conjI ballI)
    show "distinct (slab_pages s' M' t)" using dist perm by (metis mset_eq_imp_distinct_iff)
    fix q assume "q \<in> set (slab_pages s' M' t)"
    then have q: "(q, 0) \<in> A" "obj_alloc (bookkeep s q) = Some t"
      "free (bookkeep s q) = 0 \<or> obj_slot q (objsize (obj_alloc_pool s t)) (free (bookkeep s q))"
      using a mem by (auto simp: alloc_ok_def owned_ok_def)
    then show "(q, 0) \<in> A" "obj_alloc (bookkeep s' q) = Some t" by (simp_all add: oa)
    show "free (bookkeep s' q) = 0 \<or> obj_slot q (objsize (obj_alloc_pool s' t)) (free (bookkeep s' q))"
      using q(3) rest [of q] pp(4) size(1) by (cases "q = p") auto
  qed
  moreover have "totals_ok s' M' t"
    by (rule totals_ok_step [OF _ dist p perm _ pp(3) tot]) (use a rest in \<open>simp_all add: alloc_ok_def\<close>)
  moreover have "sizes_ok s' t" using a size by (simp add: alloc_ok_def sizes_ok_def Let_def)
  ultimately have new: "alloc_ok s' M' A t" using counts by (simp add: alloc_ok_def)
  have "slab_ok s' M' A \<and> registered s' = registered s"
  proof (rule slab_ok_update [OF ok t pool size(1) heads])
    fix q assume "obj_alloc (bookkeep s' q) \<noteq> Some t"
    then show "obj_same (bookkeep s q) (bookkeep s' q)"
      using rest [of q] pp(1) by (cases "q = p") (simp_all add: obj_same_def)
  next
    fix q show "phy_addr (bookkeep s' q) = phy_addr (bookkeep s q)"
      using rest [of q] pp(2) by (cases "q = p") simp_all
  next
    fix q assume "in_bookkeep q" "obj_alloc (bookkeep s' q) = Some t"
    then show "q \<in> set (slab_pages s' M' t)" using ok by (simp add: mem oa slab_ok_def)
  qed (use new in \<open>auto simp: oa\<close>)
  then show ?thesis using buddy by (simp add: mm_inv_def)
qed

section \<open>Finding the page to allocate from\<close>

lemma buddy_owns_list:
  assumes "buddy_owns E M s A" "d \<in> E"
  shows "list_empty d (links s) \<longleftrightarrow> M d = []"
    and "M d \<noteq> [] \<Longrightarrow> page_of (list_first d (links s)) = Inr (hd (M d))"
proof -
  from assms(1) obtain F where "buddy_core s F E M A" by (auto simp: buddy_owns_def buddy_inv_def)
  then have r: "dlists (links s) (area_heads \<union> E) (lists_of F M)" "d \<in> client_heads"
    using assms(2) by (auto simp: core_defs)
  show "list_empty d (links s) \<longleftrightarrow> M d = []"
    using kl.repr_empty [OF r(1), of d] r(2) assms(2) by (simp add: lists_of_client)
  show "page_of (list_first d (links s)) = Inr (hd (M d))" if "M d \<noteq> []"
    using kl.repr_first [OF r(1), of d] r(2) assms(2) that by (simp add: lists_of_client hd_map)
qed

lemma counts_okD:
  assumes "counts_ok s M t"
  shows "q \<in> set (M (FullHead t)) \<Longrightarrow> pg_obj_used (bookkeep s q) = obj_per_page (obj_alloc_pool s t)"
    and "q \<in> set (M (PartialHead t)) \<Longrightarrow>
      0 < pg_obj_used (bookkeep s q) \<and> pg_obj_used (bookkeep s q) < obj_per_page (obj_alloc_pool s t)"
    and "q \<in> set (M (EmptyHead t)) \<Longrightarrow> pg_obj_used (bookkeep s q) = 0"
    and "curr_page (obj_alloc_pool s t) = Some q \<Longrightarrow>
      0 \<le> pg_obj_used (bookkeep s q) \<and> pg_obj_used (bookkeep s q) < obj_per_page (obj_alloc_pool s t)"
  using assms by (auto simp: counts_ok_def Let_def curr_list_def)

lemma counts_okI:
  assumes "\<And>q. q \<in> set (M (FullHead t)) \<Longrightarrow> pg_obj_used (bookkeep s q) = obj_per_page (obj_alloc_pool s t)"
    and "\<And>q. q \<in> set (M (PartialHead t)) \<Longrightarrow>
      0 < pg_obj_used (bookkeep s q) \<and> pg_obj_used (bookkeep s q) < obj_per_page (obj_alloc_pool s t)"
    and "\<And>q. q \<in> set (M (EmptyHead t)) \<Longrightarrow> pg_obj_used (bookkeep s q) = 0"
    and "\<And>q. curr_page (obj_alloc_pool s t) = Some q \<Longrightarrow>
      0 \<le> pg_obj_used (bookkeep s q) \<and> pg_obj_used (bookkeep s q) < obj_per_page (obj_alloc_pool s t)"
  shows "counts_ok s M t"
  using assms by (auto simp: counts_ok_def Let_def curr_list_def split: option.split)

lemma refill_from_list:
  assumes i: "mm_inv s M A" and t: "t \<in> registered s" and d: "d = PartialHead t \<or> d = EmptyHead t"
    and c: "curr_page (obj_alloc_pool s t) = None" and m: "M d = p # ps"
  defines "s' \<equiv> upd_alloc t (\<lambda>a. a\<lparr>curr_page := Some p\<rparr>) (upd_links (list_del (PageNode p)) s)"
  shows "mm_inv s' (M(d := ps)) A" "registered s' = registered s"
proof -
  have a: "alloc_ok s M A t" by (rule mm_alloc_ok [OF i t])
  then have cnt: "counts_ok s M t" and n: "2 \<le> obj_per_page (obj_alloc_pool s t)"
    by (simp_all add: alloc_ok_def sizes_ok_pos)
  have dE: "d \<in> slab_heads (registered s)" using d t by auto
  have p: "p \<in> set (slab_pages s M t)" using d m by (auto simp: slab_pages_def)
  have b: "buddy_owns (slab_heads (registered s)) (M(d := remove1 p (M d))) s' A"
    by (rule buddy_owns_del [of _ _ s]) (use i dE m in \<open>simp_all add: mm_inv_def s'_def buddy_same_def\<close>)
  have pu: "0 \<le> pg_obj_used (bookkeep s p)" "pg_obj_used (bookkeep s p) < obj_per_page (obj_alloc_pool s t)"
    using d m n counts_okD(2,3) [OF cnt, of p] by auto
  have "mm_inv s' (M(d := ps)) A \<and> registered s' = registered s"
  proof (rule slab_step [OF i t p, where d = 0])
    show "mset (slab_pages s' (M(d := ps)) t) = mset (slab_pages s M t)"
      using d m c by (auto simp: slab_pages_def curr_list_def s'_def)
    show "counts_ok s' (M(d := ps)) t"
      using d m pu counts_okD [OF cnt] by (auto simp: counts_ok_def Let_def curr_list_def s'_def)
    show "buddy_owns (slab_heads (registered s)) (M(d := ps)) s' A" using b m by simp
    fix u assume "u \<noteq> t" then show "heads_same M (M(d := ps)) u" using d by (auto simp: heads_same_def)
  qed (use mm_page_in(3) [OF i t p] in \<open>simp_all add: s'_def\<close>)
  then show "mm_inv s' (M(d := ps)) A" "registered s' = registered s" by simp_all
qed

lemma refill_new_page:
  assumes i: "mm_inv s M A" and t: "t \<in> registered s" and c: "curr_page (obj_alloc_pool s t) = None"
    and al: "buddy_block_alloc 0 s = Inr (s1, Some p)"
  defines "s' \<equiv> upd_alloc t (\<lambda>a. a\<lparr>page_used := page_used a + 1, curr_page := Some p\<rparr>)
      (upd_page p (\<lambda>q. q\<lparr>pg_obj_used := 0, free := 0, obj_alloc := Some t\<rparr>) s1)"
  shows "mm_inv s' M (insert (p, 0) A)" "registered s' = registered s" "(p, 0) \<notin> A"
proof -
  let ?E = "slab_heads (registered s)"
  have b: "buddy_owns ?E M s A" and ok: "slab_ok s M A" using i by (simp_all add: mm_inv_def)
  note f = buddy.alloc_fresh [OF b _ _ al, simplified]
  then show pA: "(p, 0) \<notin> A" by simp
  have ok1: "slab_ok s1 M (insert (p, 0) A)" and R1: "registered s1 = registered s"
    using slab_ok_same [OF ok f(3)] by blast+
  have i1: "mm_inv s1 M (insert (p, 0) A)" using f(1) ok1 R1 by (simp add: mm_inv_def)
  have t1: "t \<in> registered s1" using t R1 by simp
  have a: "alloc_ok s1 M (insert (p, 0) A) t" by (rule mm_alloc_ok [OF i1 t1])
  have c1: "curr_page (obj_alloc_pool s1 t) = None" using c f(3) by (simp add: slab_same_def)
  have inb: "in_bookkeep p"
    using buddy.blocks_valid [OF f(1) insertI1] by (rule valid_block_in_bookkeep) simp
  have none: "obj_alloc (bookkeep s1 p) = None"
  proof (rule ccontr)
    assume "obj_alloc (bookkeep s1 p) \<noteq> None"
    then obtain u where "obj_alloc (bookkeep s p) = Some u" using f(3) by (auto simp: slab_same_def)
    then have "u \<in> registered s" "p \<in> set (slab_pages s M u)" using ok inb by (auto simp: slab_ok_def)
    then show False using mm_page_in(2) [OF i] pA by blast
  qed
  have np: "p \<notin> set (slab_pages s1 M t)" using mm_page_in(3) [OF i1 t1] none by auto
  have pg: "slab_pages s' M t = slab_pages s1 M t @ [p]"
    using c1 by (simp add: slab_pages_def curr_list_def s'_def)
  have n: "2 \<le> obj_per_page (obj_alloc_pool s1 t)" using a by (simp add: alloc_ok_def sizes_ok_pos)
  have used: "pg_obj_used (bookkeep s' q) = pg_obj_used (bookkeep s1 q)" if "q \<in> set (slab_pages s1 M t)" for q
    using that np by (auto simp: s'_def)
  have cnt: "counts_ok s1 M t" using a by (simp add: alloc_ok_def)
  have npL: "p \<notin> set (M (FullHead t))" "p \<notin> set (M (PartialHead t))" "p \<notin> set (M (EmptyHead t))"
    using np by (auto simp: slab_pages_def)
  have "counts_ok s' M t"
    using npL n counts_okD [OF cnt] by (auto simp: counts_ok_def Let_def curr_list_def s'_def)
  moreover have "totals_ok s' M t"
    using a np pg used by (simp add: totals_ok_def alloc_ok_def) (simp add: s'_def)
  moreover have "owned_ok s' M (insert (p, 0) A) t"
    using a np pg by (auto simp: owned_ok_def alloc_ok_def s'_def)
  moreover have "sizes_ok s' t" using a by (simp add: alloc_ok_def sizes_ok_def s'_def Let_def)
  ultimately have new: "alloc_ok s' M (insert (p, 0) A) t" by (simp add: alloc_ok_def)
  have "slab_ok s' M (insert (p, 0) A) \<and> registered s' = registered s1"
  proof (rule slab_ok_update [OF ok1 t1])
    fix q assume "in_bookkeep q" "obj_alloc (bookkeep s' q) = Some t"
    then show "q \<in> set (slab_pages s' M t)" using ok1 pg
      by (cases "q = p") (auto simp: s'_def slab_ok_def)
  qed (use new none in \<open>auto simp: s'_def heads_same_def obj_same_def split: if_splits\<close>)
  moreover have "buddy_owns ?E M s' (insert (p, 0) A)"
    by (rule buddy_owns_same [OF f(1)]) (simp_all add: s'_def buddy_same_def)
  ultimately show "mm_inv s' M (insert (p, 0) A)" "registered s' = registered s"
    using R1 by (simp_all add: mm_inv_def)
qed

text \<open>
  What \<open>obj_refill\<close> does, as a whole: it fails only when the allocator has no page with room
  and the buddy system no free frame.
\<close>

definition slab_exhausted :: "mm_state \<Rightarrow> (mm_node \<Rightarrow> int list) \<Rightarrow> block set \<Rightarrow> int \<Rightarrow> bool" where
  "slab_exhausted s M A t \<longleftrightarrow> curr_page (obj_alloc_pool s t) = None \<and> M (PartialHead t) = [] \<and>
     M (EmptyHead t) = [] \<and> (\<forall>q. in_bookkeep q \<longrightarrow> q \<in> occupied A)"

lemma order0_frames [simp]: "frames (q, 0) = {q}" "valid_block (q, 0) \<longleftrightarrow> in_bookkeep q"
  by (auto simp: frames_def block_range_def valid_block_def in_bookkeep_def)

lemma obj_new_page_eq:
  "obj_new_page t s = bind_result (buddy_block_alloc 0 s) (\<lambda>(s1, r). case r of None \<Rightarrow> Inl Null_Deref
     | Some p \<Rightarrow> Inr (upd_alloc t (\<lambda>a. a\<lparr>page_used := page_used a + 1\<rparr>)
         (upd_page p (\<lambda>q. q\<lparr>pg_obj_used := 0, free := 0, obj_alloc := Some t\<rparr>) s1), p))"
  unfolding obj_new_page_def init_obj_page_def upd_page_def
  by (intro arg_cong [where f = "bind_result _"] ext) (auto split: option.split)

lemma slab_same_alloc:
  "buddy_block_alloc k s = Inr (s', r) \<Longrightarrow> mm_inv s M A \<Longrightarrow> 0 \<le> k \<Longrightarrow> k \<le> MAX_ORDER \<Longrightarrow> slab_same s s'"
  using buddy.alloc_spec [of _ M s A k] by (auto simp: mm_inv_def)

lemma obj_refill_cases:
  assumes i: "mm_inv s M A" and t: "t \<in> registered s"
  obtains (fail) "obj_refill t s = Inl Null_Deref" "slab_exhausted s M A t"
  | (page) s' p M' A' where "obj_refill t s = Inr (s', p)" "mm_inv s' M' A'" "registered s' = registered s"
      "curr_page (obj_alloc_pool s' t) = Some p" "\<forall>q. q \<noteq> p \<longrightarrow> obj_same (bookkeep s q) (bookkeep s' q)"
      "A' = A \<and> obj_same (bookkeep s p) (bookkeep s' p) \<or>
       A' = insert (p, 0) A \<and> (p, 0) \<notin> A \<and> pg_obj_used (bookkeep s' p) = 0 \<and> free (bookkeep s' p) = 0"
proof (cases "curr_page (obj_alloc_pool s t)")
  case (Some p)
  then have "obj_refill t s = Inr (s, p)" by (simp add: obj_refill_def)
  with i Some show thesis by (intro page) (auto simp: obj_same_def)
next
  case None
  have b: "buddy_owns (slab_heads (registered s)) M s A" using i by (simp add: mm_inv_def)
  note le = buddy_owns_list [OF b, of "PartialHead t"] buddy_owns_list [OF b, of "EmptyHead t"]
  have from_list: thesis if d: "d = PartialHead t \<or> d = EmptyHead t" and ne: "M d \<noteq> []"
    and r: "obj_refill t s = bind_result (obj_take_first d s)
      (\<lambda>(s1, p). Inr (upd_alloc t (\<lambda>a. a\<lparr>curr_page := Some p\<rparr>) s1, p))" for d
  proof -
    obtain p ps where m: "M d = p # ps" using ne by (cases "M d") auto
    have "page_of (list_first d (links s)) = Inr p" using d m le t by auto
    then have "obj_refill t s = Inr (upd_alloc t (\<lambda>a. a\<lparr>curr_page := Some p\<rparr>)
        (upd_links (list_del (PageNode p)) s), p)"
      using r by (simp add: obj_take_first_def)
    from page [OF this refill_from_list [OF i t d None m]] show thesis by (simp add: obj_same_def)
  qed
  consider "M (PartialHead t) \<noteq> []" | "M (PartialHead t) = []" "M (EmptyHead t) \<noteq> []"
    | "M (PartialHead t) = []" "M (EmptyHead t) = []" by blast
  then show thesis
  proof cases
    case 1
    with None t le show thesis by (intro from_list [of "PartialHead t"]) (auto simp: obj_refill_def)
  next
    case 2
    with None t le show thesis by (intro from_list [of "EmptyHead t"]) (auto simp: obj_refill_def)
  next
    case 3
    with None t le have r: "obj_refill t s = bind_result (obj_new_page t s)
        (\<lambda>(s1, p). Inr (upd_alloc t (\<lambda>a. a\<lparr>curr_page := Some p\<rparr>) s1, p))"
      by (simp add: obj_refill_def)
    obtain s1 r A' where al: "buddy_block_alloc 0 s = Inr (s1, r)" "spec_alloc 0 A r A'"
      using buddy.alloc_spec [OF b, of 0] by auto
    show thesis
    proof (cases r)
      case None
      with al r have "obj_refill t s = Inl Null_Deref" by (simp add: obj_new_page_def)
      moreover have "slab_exhausted s M A t"
        using al(2) None 3 \<open>curr_page (obj_alloc_pool s t) = None\<close>
        by (simp add: slab_exhausted_def spec_alloc_def)
      ultimately show thesis by (rule fail)
    next
      case (Some p)
      note n = refill_new_page [OF i t \<open>curr_page (obj_alloc_pool s t) = None\<close> al(1) [unfolded Some]]
      have "obj_refill t s = Inr (upd_alloc t (\<lambda>a. a\<lparr>page_used := page_used a + 1, curr_page := Some p\<rparr>)
          (upd_page p (\<lambda>q. q\<lparr>pg_obj_used := 0, free := 0, obj_alloc := Some t\<rparr>) s1), p)"
        using r al(1) Some by (simp add: obj_new_page_eq upd_alloc_def)
      from page [OF this n(1,2)] n(3) slab_same_alloc [OF al(1) i] show thesis
        by (simp add: obj_same_def slab_same_def)
    qed
  qed
qed

section \<open>Allocating an object\<close>

lemma obj_address_slot:
  assumes i: "mm_inv s M A" and t: "t \<in> registered s" and c: "curr_page (obj_alloc_pool s t) = Some p"
  shows "obj_slot p (objsize (obj_alloc_pool s t)) (obj_address t p s)" "in_bookkeep p"
    and "obj_alloc (bookkeep s p) = Some t"
proof -
  have p: "p \<in> set (slab_pages s M t)" using c by (simp add: slab_pages_def curr_list_def)
  note pg = mm_page_in [OF i t p]
  then show "in_bookkeep p" "obj_alloc (bookkeep s p) = Some t" by simp_all
  have a: "alloc_ok s M A t" by (rule mm_alloc_ok [OF i t])
  have phy: "phy_addr (bookkeep s p) = word_of_int (LOW_MEMORY + p * PAGE_SIZE)"
    using i pg by (simp add: mm_inv_def slab_ok_def)
  have cnt: "0 \<le> pg_obj_used (bookkeep s p)"
    "pg_obj_used (bookkeep s p) < PAGE_SIZE div objsize (obj_alloc_pool s t)"
    using a counts_okD(4) [of s M t p] c by (auto simp: alloc_ok_def sizes_ok_def Let_def)
  have fr: "free (bookkeep s p) = 0 \<or> obj_slot p (objsize (obj_alloc_pool s t)) (free (bookkeep s p))"
    using a p by (auto simp: alloc_ok_def owned_ok_def)
  show "obj_slot p (objsize (obj_alloc_pool s t)) (obj_address t p s)"
  proof (cases "free (bookkeep s p) = 0")
    case True
    with cnt phy show ?thesis unfolding obj_address_def obj_slot_def
      by (intro exI [of _ "pg_obj_used (bookkeep s p)"]) simp
  qed (use fr in \<open>simp add: obj_address_def\<close>)
qed

lemma obj_count_retire_inv:
  assumes i: "mm_inv s M A" and t: "t \<in> registered s" and c: "curr_page (obj_alloc_pool s t) = Some p"
  defines "s' \<equiv> obj_retire_full t p (obj_count_up t p s)"
  shows "\<exists>M'. mm_inv s' M' A \<and> registered s' = registered s"
proof -
  have p: "p \<in> set (slab_pages s M t)" using c by (simp add: slab_pages_def curr_list_def)
  note pg = mm_page_in [OF i t p]
  have a: "alloc_ok s M A t" by (rule mm_alloc_ok [OF i t])
  then have cnt: "counts_ok s M t" by (simp add: alloc_ok_def)
  have b: "buddy_owns (slab_heads (registered s)) M s A" using i by (simp add: mm_inv_def)
  have pL: "p \<notin> set (M d)" if "d \<in> slab_heads (registered s)" for d
    by (rule mm_curr_on_no_list [OF i t c that])
  have fr: "free (bookkeep s p) = 0 \<or> obj_slot p (objsize (obj_alloc_pool s t)) (free (bookkeep s p))"
    using a p by (auto simp: alloc_ok_def owned_ok_def)
  show ?thesis
  proof (cases "obj_per_page (obj_alloc_pool s t) = pg_obj_used (bookkeep s p) + 1")
    case True
    let ?M = "M(FullHead t := M (FullHead t) @ [p])"
    have s': "s' = upd_alloc t (\<lambda>a. a\<lparr>curr_page := None\<rparr>)
        (upd_links (list_add_tail (PageNode p) (FullHead t)) (obj_count_up t p s))"
      using True by (simp add: s'_def obj_retire_full_def obj_count_up_def)
    have "mm_inv s' ?M A \<and> registered s' = registered s"
    proof (rule slab_step [OF i t p, where d = 1])
      show "mset (slab_pages s' ?M t) = mset (slab_pages s M t)"
        using c by (simp add: slab_pages_def curr_list_def s')
      show "counts_ok s' ?M t"
        by (rule counts_okI; insert True pL [of "FullHead t"] pL [of "PartialHead t"] pL [of "EmptyHead t"] t)
          (auto simp: s' obj_count_up_def dest: counts_okD [OF cnt])
      show "buddy_owns (slab_heads (registered s)) ?M s' A"
        by (rule buddy_owns_add [OF b _ _ pg(2) pL])
          (use t in \<open>simp_all add: s' obj_count_up_def buddy_same_def\<close>)
    qed (use pg in \<open>simp_all add: s' obj_count_up_def heads_same_def\<close>)
    then show ?thesis by blast
  next
    case False
    then have s': "s' = obj_count_up t p s"
      by (simp add: s'_def obj_retire_full_def obj_count_up_def)
    have "mm_inv s' M A \<and> registered s' = registered s"
    proof (rule slab_step [OF i t p, where d = 1])
      show "mset (slab_pages s' M t) = mset (slab_pages s M t)"
        by (simp add: slab_pages_def curr_list_def s' obj_count_up_def)
      show "counts_ok s' M t"
        by (rule counts_okI; insert False c pL [of "FullHead t"] pL [of "PartialHead t"] pL [of "EmptyHead t"] t)
          (auto simp: s' obj_count_up_def dest: counts_okD [OF cnt])
      show "buddy_owns (slab_heads (registered s)) M s' A"
        by (rule buddy_owns_same [OF b]) (simp_all add: s' obj_count_up_def buddy_same_def)
    qed (use pg in \<open>simp_all add: s' obj_count_up_def heads_same_def\<close>)
    then show ?thesis by blast
  qed
qed

lemma obj_refill_size:
  assumes "obj_refill t s = Inr (s', p)" "mm_inv s M A"
  shows "objsize (obj_alloc_pool s' u) = objsize (obj_alloc_pool s u)"
proof -
  have "objsize (obj_alloc_pool s1 u) = objsize (obj_alloc_pool s u)"
    if "buddy_block_alloc 0 s = Inr (s1, r)" for s1 r
    using slab_same_alloc [OF that assms(2)] by (simp add: slab_same_def)
  then show ?thesis using assms(1)
    by (auto simp: obj_refill_def obj_take_first_def obj_new_page_eq bind_result_Inr_iff
        split: option.splits if_splits)
qed

lemma obj_allocate_inv:
  assumes i: "mm_inv s M A" and t: "t \<in> registered s"
  obtains (fail) "obj_allocate t s = Inl Null_Deref" "slab_exhausted s M A t"
  | (object) s' a p M' A' where "obj_allocate t s = Inr (s', a)" "mm_inv s' M' A'"
      "registered s' = registered s" "obj_slot p (objsize (obj_alloc_pool s t)) a" "in_bookkeep p"
      "(p, 0) \<in> A'" "obj_alloc (bookkeep s' p) = Some t" "A' = A \<or> A' = insert (p, 0) A \<and> (p, 0) \<notin> A"
      "\<forall>u. objsize (obj_alloc_pool s' u) = objsize (obj_alloc_pool s u)"
      "\<forall>q. q \<noteq> p \<longrightarrow> obj_same (bookkeep s q) (bookkeep s' q)"
      "A' = A \<Longrightarrow> obj_alloc (bookkeep s p) = Some t"
      "pg_obj_used (bookkeep s' p) = (if A' = A then pg_obj_used (bookkeep s p) else 0) + 1"
      "free (bookkeep s' p) = (if A' = A then free (bookkeep s p) else 0)"
      "free (bookkeep s' p) = 0 \<Longrightarrow> a = word_of_int (LOW_MEMORY + p * PAGE_SIZE +
         (pg_obj_used (bookkeep s' p) - 1) * objsize (obj_alloc_pool s t))"
proof -
  have tb: "\<not> (t < 0 \<or> MAX_OBJ_ALLOCTOR_NUM \<le> t)" using t by (auto simp: registered_def)
  show thesis
    using i t
  proof (cases rule: obj_refill_cases)
    case fail
    then show thesis using that(1) tb by (simp add: obj_allocate_def)
  next
    case (page s1 p M1 A1)
    have t1: "t \<in> registered s1" using t page(3) by simp
    let ?s = "obj_retire_full t p (obj_count_up t p s1)"
    obtain M' where M': "mm_inv ?s M' A1" "registered ?s = registered s1"
      using obj_count_retire_inv [OF page(2) t1 page(4)] by blast
    note ad = obj_address_slot [OF page(2) t1 page(4)]
    have z: "objsize (obj_alloc_pool s1 u) = objsize (obj_alloc_pool s u)" for u
      by (rule obj_refill_size [OF page(1) i])
    have p: "p \<in> set (slab_pages s1 M1 t)" using page(4) by (simp add: slab_pages_def curr_list_def)
    have phy: "phy_addr (bookkeep s1 p) = word_of_int (LOW_MEMORY + p * PAGE_SIZE)"
      using page(2) ad(2) by (simp add: mm_inv_def slab_ok_def)
    have r: "bookkeep ?s = (bookkeep s1)(p := (bookkeep s1 p)\<lparr>pg_obj_used := pg_obj_used (bookkeep s1 p) + 1\<rparr>)"
      "objsize (obj_alloc_pool ?s u) = objsize (obj_alloc_pool s u)" for u
      by (simp_all add: obj_retire_full_def obj_count_up_def z)
    have "obj_allocate t s = Inr (?s, obj_address t p s1)"
      using tb page(1) by (simp add: obj_allocate_def)
    then show thesis
    proof (rule that(2) [where p = p, OF _ M'(1)])
      show "registered ?s = registered s" using M'(2) page(3) by simp
      show "obj_slot p (objsize (obj_alloc_pool s t)) (obj_address t p s1)" using ad(1) z by simp
      show "(p, 0) \<in> A1" by (rule mm_page_in(2) [OF page(2) t1 p])
      show "obj_alloc (bookkeep ?s p) = Some t" using ad(3) r(1) by simp
      show "A1 = A \<or> A1 = insert (p, 0) A \<and> (p, 0) \<notin> A" using page(6) by blast
      show "A1 = A \<Longrightarrow> obj_alloc (bookkeep s p) = Some t" using page(6) ad(3) by (auto simp: obj_same_def)
      show "\<forall>q. q \<noteq> p \<longrightarrow> obj_same (bookkeep s q) (bookkeep ?s q)" using page(5) r(1) by (simp add: obj_same_def)
      show "pg_obj_used (bookkeep ?s p) = (if A1 = A then pg_obj_used (bookkeep s p) else 0) + 1"
        "free (bookkeep ?s p) = (if A1 = A then free (bookkeep s p) else 0)"
        using page(6) r(1) by (auto simp: obj_same_def)
      assume "free (bookkeep ?s p) = 0"
      then show "obj_address t p s1 = word_of_int (LOW_MEMORY + p * PAGE_SIZE +
         (pg_obj_used (bookkeep ?s p) - 1) * objsize (obj_alloc_pool s t))"
        using r(1) phy z by (simp add: obj_address_def)
    qed (use ad(2) r(2) in auto)
  qed
qed

section \<open>Releasing an object\<close>

definition obj_released :: "u64 \<Rightarrow> int \<Rightarrow> int \<Rightarrow> mm_state \<Rightarrow> mm_state" where
  "obj_released a t p s = obj_count_down t p (obj_push_free a p s)"

lemma obj_released_simps [simp]:
  "bookkeep (obj_released a t p s) = (bookkeep s)(p := (bookkeep s p)\<lparr>free := a, pg_obj_used := pg_obj_used (bookkeep s p) - 1\<rparr>)"
  "links (obj_released a t p s) = links s" "nr_free (obj_released a t p s) = nr_free s"
  "obj_alloc_pool (obj_released a t p s) = (obj_alloc_pool s)
     (t := (obj_alloc_pool s t)\<lparr>alloc_obj_used := alloc_obj_used (obj_alloc_pool s t) - 1\<rparr>)"
  by (simp_all add: obj_released_def obj_count_down_def obj_push_free_def Let_def)

lemma free_on_current:
  assumes i: "mm_inv s M A" and t: "t \<in> registered s" and c: "curr_page (obj_alloc_pool s t) = Some p"
    and a: "obj_slot p (objsize (obj_alloc_pool s t)) a" and u: "0 < pg_obj_used (bookkeep s p)"
  shows "mm_inv (obj_released a t p s) M A \<and> registered (obj_released a t p s) = registered s"
proof -
  have p: "p \<in> set (slab_pages s M t)" using c by (simp add: slab_pages_def curr_list_def)
  have cnt: "counts_ok s M t" using mm_alloc_ok [OF i t] by (simp add: alloc_ok_def)
  have pL: "p \<notin> set (M d)" if "d \<in> slab_heads (registered s)" for d
    by (rule mm_curr_on_no_list [OF i t c that])
  show ?thesis
  proof (rule slab_step [OF i t p, where d = "- 1"])
    show "counts_ok (obj_released a t p s) M t"
      by (rule counts_okI; insert c u pL [of "FullHead t"] pL [of "PartialHead t"] pL [of "EmptyHead t"] t)
        (auto dest: counts_okD [OF cnt])
    show "buddy_owns (slab_heads (registered s)) M (obj_released a t p s) A"
      by (rule buddy_owns_same [of _ _ s]) (use i in \<open>simp_all add: mm_inv_def buddy_same_def\<close>)
  qed (use a mm_page_in [OF i t p] in \<open>simp_all add: heads_same_def slab_pages_def curr_list_def\<close>)
qed

text \<open>Moving a page of an allocator from one of its lists to another.\<close>

lemma mm_lists_disjoint:
  assumes i: "mm_inv s M A" and t: "t \<in> registered s"
  shows "p \<in> set (M (FullHead t)) \<Longrightarrow> p \<notin> set (M (PartialHead t)) \<and> p \<notin> set (M (EmptyHead t)) \<and>
      curr_page (obj_alloc_pool s t) \<noteq> Some p"
    and "p \<in> set (M (PartialHead t)) \<Longrightarrow> p \<notin> set (M (FullHead t)) \<and> p \<notin> set (M (EmptyHead t)) \<and>
      curr_page (obj_alloc_pool s t) \<noteq> Some p"
    and "distinct (M (FullHead t))" "distinct (M (PartialHead t))" "distinct (M (EmptyHead t))"
  using mm_alloc_ok [OF i t]
  by (auto simp: alloc_ok_def owned_ok_def slab_pages_def curr_list_def)

lemma buddy_owns_move:
  assumes i: "mm_inv s M A" and t: "t \<in> registered s"
    and d: "d \<in> slab_heads (registered s)" "e \<in> slab_heads (registered s)" "d \<noteq> e" "p \<in> set (M d)"
    and A: "(p, k) \<in> A"
    and s': "links s' = list_add_tail (PageNode p) e (list_del (PageNode p) (links s))" "buddy_same s s'"
  shows "buddy_owns (slab_heads (registered s)) (M(d := remove1 p (M d), e := M e @ [p])) s' A"
proof (rule buddy_owns_client [of _ M s])
  show "buddy_owns (slab_heads (registered s)) M s A" using i by (simp add: mm_inv_def)
  show "buddy_same s s'" by (rule s'(2))
  have cl: "d \<in> client_heads" "e \<in> client_heads" using d slab_heads_client by blast+
  fix F assume "dlists (links s) (area_heads \<union> slab_heads (registered s)) (lists_of F M)"
  from kl.move [OF this, of d e "PageNode p"] d cl
  show "dlists (links s') (area_heads \<union> slab_heads (registered s))
      (lists_of F (M(d := remove1 p (M d), e := M e @ [p])))"
    by (simp add: s' lists_of_client map_remove1_inj)
next
  fix f assume f: "f \<in> slab_heads (registered s)"
  have "set (M g) \<subseteq> fst ` A" if "g \<in> slab_heads (registered s)" for g
    using i that buddy_owns_heads [of "slab_heads (registered s)" M s A g] by (simp add: mm_inv_def)
  with f d A set_remove1_subset [of p "M d"]
  show "set ((M(d := remove1 p (M d), e := M e @ [p])) f) \<subseteq> fst ` A"
    by (auto simp: rev_image_eqI split: if_splits)
qed

lemma free_on_full:
  assumes i: "mm_inv s M A" and t: "t \<in> registered s" and p: "p \<in> set (M (FullHead t))"
    and a: "obj_slot p (objsize (obj_alloc_pool s t)) a"
  defines "s' \<equiv> upd_links (list_add_tail (PageNode p) (PartialHead t))
      (upd_links (list_del (PageNode p)) (obj_released a t p s))"
    and "M' \<equiv> M(FullHead t := remove1 p (M (FullHead t)), PartialHead t := M (PartialHead t) @ [p])"
  shows "mm_inv s' M' A \<and> registered s' = registered s"
proof -
  have ps: "p \<in> set (slab_pages s M t)" using p by (simp add: slab_pages_def)
  note pg = mm_page_in [OF i t ps]
  have ok: "alloc_ok s M A t" by (rule mm_alloc_ok [OF i t])
  then have cnt: "counts_ok s M t" and n: "2 \<le> obj_per_page (obj_alloc_pool s t)"
    by (simp_all add: alloc_ok_def sizes_ok_pos)
  note L = mm_lists_disjoint(1) [OF i t p] mm_lists_disjoint(3) [OF i t]
  show ?thesis
  proof (rule slab_step [OF i t ps, where d = "- 1"])
    show "mset (slab_pages s' M' t) = mset (slab_pages s M t)"
      using p by (simp add: slab_pages_def curr_list_def s'_def M'_def)
    show "counts_ok s' M' t"
      by (rule counts_okI; insert L n p counts_okD(1) [OF cnt p])
        (auto simp: s'_def M'_def dest: counts_okD [OF cnt])
    show "buddy_owns (slab_heads (registered s)) M' s' A"
      unfolding M'_def
      by (rule buddy_owns_move [OF i t]) (use t p pg in \<open>simp_all add: s'_def buddy_same_def\<close>)
  qed (use a pg in \<open>simp_all add: s'_def M'_def heads_same_def\<close>)
qed

lemma free_on_partial:
  assumes i: "mm_inv s M A" and t: "t \<in> registered s" and p: "p \<in> set (M (PartialHead t))"
    and a: "obj_slot p (objsize (obj_alloc_pool s t)) a" and u: "pg_obj_used (bookkeep s p) \<noteq> 1"
  shows "mm_inv (obj_released a t p s) M A \<and> registered (obj_released a t p s) = registered s"
proof -
  have ps: "p \<in> set (slab_pages s M t)" using p by (simp add: slab_pages_def)
  have cnt: "counts_ok s M t" using mm_alloc_ok [OF i t] by (simp add: alloc_ok_def)
  show ?thesis
  proof (rule slab_step [OF i t ps, where d = "- 1"])
    show "counts_ok (obj_released a t p s) M t"
      by (rule counts_okI; insert p u mm_lists_disjoint(2) [OF i t p] counts_okD(2) [OF cnt p])
        (auto dest: counts_okD [OF cnt])
    show "buddy_owns (slab_heads (registered s)) M (obj_released a t p s) A"
      by (rule buddy_owns_same [of _ _ s]) (use i in \<open>simp_all add: mm_inv_def buddy_same_def\<close>)
  qed (use a mm_page_in [OF i t ps] in \<open>simp_all add: heads_same_def slab_pages_def curr_list_def\<close>)
qed

lemma free_to_empty:
  assumes i: "mm_inv s M A" and t: "t \<in> registered s" and p: "p \<in> set (M (PartialHead t))"
    and a: "obj_slot p (objsize (obj_alloc_pool s t)) a" and u: "pg_obj_used (bookkeep s p) = 1"
  defines "s' \<equiv> upd_links (list_add_tail (PageNode p) (EmptyHead t))
      (upd_links (list_del (PageNode p)) (obj_released a t p s))"
    and "M' \<equiv> M(PartialHead t := remove1 p (M (PartialHead t)), EmptyHead t := M (EmptyHead t) @ [p])"
  shows "mm_inv s' M' A \<and> registered s' = registered s"
proof -
  have ps: "p \<in> set (slab_pages s M t)" using p by (simp add: slab_pages_def)
  note pg = mm_page_in [OF i t ps]
  have cnt: "counts_ok s M t" using mm_alloc_ok [OF i t] by (simp add: alloc_ok_def)
  note L = mm_lists_disjoint(2) [OF i t p] mm_lists_disjoint(4) [OF i t]
  show ?thesis
  proof (rule slab_step [OF i t ps, where d = "- 1"])
    show "mset (slab_pages s' M' t) = mset (slab_pages s M t)"
      using p by (simp add: slab_pages_def curr_list_def s'_def M'_def)
    show "counts_ok s' M' t"
      by (rule counts_okI; insert L u p)
        (auto simp: s'_def M'_def dest: counts_okD [OF cnt])
    show "buddy_owns (slab_heads (registered s)) M' s' A"
      unfolding M'_def
      by (rule buddy_owns_move [OF i t]) (use t p pg in \<open>simp_all add: s'_def buddy_same_def\<close>)
  qed (use a pg in \<open>simp_all add: s'_def M'_def heads_same_def\<close>)
qed

lemma free_to_buddy:
  fixes a :: u64
  assumes i: "mm_inv s M A" and t: "t \<in> registered s" and p: "p \<in> set (M (PartialHead t))"
    and u: "pg_obj_used (bookkeep s p) = 1"
  defines "s1 \<equiv> upd_links (list_del (PageNode p)) (obj_released a t p s)"
    and "M' \<equiv> M(PartialHead t := remove1 p (M (PartialHead t)))"
  shows "\<exists>s'. obj_release_page t p s1 = Inr s' \<and> mm_inv s' M' (A - {(p, 0)}) \<and> registered s' = registered s \<and>
    obj_alloc (bookkeep s' p) = None \<and> (\<forall>q. q \<noteq> p \<longrightarrow> obj_same (bookkeep s q) (bookkeep s' q)) \<and>
    (\<forall>u. objsize (obj_alloc_pool s' u) = objsize (obj_alloc_pool s u))"
proof -
  let ?E = "slab_heads (registered s)"
  define s2 where "s2 = upd_page p (\<lambda>q. q\<lparr>free := 0, obj_alloc := None, pg_obj_used := 0\<rparr>)
         (upd_alloc t (\<lambda>a. a\<lparr>page_used := page_used a - 1\<rparr>) s1)"
  have ps: "p \<in> set (slab_pages s M t)" using p by (simp add: slab_pages_def)
  note pg = mm_page_in [OF i t ps]
  have ok: "alloc_ok s M A t" by (rule mm_alloc_ok [OF i t])
  then have cnt: "counts_ok s M t" and tot: "totals_ok s M t" and own: "owned_ok s M A t"
    by (simp_all add: alloc_ok_def)
  note L = mm_lists_disjoint(2) [OF i t p] mm_lists_disjoint(4) [OF i t]
  have dist: "distinct (slab_pages s M t)" using own by (simp add: owned_ok_def)
  have pgs: "slab_pages s2 M' t = remove1 p (slab_pages s M t)"
    using L(1) p by (simp add: slab_pages_def curr_list_def s2_def s1_def M'_def remove1_append)
  then have set2: "set (slab_pages s2 M' t) = set (slab_pages s M t) - {p}" using dist by simp
  have b: "buddy_owns ?E M' s2 A"
    unfolding M'_def by (rule buddy_owns_del [of _ _ s])
      (use i t p in \<open>simp_all add: s2_def s1_def mm_inv_def buddy_same_def\<close>)
  have "counts_ok s2 M' t"
    by (rule counts_okI; insert L p)
      (auto simp: s2_def s1_def M'_def dest: counts_okD [OF cnt])
  moreover have "totals_ok s2 M' t"
  proof -
    let ?P = "set (slab_pages s M t)"
    have "(\<Sum>q\<in>?P - {p}. pg_obj_used (bookkeep s2 q)) = (\<Sum>q\<in>?P - {p}. pg_obj_used (bookkeep s q))"
      by (intro sum.cong) (auto simp: s2_def s1_def)
    also have "\<dots> = (\<Sum>q\<in>?P. pg_obj_used (bookkeep s q)) - 1" using ps u by (simp add: sum_diff1)
    finally have sum: "(\<Sum>q\<in>?P - {p}. pg_obj_used (bookkeep s2 q)) =
      (\<Sum>q\<in>?P. pg_obj_used (bookkeep s q)) - 1" .
    have "int (length (remove1 p (slab_pages s M t))) = int (length (slab_pages s M t)) - 1"
      using ps length_pos_if_in_set [OF ps] by (simp add: length_remove1 of_nat_diff Suc_leI)
    with sum tot show ?thesis unfolding totals_ok_def set2 unfolding pgs
      by (simp add: s2_def s1_def)
  qed
  moreover have "owned_ok s2 M' (A - {(p, 0)}) t"
    using own dist unfolding owned_ok_def set2 unfolding pgs by (auto simp: s2_def s1_def)
  moreover have "sizes_ok s2 t" using ok by (simp add: alloc_ok_def sizes_ok_def s2_def s1_def Let_def)
  ultimately have new: "alloc_ok s2 M' (A - {(p, 0)}) t" by (simp add: alloc_ok_def)
  have ok2: "slab_ok s2 M' (A - {(p, 0)}) \<and> registered s2 = registered s"
  proof (rule slab_ok_update [OF _ t])
    show "slab_ok s M A" using i by (simp add: mm_inv_def)
    fix q assume "in_bookkeep q" "obj_alloc (bookkeep s2 q) = Some t"
    then show "q \<in> set (slab_pages s2 M' t)" unfolding set2 using i
      by (auto simp: s2_def s1_def mm_inv_def slab_ok_def split: if_splits)
  qed (use new pg(3) in \<open>auto simp: s2_def s1_def M'_def heads_same_def obj_same_def split: if_splits\<close>)
  have "p \<notin> buddy_pinned ?E M'"
  proof
    assume "p \<in> buddy_pinned ?E M'"
    then obtain d where d: "d \<in> ?E" "p \<in> set (M' d)" by (auto simp: buddy_pinned_def)
    then obtain v where v: "v \<in> registered s" "d \<in> {FullHead v, PartialHead v, EmptyHead v}"
      by (auto simp: slab_heads_def)
    have "set (M' d) \<subseteq> set (M d)"
      using set_remove1_subset [of p "M (PartialHead t)"] by (auto simp: M'_def)
    with d v have "p \<in> set (slab_pages s M v)" by (auto simp: slab_pages_def)
    from mm_page_elsewhere [OF i t ps v(1) this] v(2) d(2) L show False by (auto simp: M'_def)
  qed
  from buddy.release_spec [OF b pg(2) this] obtain s'
    where s': "buddy_block_free p s2 = Inr s'" "buddy_owns ?E M' s' (A - {(p, 0)})" "slab_same s2 s'"
    by blast
  have "slab_ok s' M' (A - {(p, 0)})" "registered s' = registered s2"
    using slab_ok_same [OF conjunct1 [OF ok2] s'(3)] by blast+
  moreover have "obj_alloc (bookkeep s' p) = None" "\<forall>q. q \<noteq> p \<longrightarrow> obj_same (bookkeep s q) (bookkeep s' q)"
    "\<forall>u. objsize (obj_alloc_pool s' u) = objsize (obj_alloc_pool s u)"
    using s'(3) by (auto simp: slab_same_def obj_same_def s2_def s1_def)
  moreover have "obj_release_page t p s1 = Inr s'" using s'(1) by (simp add: obj_release_page_def s2_def)
  ultimately show ?thesis using s'(2) ok2 by (simp add: mm_inv_def)
qed

lemma obj_free_inv:
  assumes i: "mm_inv s M A" and p: "in_bookkeep p" "obj_alloc (bookkeep s p) = Some t"
    and a: "obj_slot p (objsize (obj_alloc_pool s t)) a" and u: "0 < pg_obj_used (bookkeep s p)"
  shows "\<exists>s' M' A'. obj_free a s = Inr s' \<and> mm_inv s' M' A' \<and> registered s' = registered s \<and>
           (\<forall>q. q \<noteq> p \<longrightarrow> obj_same (bookkeep s q) (bookkeep s' q)) \<and>
           (\<forall>u. objsize (obj_alloc_pool s' u) = objsize (obj_alloc_pool s u)) \<and>
           (A' = A \<and> obj_alloc (bookkeep s' p) = Some t \<and>
              pg_obj_used (bookkeep s' p) = pg_obj_used (bookkeep s p) - 1 \<or>
            A' = A - {(p, 0)} \<and> (p, 0) \<in> A \<and> obj_alloc (bookkeep s' p) = None \<and>
              pg_obj_used (bookkeep s p) = 1)"
proof -
  have t: "t \<in> registered s" and ps: "p \<in> set (slab_pages s M t)"
    using i p by (auto simp: mm_inv_def slab_ok_def)
  have ok: "alloc_ok s M A t" by (rule mm_alloc_ok [OF i t])
  then have cnt: "counts_ok s M t" and n: "2 \<le> obj_per_page (obj_alloc_pool s t)"
    and z: "0 < objsize (obj_alloc_pool s t)" by (simp_all add: alloc_ok_def sizes_ok_pos)
  have eq: "obj_free a s = obj_partial_to_empty t p (obj_full_to_partial t p (obj_released a t p s))"
    using obj_slot_bounds(1) [OF a z p(1)] p by (simp add: obj_free_def obj_released_def)
  consider (full) "p \<in> set (M (FullHead t))" | (part) "p \<in> set (M (PartialHead t))"
    | (empty) "p \<in> set (M (EmptyHead t))" | (curr) "curr_page (obj_alloc_pool s t) = Some p"
    using ps by (auto simp: slab_pages_def curr_list_def split: option.splits)
  then show ?thesis
  proof cases
    case full
    then have "obj_free a s = Inr (upd_links (list_add_tail (PageNode p) (PartialHead t))
      (upd_links (list_del (PageNode p)) (obj_released a t p s)))"
      using eq counts_okD(1) [OF cnt full] n
      by (simp add: obj_full_to_partial_def obj_partial_to_empty_def)
    with free_on_full [OF i t full a] p(2) show ?thesis by (force simp: obj_same_def)
  next
    case part
    note c = counts_okD(2) [OF cnt part] mm_lists_disjoint(2) [OF i t part]
    have stay: "obj_full_to_partial t p (obj_released a t p s) = obj_released a t p s"
      using c by (simp add: obj_full_to_partial_def)
    show ?thesis
    proof (cases "pg_obj_used (bookkeep s p) = 1")
      case False
      then have "obj_free a s = Inr (obj_released a t p s)"
        using eq c stay by (simp add: obj_partial_to_empty_def)
      with free_on_partial [OF i t part a False] p(2) show ?thesis by (force simp: obj_same_def)
    next
      case True
      then have r: "obj_free a s = (if page_used (obj_alloc_pool s t) \<ge> 10
          then obj_release_page t p (upd_links (list_del (PageNode p)) (obj_released a t p s))
          else Inr (upd_links (list_add_tail (PageNode p) (EmptyHead t))
                 (upd_links (list_del (PageNode p)) (obj_released a t p s))))"
        using eq c stay by (simp add: obj_partial_to_empty_def Let_def)
      show ?thesis
      proof (cases "page_used (obj_alloc_pool s t) \<ge> 10")
        case True
        with r free_to_buddy [OF i t part \<open>pg_obj_used (bookkeep s p) = 1\<close>, of a]
          mm_page_in(2) [OF i t ps] \<open>pg_obj_used (bookkeep s p) = 1\<close>
        show ?thesis by auto
      next
        case False
        with r free_to_empty [OF i t part a \<open>pg_obj_used (bookkeep s p) = 1\<close>] p(2)
        show ?thesis by (force simp: obj_same_def)
      qed
    qed
  next
    case empty
    with counts_okD(3) [OF cnt] u show ?thesis by simp
  next
    case curr
    then have "obj_free a s = Inr (obj_released a t p s)"
      using eq counts_okD(4) [OF cnt curr]
      by (simp add: obj_full_to_partial_def obj_partial_to_empty_def)
    with free_on_current [OF i t curr a u] p(2) show ?thesis by (force simp: obj_same_def)
  qed
qed

end
