(* ===== verification/Kmalloc.thy ===== *)
theory Kmalloc
  imports Slab_Steps
begin

text \<open>
  The dynamic allocator as its clients see it: the state \<open>mm_init\<close> sets up, the size class
  \<open>kmalloc\<close> picks, and what any sequence of \<open>kmalloc\<close> and \<open>kfree\<close> calls keeps true.
\<close>

section \<open>Initialisation\<close>

lemma client_head_INIT:
  assumes "dlists h D (lists_of F M)" "d \<in> client_heads" "d \<notin> D"
  shows "dlists (INIT_LIST_HEAD d h) (insert d D) (lists_of F (M(d := [])))"
proof -
  have "set (lists_of F M e) \<subseteq> range PageNode" for e by (cases e) auto
  then have "d \<notin> set (e # lists_of F M e)" if "e \<in> D" for e
    using that assms(2,3) by (auto simp: client_heads_def)
  from dlists_INIT [OF assms(1) this] assms(2) show ?thesis by simp
qed

lemma init_obj_alloc_inv:
  assumes i: "mm_inv s M A" and t: "0 \<le> t" "t < MAX_OBJ_ALLOCTOR_NUM" "t \<notin> registered s"
    and z: "MIN_ALLOCATAED_OBJ_SIZE \<le> z" "z \<le> MAX_ALLOCATAED_OBJ_SIZE"
  shows "mm_inv (init_obj_alloc t z s) (M(FullHead t := [], PartialHead t := [], EmptyHead t := [])) A"
    and "registered (init_obj_alloc t z s) = insert t (registered s)"
proof -
  let ?s = "init_obj_alloc t z s" and ?M = "M(FullHead t := [], PartialHead t := [], EmptyHead t := [])"
  have b: "buddy_owns (slab_heads (registered s)) M s A" and ok: "slab_ok s M A"
    using i by (simp_all add: mm_inv_def)
  have s': "bookkeep ?s = bookkeep s" "nr_free ?s = nr_free s"
    "links ?s = INIT_LIST_HEAD (EmptyHead t) (INIT_LIST_HEAD (PartialHead t) (INIT_LIST_HEAD (FullHead t) (links s)))"
    "\<And>u. u \<noteq> t \<Longrightarrow> obj_alloc_pool ?s u = obj_alloc_pool s u"
    "obj_alloc_pool ?s t = (obj_alloc_pool s t)\<lparr>curr_page := None, objsize := z, obj_per_page := PAGE_SIZE div z,
       alloc_obj_used := 0, page_used := 0\<rparr>"
    by (simp_all add: init_obj_alloc_def Let_def)
  have "u \<in> registered ?s \<longleftrightarrow> u \<in> insert t (registered s)" for u
    using t z s' by (cases "u = t") (simp_all add: registered_def)
  then show R: "registered ?s = insert t (registered s)" by blast
  from b obtain F where F: "buddy_core s F (slab_heads (registered s)) M A" "coalesced F"
    by (auto simp: buddy_owns_def buddy_inv_def)
  let ?D = "area_heads \<union> slab_heads (registered s)"
  have D: "FullHead t \<notin> ?D" "PartialHead t \<notin> ?D" "EmptyHead t \<notin> ?D"
    using t by (auto simp: area_heads_def)
  have "dlists (links s) ?D (lists_of F M)" using F(1) by (simp add: core_defs)
  from client_head_INIT [OF client_head_INIT [OF client_head_INIT [OF this, of "FullHead t"],
        of "PartialHead t"], of "EmptyHead t"] D
  have "dlists (links ?s) (insert (EmptyHead t) (insert (PartialHead t) (insert (FullHead t) ?D)))
      (lists_of F ?M)"
    using s'(3) by simp
  moreover have "insert (EmptyHead t) (insert (PartialHead t) (insert (FullHead t) ?D)) =
      area_heads \<union> slab_heads (insert t (registered s))"
    by (auto simp: slab_heads_def)
  ultimately have "links_ok ?s F (slab_heads (insert t (registered s))) ?M A"
    using F(1) by (auto simp: core_defs slab_heads_def)
  moreover have "pages_ok ?s F A" using F(1) s' by (simp add: core_defs)
  ultimately have "buddy_owns (slab_heads (registered ?s)) ?M ?s A"
    using F by (auto simp: buddy_owns_def buddy_inv_def buddy_core_def R)
  moreover have "alloc_ok ?s ?M A t"
    using s'(5) z by (simp add: alloc_ok_def sizes_ok_def owned_ok_def counts_ok_def totals_ok_def
        slab_pages_def curr_list_def Let_def)
  moreover have "alloc_ok ?s ?M A u" if "u \<in> registered s" for u
  proof (rule alloc_ok_frame [of s M A])
    show a: "alloc_ok s M A u" using ok that by (simp add: slab_ok_def)
    show "obj_alloc_pool ?s u = obj_alloc_pool s u" "heads_same M ?M u"
      using t that s'(4) [of u] by (auto simp: heads_same_def)
    fix q assume "q \<in> set (slab_pages s M u)"
    then show "obj_same (bookkeep s q) (bookkeep ?s q) \<and> (q, 0) \<in> A"
      using a by (auto simp: alloc_ok_def owned_ok_def obj_same_def s')
  qed
  moreover have "q \<in> set (slab_pages ?s ?M u)"
    if q: "u \<in> registered s" "q \<in> set (slab_pages s M u)" for q u
  proof -
    have "u \<noteq> t" using q t by auto
    then show ?thesis using q by (simp add: slab_pages_def curr_list_def s'(4))
  qed
  ultimately show "mm_inv ?s ?M A"
    using ok unfolding mm_inv_def slab_ok_def R s'(1) by auto
qed

lemma register_scan_skip:
  assumes "\<And>j. i \<le> j \<Longrightarrow> j < n \<Longrightarrow> objsize (obj_alloc_pool s j) \<noteq> 0"
    "objsize (obj_alloc_pool s n) = 0" "i \<le> n" "n < MAX_OBJ_ALLOCTOR_NUM"
  shows "register_scan i z s = (init_obj_alloc n z s, n)"
  using assms
proof (induction i z s rule: register_scan.induct)
  case (1 i z s)
  show ?case
  proof (cases "i = n")
    case True
    then show ?thesis using "1.prems" by (subst register_scan.simps) simp
  next
    case False
    with "1.prems" have "objsize (obj_alloc_pool s i) \<noteq> 0" "i < MAX_OBJ_ALLOCTOR_NUM" by auto
    with "1.IH" "1.prems" False show ?thesis by (subst register_scan.simps) simp
  qed
qed

lemma register_obj_allocator_inv:
  assumes i: "mm_inv s M A" and R: "registered s = {0..<n}" "0 \<le> n" "n < MAX_OBJ_ALLOCTOR_NUM"
  shows "\<exists>M'. mm_inv (fst (register_obj_allocator z s)) M' A"
    and "registered (fst (register_obj_allocator z s)) = {0..<n + 1}"
    and "snd (register_obj_allocator z s) = n"
    and "objsize (obj_alloc_pool (fst (register_obj_allocator z s)) u) =
      (if u = n then min (max z MIN_ALLOCATAED_OBJ_SIZE) MAX_ALLOCATAED_OBJ_SIZE else objsize (obj_alloc_pool s u))"
proof -
  define y where "y = min (max z MIN_ALLOCATAED_OBJ_SIZE) MAX_ALLOCATAED_OBJ_SIZE"
  have mem: "u \<in> registered s \<longleftrightarrow> 0 \<le> u \<and> u < n" for u using R by auto
  have "register_scan 0 y s = (init_obj_alloc n y s, n)"
  proof (rule register_scan_skip)
    fix j assume "0 \<le> j" "j < n"
    then show "objsize (obj_alloc_pool s j) \<noteq> 0" using mem [of j] by (auto simp: registered_def)
  qed (use mem [of n] R in \<open>auto simp: registered_def\<close>)
  moreover have "register_obj_allocator z s = register_scan 0 y s"
    by (auto simp: register_obj_allocator_def y_def Let_def)
  ultimately have eq: "register_obj_allocator z s = (init_obj_alloc n y s, n)" by simp
  have n: "n \<notin> registered s" using R by simp
  have y: "MIN_ALLOCATAED_OBJ_SIZE \<le> y" "y \<le> MAX_ALLOCATAED_OBJ_SIZE" by (auto simp: y_def)
  note I = init_obj_alloc_inv [OF i R(2,3) n y]
  show "\<exists>M'. mm_inv (fst (register_obj_allocator z s)) M' A" using I(1) eq by auto
  show "registered (fst (register_obj_allocator z s)) = {0..<n + 1}" using I(2) eq R by auto
  show "snd (register_obj_allocator z s) = n" using eq by simp
  show "objsize (obj_alloc_pool (fst (register_obj_allocator z s)) u) =
      (if u = n then min (max z MIN_ALLOCATAED_OBJ_SIZE) MAX_ALLOCATAED_OBJ_SIZE else objsize (obj_alloc_pool s u))"
    by (simp add: eq init_obj_alloc_def Let_def flip: y_def)
qed

lemma register_fold:
  assumes "mm_inv s M A" "registered s = {0..<n}" "0 \<le> n" "n + int (length ks) \<le> MAX_OBJ_ALLOCTOR_NUM"
  shows "(\<exists>M'. mm_inv (fold (\<lambda>i s. fst (register_obj_allocator (2 ^ nat i) s)) ks s) M' A) \<and>
    registered (fold (\<lambda>i s. fst (register_obj_allocator (2 ^ nat i) s)) ks s) = {0..<n + int (length ks)} \<and>
    (\<forall>u. objsize (obj_alloc_pool (fold (\<lambda>i s. fst (register_obj_allocator (2 ^ nat i) s)) ks s) u) =
      (if n \<le> u \<and> u < n + int (length ks)
       then min (max (2 ^ nat (ks ! nat (u - n))) MIN_ALLOCATAED_OBJ_SIZE) MAX_ALLOCATAED_OBJ_SIZE
       else objsize (obj_alloc_pool s u)))"
  using assms
proof (induction ks arbitrary: s M n)
  case (Cons k ks)
  let ?s = "fst (register_obj_allocator (2 ^ nat k) s)"
  from Cons.prems have n: "n < MAX_OBJ_ALLOCTOR_NUM" by simp
  note R = register_obj_allocator_inv [OF Cons.prems(1-3) n, of "2 ^ nat k"]
  from R(1) obtain M1 where M1: "mm_inv ?s M1 A" by blast
  have nth: "(k # ks) ! nat (u - n) = (if u = n then k else ks ! nat (u - (n + 1)))" if "n \<le> u" for u
  proof -
    have "nat (u - n) - Suc 0 = nat (u - (n + 1))" by arith
    with that show ?thesis by (auto simp: nth_Cons')
  qed
  from Cons.IH [OF M1 R(2)] Cons.prems
  show ?case by (auto simp: R(4) nth algebra_simps)
qed auto

definition kmalloc_classes :: "mm_state \<Rightarrow> bool" where
  "kmalloc_classes s \<longleftrightarrow> registered s = {0..<9} \<and>
     (\<forall>t\<in>{0..<9}. objsize (obj_alloc_pool s t) = 2 ^ nat (t + MIN_KMALLOC_ORDER))"

lemma mm_init_inv:
  "\<exists>M. mm_inv (mm_init bss_mm) M {}" "kmalloc_classes (mm_init bss_mm)"
  "\<And>p. obj_alloc (bookkeep (free_area_init (page_init bss_mm)) p) = None"
proof -
  let ?s = "free_area_init (page_init bss_mm)" and ?M = "\<lambda>_::mm_node. [] :: int list"
  have same: "slab_same (page_init bss_mm) ?s" and b: "buddy_owns {} ?M ?s {}"
    using free_area_init_inv [of bss_mm] by (auto simp: bss_mm_def buddy_owns_def)
  have pool: "obj_alloc_pool ?s = (\<lambda>_. zero_allocator)"
    using same by (simp add: slab_same_def page_init_simps bss_mm_def)
  then have R: "registered ?s = {0..<0}" by (simp add: registered_def zero_allocator_def)
  show none: "obj_alloc (bookkeep ?s p) = None" for p
    using same by (simp add: slab_same_def page_init_simps bss_mm_def zero_page_def)
  moreover have "phy_addr (bookkeep ?s p) = word_of_int (LOW_MEMORY + p * PAGE_SIZE)" if "in_bookkeep p" for p
    using same that by (simp add: slab_same_def page_init_simps)
  ultimately have "mm_inv ?s ?M {}" using b R by (simp add: mm_inv_def slab_ok_def slab_heads_def)
  moreover have l: "length [MIN_KMALLOC_ORDER..MAX_KMALLOC_ORDER] = 9" by simp
  ultimately have *: "(\<exists>M'. mm_inv (mm_init bss_mm) M' {}) \<and> registered (mm_init bss_mm) = {0..<9} \<and>
      (\<forall>u. objsize (obj_alloc_pool (mm_init bss_mm) u) =
        (if 0 \<le> u \<and> u < 9
         then min (max (2 ^ nat ([MIN_KMALLOC_ORDER..MAX_KMALLOC_ORDER] ! nat u)) MIN_ALLOCATAED_OBJ_SIZE)
           MAX_ALLOCATAED_OBJ_SIZE
         else objsize (obj_alloc_pool ?s u)))"
    using register_fold [of ?s ?M "{}" 0 "[MIN_KMALLOC_ORDER..MAX_KMALLOC_ORDER]"] R
    by (simp add: mm_init_def init_kmalloc_def)
  then show "\<exists>M. mm_inv (mm_init bss_mm) M {}" by blast
  have "min (max (2 ^ nat ([MIN_KMALLOC_ORDER..MAX_KMALLOC_ORDER] ! nat u)) MIN_ALLOCATAED_OBJ_SIZE)
           MAX_ALLOCATAED_OBJ_SIZE = (2::int) ^ nat (u + MIN_KMALLOC_ORDER)" if "u \<in> {0..<9}" for u
  proof -
    have "[MIN_KMALLOC_ORDER..MAX_KMALLOC_ORDER] ! nat u = u + 3" using that by (subst nth_upto) auto
    moreover have "(2::int) ^ 3 \<le> 2 ^ nat (u + 3)" "(2::int) ^ nat (u + 3) \<le> 2 ^ 11"
      using that by (intro power_increasing; auto)+
    ultimately show ?thesis by (simp add: min_def max_def)
  qed
  with * show "kmalloc_classes (mm_init bss_mm)" by (auto simp: kmalloc_classes_def)
qed

section \<open>Size classes\<close>

lemma kmalloc_obj_at:
  assumes "i \<le> k" "k \<le> MAX_KMALLOC_ORDER" "sz \<le> 2 ^ nat k" "\<And>j. i \<le> j \<Longrightarrow> j < k \<Longrightarrow> 2 ^ nat j < sz"
  shows "kmalloc_obj i sz s = obj_allocate (k - MIN_KMALLOC_ORDER) s"
  using assms
proof (induction i sz s rule: kmalloc_obj.induct)
  case (1 i sz s)
  show ?case
  proof (cases "i = k")
    case True
    with "1.prems" show ?thesis by (subst kmalloc_obj.simps) simp
  next
    case False
    with "1.prems" have lt: "\<not> sz \<le> 2 ^ nat i" "i \<le> MAX_KMALLOC_ORDER" by (auto simp: not_le)
    then have "kmalloc_obj i sz s = kmalloc_obj (i + 1) sz s" by (subst kmalloc_obj.simps) simp
    also have "\<dots> = obj_allocate (k - MIN_KMALLOC_ORDER) s"
      using "1.IH" [OF lt(2,1)] "1.prems" False by simp
    finally show ?thesis .
  qed
qed

lemma kmalloc_obj_over:
  assumes "2 ^ nat MAX_KMALLOC_ORDER < sz"
  shows "kmalloc_obj i sz s = kmalloc_buddy 0 sz s"
  using assms
proof (induction i sz s rule: kmalloc_obj.induct)
  case (1 i sz s)
  have "\<not> sz \<le> 2 ^ nat i" if "i \<le> MAX_KMALLOC_ORDER"
  proof -
    have "(2::int) ^ nat i \<le> 2 ^ 11" using that by (intro power_increasing) auto
    with "1.prems" show ?thesis by simp
  qed
  with 1 show ?case by (subst kmalloc_obj.simps) auto
qed

definition big_block :: "int \<Rightarrow> mm_state \<Rightarrow> (mm_state \<times> u64) result" where
  "big_block k s = bind_result (buddy_block_alloc k s) (\<lambda>(s1, r).
     case r of None \<Rightarrow> Inl Null_Deref | Some p \<Rightarrow> Inr (s1, phy_addr (bookkeep s1 p)))"

lemma kmalloc_buddy_at:
  assumes "i \<le> k" "k \<le> MAX_ORDER" "sz \<le> 2 ^ nat (k + int PAGE_SHIFT)"
    "\<And>j. i \<le> j \<Longrightarrow> j < k \<Longrightarrow> 2 ^ nat (j + int PAGE_SHIFT) < sz"
  shows "kmalloc_buddy i sz s = big_block k s"
  using assms
proof (induction i sz s rule: kmalloc_buddy.induct)
  case (1 i sz s)
  show ?case
  proof (cases "i = k")
    case True
    with "1.prems" show ?thesis by (subst kmalloc_buddy.simps) (simp add: big_block_def)
  next
    case False
    with "1.prems" have lt: "\<not> sz \<le> 2 ^ nat (i + int PAGE_SHIFT)" "i \<le> MAX_ORDER"
      by (auto simp: not_le)
    then have "kmalloc_buddy i sz s = kmalloc_buddy (i + 1) sz s" by (subst kmalloc_buddy.simps) simp
    also have "\<dots> = big_block k s" using "1.IH" [OF lt(2,1)] "1.prems" False by simp
    finally show ?thesis .
  qed
qed

lemma kmalloc_buddy_over:
  assumes "2 ^ nat (MAX_ORDER + int PAGE_SHIFT) < sz"
  shows "kmalloc_buddy i sz s = Inr (s, 0)"
  using assms
proof (induction i sz s rule: kmalloc_buddy.induct)
  case (1 i sz s)
  have "\<not> sz \<le> 2 ^ nat (i + int PAGE_SHIFT)" if "i \<le> MAX_ORDER"
  proof -
    have "(2::int) ^ nat (i + 12) \<le> 2 ^ 21" using that by (intro power_increasing) auto
    with "1.prems" show ?thesis by simp
  qed
  with 1 show ?case by (subst kmalloc_buddy.simps) auto
qed

text \<open>The least order whose blocks are large enough.\<close>

lemma least_order:
  fixes lo hi sz :: int
  assumes "sz \<le> 2 ^ nat hi" "0 \<le> lo" "lo \<le> hi"
  obtains k where "lo \<le> k" "k \<le> hi" "sz \<le> 2 ^ nat k" "\<And>j. lo \<le> j \<Longrightarrow> j < k \<Longrightarrow> 2 ^ nat j < sz"
proof -
  define n where "n = (LEAST n. sz \<le> 2 ^ nat (lo + int n))"
  have ex: "sz \<le> 2 ^ nat (lo + int (nat (hi - lo)))" using assms by simp
  have "sz \<le> 2 ^ nat (lo + int n)" unfolding n_def by (rule LeastI [of _ "nat (hi - lo)"]) (use ex in simp)
  moreover have "n \<le> nat (hi - lo)" unfolding n_def by (rule Least_le) (use ex in simp)
  moreover have "2 ^ nat j < sz" if "lo \<le> j" "j < lo + int n" for j
  proof -
    have "nat (j - lo) < n" using that by linarith
    from not_less_Least [OF this [unfolded n_def]] that show ?thesis by simp
  qed
  ultimately show thesis using assms by (intro that [of "lo + int n"]) auto
qed

lemma kmalloc_small:
  assumes "sz \<le> MAX_ALLOCATAED_OBJ_SIZE"
  obtains k where "MIN_KMALLOC_ORDER \<le> k" "k \<le> MAX_KMALLOC_ORDER" "sz \<le> 2 ^ nat k"
    "\<And>j. MIN_KMALLOC_ORDER \<le> j \<Longrightarrow> j < k \<Longrightarrow> 2 ^ nat j < sz"
    "kmalloc sz s = obj_allocate (k - MIN_KMALLOC_ORDER) s"
proof -
  obtain k where k: "MIN_KMALLOC_ORDER \<le> k" "k \<le> MAX_KMALLOC_ORDER" "sz \<le> 2 ^ nat k"
    "\<And>j. MIN_KMALLOC_ORDER \<le> j \<Longrightarrow> j < k \<Longrightarrow> 2 ^ nat j < sz"
    using least_order [of sz MAX_KMALLOC_ORDER MIN_KMALLOC_ORDER] assms by auto
  with kmalloc_obj_at [OF k(1-4)] show thesis by (intro that) (auto simp: kmalloc_def)
qed

lemma kmalloc_large:
  assumes "MAX_ALLOCATAED_OBJ_SIZE < sz" "sz \<le> 2 ^ nat (MAX_ORDER + int PAGE_SHIFT)"
  obtains k where "0 \<le> k" "k \<le> MAX_ORDER" "sz \<le> PAGE_SIZE * 2 ^ nat k"
    "\<And>j. 0 \<le> j \<Longrightarrow> j < k \<Longrightarrow> PAGE_SIZE * 2 ^ nat j < sz" "kmalloc sz s = big_block k s"
proof -
  obtain n where n: "12 \<le> n" "n \<le> 21" "sz \<le> 2 ^ nat n" "\<And>j. 12 \<le> j \<Longrightarrow> j < n \<Longrightarrow> 2 ^ nat j < sz"
    using least_order [of sz 21 12] assms(2) by auto
  have pw: "(2::int) ^ nat (j + 12) = 4096 * 2 ^ nat j" if "0 \<le> j" for j
    using that by (simp add: nat_add_distrib power_add)
  have lt: "2 ^ nat (j + 12) < sz" if "0 \<le> j" "j < n - 12" for j
    using n(4) [of "j + 12"] that by simp
  have "kmalloc sz s = kmalloc_buddy 0 sz s" using assms(1) by (simp add: kmalloc_def kmalloc_obj_over)
  also have "\<dots> = big_block (n - 12) s"
    by (rule kmalloc_buddy_at) (use n lt in auto)
  finally show thesis using n lt pw pw [of "n - 12"] by (intro that [of "n - 12"]) auto
qed

lemma kmalloc_too_large:
  assumes "2 ^ nat (MAX_ORDER + int PAGE_SHIFT) < sz"
  shows "kmalloc sz s = Inr (s, 0)"
proof -
  have "2 ^ nat MAX_KMALLOC_ORDER < sz" using assms by simp
  then show ?thesis using kmalloc_obj_over [of sz] kmalloc_buddy_over [OF assms] by (simp add: kmalloc_def)
qed

section \<open>Whole blocks\<close>

lemma mm_head_unique:
  assumes "mm_inv s M A" "(p, j) \<in> A" "(p, k) \<in> A"
  shows "j = k"
proof (rule ccontr)
  assume "j \<noteq> k"
  moreover have "buddy_owns (slab_heads (registered s)) M s A" using assms(1) by (simp add: mm_inv_def)
  ultimately have "frames (p, j) \<inter> frames (p, k) = {}"
    using buddy.blocks_disjoint [of _ M s A] assms(2,3) by blast
  with frames_self(1) [of p j] frames_self(1) [of p k] show False by blast
qed

lemma mm_not_slab:
  assumes i: "mm_inv s M A" and n: "obj_alloc (bookkeep s p) = None" and d: "d \<in> slab_heads (registered s)"
  shows "p \<notin> set (M d)"
proof
  assume p: "p \<in> set (M d)"
  obtain u where "u \<in> registered s" "p \<in> set (slab_pages s M u)"
    using d p by (auto simp: slab_heads_def slab_pages_def)
  from mm_page_in(3) [OF i this] n show False by simp
qed

lemma mm_block_alloc:
  assumes i: "mm_inv s M A" and k: "0 \<le> k" "k \<le> MAX_ORDER"
  obtains s' r A' where "buddy_block_alloc k s = Inr (s', r)" "spec_alloc k A r A'" "mm_inv s' M A'"
    "slab_same s s'" "registered s' = registered s"
    "\<forall>p. r = Some p \<longrightarrow> in_bookkeep p \<and> obj_alloc (bookkeep s p) = None"
proof -
  have b: "buddy_owns (slab_heads (registered s)) M s A" and ok: "slab_ok s M A"
    using i by (simp_all add: mm_inv_def)
  obtain s' r A' where r: "buddy_block_alloc k s = Inr (s', r)" "spec_alloc k A r A'"
    "buddy_owns (slab_heads (registered s)) M s' A'" "slab_same s s'"
    using buddy.alloc_spec [OF b k] by blast
  have sub: "A \<subseteq> A'" using r(2) by (auto simp: spec_alloc_def split: option.splits)
  note S = slab_ok_same [OF ok r(4), of A']
  have S': "slab_ok s' M A'" "registered s' = registered s" using S sub by auto
  have "in_bookkeep p \<and> obj_alloc (bookkeep s p) = None" if "r = Some p" for p
  proof -
    have v: "valid_block (p, k)" "frames (p, k) \<inter> occupied A = {}" using r(2) that by (simp_all add: spec_alloc_def)
    have inb: "in_bookkeep p" using valid_block_in_bookkeep [OF v(1)] by simp
    have "(p, 0) \<notin> A"
    proof
      assume "(p, 0) \<in> A"
      then have "p \<in> occupied A" unfolding occupied_def by (rule UN_I) simp
      with v(2) frames_self(1) [of p k] show False by blast
    qed
    then show ?thesis using inb mm_owner(3) [OF i inb] by (cases "obj_alloc (bookkeep s p)") auto
  qed
  moreover have "mm_inv s' M A'" using r(3) S' by (simp add: mm_inv_def)
  ultimately show thesis using that [OF r(1,2) _ r(4) S'(2)] by blast
qed

lemma mm_block_free:
  assumes i: "mm_inv s M A" and b: "(p, k) \<in> A" "obj_alloc (bookkeep s p) = None"
  shows "\<exists>s'. buddy_block_free p s = Inr s' \<and> mm_inv s' M (A - {(p, k)}) \<and> slab_same s s' \<and>
           registered s' = registered s"
proof -
  have o: "buddy_owns (slab_heads (registered s)) M s A" and ok: "slab_ok s M A"
    using i by (simp_all add: mm_inv_def)
  have "p \<notin> buddy_pinned (slab_heads (registered s)) M"
    using mm_not_slab [OF i b(2)] by (auto simp: buddy_pinned_def)
  from buddy.release_spec [OF o b(1) this] obtain s' where s': "buddy_block_free p s = Inr s'"
    "buddy_owns (slab_heads (registered s)) M s' (A - {(p, k)})" "slab_same s s'" by blast
  have "(q, 0) \<in> A - {(p, k)}" if "obj_alloc (bookkeep s q) = Some t" "(q, 0) \<in> A" for q t
    using that b(2) by auto
  then have "slab_ok s' M (A - {(p, k)}) \<and> registered s' = registered s"
    using slab_ok_same [OF ok s'(3), of "A - {(p, k)}"] by blast
  with s' show ?thesis by (auto simp: mm_inv_def)
qed

section \<open>Clients\<close>

text \<open>
  The states a kernel can bring the memory manager into, with the addresses its clients hold:
  after \<open>mm_init\<close>, any sequence of calls of \<open>kmalloc\<close> with any size and of \<open>kfree\<close> with an
  address a client holds.
\<close>

inductive mm_reach :: "mm_state \<Rightarrow> u64 multiset \<Rightarrow> bool" where
  init: "mm_reach (mm_init bss_mm) {#}"
| malloc: "mm_reach s L \<Longrightarrow> kmalloc sz s = Inr (s', a) \<Longrightarrow> mm_reach s' (if a = 0 then L else add_mset a L)"
| free: "mm_reach s L \<Longrightarrow> a \<in># L \<Longrightarrow> kfree a s = Inr s' \<Longrightarrow> mm_reach s' (L - {#a#})"

definition live_on :: "int \<Rightarrow> u64 multiset \<Rightarrow> u64 multiset" where
  "live_on p L = filter_mset (\<lambda>a. addr_pfn a = p) L"

definition live_addr :: "mm_state \<Rightarrow> block set \<Rightarrow> u64 \<Rightarrow> bool" where
  "live_addr s A a \<longleftrightarrow> (let p = addr_pfn a in in_bookkeep p \<and>
     (case obj_alloc (bookkeep s p) of
        Some t \<Rightarrow> obj_slot p (objsize (obj_alloc_pool s t)) a
      | None \<Rightarrow> (\<exists>k. (p, k) \<in> A)))"

definition live_ok :: "mm_state \<Rightarrow> block set \<Rightarrow> u64 multiset \<Rightarrow> bool" where
  "live_ok s A L \<longleftrightarrow> (\<forall>a\<in>#L. live_addr s A a) \<and>
     (\<forall>p t. in_bookkeep p \<longrightarrow> obj_alloc (bookkeep s p) = Some t \<longrightarrow>
        pg_obj_used (bookkeep s p) = int (size (live_on p L))) \<and>
     (\<forall>p k. (p, k) \<in> A \<longrightarrow> obj_alloc (bookkeep s p) = None \<longrightarrow> size (live_on p L) = 1)"

definition heap_inv :: "mm_state \<Rightarrow> (mm_node \<Rightarrow> int list) \<Rightarrow> block set \<Rightarrow> u64 multiset \<Rightarrow> bool" where
  "heap_inv s M A L \<longleftrightarrow> mm_inv s M A \<and> kmalloc_classes s \<and> live_ok s A L"

lemma live_on_simps [simp]:
  "live_on p {#} = {#}"
  "live_on p (add_mset a L) = (if addr_pfn a = p then add_mset a (live_on p L) else live_on p L)"
  "live_on p (L - {#a#}) = live_on p L - (if addr_pfn a = p then {#a#} else {#})"
  by (simp_all add: live_on_def filter_diff_mset)

lemma live_in_block:
  assumes "mm_inv s M A" "live_addr s A a"
  shows "\<exists>k. (addr_pfn a, k) \<in> A"
  using assms mm_owner(3) [OF assms(1), of "addr_pfn a"]
  by (auto simp: live_addr_def Let_def split: option.splits)

lemma page_phy_pfn:
  assumes "in_bookkeep p" "phy_addr (bookkeep s p) = word_of_int (LOW_MEMORY + p * PAGE_SIZE)"
  shows "addr_pfn (phy_addr (bookkeep s p)) = p" "phy_addr (bookkeep s p) \<noteq> 0"
proof -
  have "obj_slot p 4096 (phy_addr (bookkeep s p))"
    unfolding obj_slot_def assms(2) by (intro exI [of _ 0]) simp
  from obj_slot_bounds [OF this _ assms(1)]
  show "addr_pfn (phy_addr (bookkeep s p)) = p" "phy_addr (bookkeep s p) \<noteq> 0" by simp_all
qed

text \<open>A page no handed-out block starts at holds no address of a client.\<close>

lemma live_on_fresh:
  assumes "heap_inv s M A L" "\<And>k. (p, k) \<notin> A"
  shows "live_on p L = {#}"
proof -
  have "addr_pfn a \<noteq> p" if "a \<in># L" for a
    using live_in_block [of s M A a] assms that by (auto simp: heap_inv_def live_ok_def)
  then show ?thesis by (simp add: live_on_def)
qed

lemma live_addr_frame:
  assumes "live_addr s A a" "\<And>q. q \<noteq> p \<Longrightarrow> obj_same (bookkeep s q) (bookkeep s' q)"
    "\<And>u. objsize (obj_alloc_pool s' u) = objsize (obj_alloc_pool s u)" "addr_pfn a \<noteq> p"
    "\<And>q k. (q, k) \<in> A \<Longrightarrow> q \<noteq> p \<Longrightarrow> (q, k) \<in> A'"
  shows "live_addr s' A' a"
  using assms(1,3,4,5) assms(2) [of "addr_pfn a"]
  by (auto simp: live_addr_def Let_def obj_same_def split: option.splits)

text \<open>The rule for a step that touches one page: only that page has to be looked at.\<close>

lemma live_ok_step:
  assumes "live_ok s A L" "\<And>q. q \<noteq> p \<Longrightarrow> obj_same (bookkeep s q) (bookkeep s' q)"
    "\<And>u. objsize (obj_alloc_pool s' u) = objsize (obj_alloc_pool s u)"
    "\<And>q k. q \<noteq> p \<Longrightarrow> (q, k) \<in> A' \<longleftrightarrow> (q, k) \<in> A"
    "\<And>q. q \<noteq> p \<Longrightarrow> live_on q L' = live_on q L"
    "\<And>a. a \<in># live_on p L' \<Longrightarrow> live_addr s' A' a"
    "\<And>t. in_bookkeep p \<Longrightarrow> obj_alloc (bookkeep s' p) = Some t \<Longrightarrow>
       pg_obj_used (bookkeep s' p) = int (size (live_on p L'))"
    "\<And>k. (p, k) \<in> A' \<Longrightarrow> obj_alloc (bookkeep s' p) = None \<Longrightarrow> size (live_on p L') = 1"
  shows "live_ok s' A' L'"
  unfolding live_ok_def
proof (intro conjI ballI allI impI)
  fix a assume a: "a \<in># L'"
  show "live_addr s' A' a"
  proof (cases "addr_pfn a = p")
    case True
    with a show ?thesis by (intro assms(6)) (simp add: live_on_def)
  next
    case False
    have "a \<in># live_on (addr_pfn a) L'" using a by (simp add: live_on_def)
    then have "a \<in># live_on (addr_pfn a) L" using assms(5) [OF False] by simp
    then have "a \<in># L" by (simp add: live_on_def)
    then have "live_addr s A a" using assms(1) by (simp add: live_ok_def)
    then show ?thesis by (rule live_addr_frame [OF _ assms(2,3) False]) (use assms(4) in auto)
  qed
next
  fix q t assume q: "in_bookkeep q" "obj_alloc (bookkeep s' q) = Some t"
  show "pg_obj_used (bookkeep s' q) = int (size (live_on q L'))"
    using assms(1,7) q assms(2,5) [of q] by (cases "q = p") (auto simp: live_ok_def obj_same_def)
next
  fix q k assume q: "(q, k) \<in> A'" "obj_alloc (bookkeep s' q) = None"
  show "size (live_on q L') = 1"
    using assms(1,8) q assms(2,4,5) [of q] by (cases "q = p") (auto simp: live_ok_def obj_same_def)
qed

lemma size_remove_live:
  "a \<in># L \<Longrightarrow> addr_pfn a = p \<Longrightarrow> int (size (live_on p L - {#a#})) = int (size (live_on p L)) - 1"
  using size_Suc_Diff1 [of a "live_on p L"] by (simp add: live_on_def)

lemma kmalloc_classes_frame:
  "kmalloc_classes s \<Longrightarrow> registered s' = registered s \<Longrightarrow>
     (\<And>u. objsize (obj_alloc_pool s' u) = objsize (obj_alloc_pool s u)) \<Longrightarrow> kmalloc_classes s'"
  by (simp add: kmalloc_classes_def)

text \<open>Releasing a block of the buddy system.\<close>

lemma kfree_block:
  assumes h: "heap_inv s M A L" and a: "a \<in># L" and k: "(addr_pfn a, k) \<in> A" and n: "obj_alloc (bookkeep s (addr_pfn a)) = None"
  shows "\<exists>s'. kfree a s = Inr s' \<and> heap_inv s' M (A - {(addr_pfn a, k)}) (L - {#a#})"
proof -
  let ?p = "addr_pfn a"
  have i: "mm_inv s M A" and c: "kmalloc_classes s" and l: "live_ok s A L"
    using h by (simp_all add: heap_inv_def)
  have "live_addr s A a" using l a by (simp add: live_ok_def)
  then have p: "in_bookkeep ?p" by (simp add: live_addr_def Let_def)
  have rest: "live_on q (L - {#a#}) = live_on q L" if "q \<noteq> ?p" for q using that by auto
  obtain s' where s': "buddy_block_free ?p s = Inr s'" "mm_inv s' M (A - {(?p, k)})" "slab_same s s'"
    "registered s' = registered s"
    using mm_block_free [OF i k n] by blast
  have "size (live_on ?p L) = 1" using l k n by (auto simp: live_ok_def)
  then have e: "live_on ?p (L - {#a#}) = {#}" using a size_remove_live [of a L] by simp
  have uniq: "(?p, j) \<notin> A - {(?p, k)}" for j using mm_head_unique [OF i k, of j] by auto
  have same: "obj_same (bookkeep s q) (bookkeep s' q)"
    "objsize (obj_alloc_pool s' u) = objsize (obj_alloc_pool s u)" for q u
    using s'(3) by (simp_all add: obj_same_def slab_same_def)
  have "obj_alloc (bookkeep s' ?p) = None" using n s'(3) by (simp add: slab_same_def)
  then have "live_ok s' (A - {(?p, k)}) (L - {#a#})"
    by (intro live_ok_step [OF l same _ rest]) (use e uniq in auto)
  moreover have "kfree a s = Inr s'" using s'(1) p n by (simp add: kfree_def)
  ultimately show ?thesis using s'(2) kmalloc_classes_frame [OF c s'(4) same(2)]
    by (auto simp: heap_inv_def)
qed

lemma kfree_step:
  assumes h: "heap_inv s M A L" and a: "a \<in># L"
  shows "\<exists>s' M' A'. kfree a s = Inr s' \<and> heap_inv s' M' A' (L - {#a#})"
proof -
  define p where "p = addr_pfn a"
  have i: "mm_inv s M A" and c: "kmalloc_classes s" and l: "live_ok s A L"
    using h by (simp_all add: heap_inv_def)
  have la: "live_addr s A a" using l a by (simp add: live_ok_def)
  then have p: "in_bookkeep p" by (simp add: live_addr_def Let_def p_def)
  have sz: "int (size (live_on p L - {#a#})) = int (size (live_on p L)) - 1"
    using a by (simp add: size_remove_live p_def)
  have pos: "0 < size (live_on p L)" using a by (auto simp: live_on_def p_def nonempty_has_size [symmetric])
  have rest: "live_on q (L - {#a#}) = live_on q L" if "q \<noteq> p" for q using that by (auto simp: p_def)
  have onp: "live_on p (L - {#a#}) = live_on p L - {#a#}" by (simp add: p_def)
  have mem: "b \<in># live_on p (L - {#a#}) \<Longrightarrow> b \<in># L \<and> addr_pfn b = p" for b
    unfolding onp by (auto simp: live_on_def dest: in_diffD)
  show ?thesis
  proof (cases "obj_alloc (bookkeep s p)")
    case (Some t)
    have slot: "obj_slot p (objsize (obj_alloc_pool s t)) a"
      using la Some by (simp add: live_addr_def Let_def p_def)
    have used: "pg_obj_used (bookkeep s p) = int (size (live_on p L))" using l p Some by (simp add: live_ok_def)
    obtain s' M' A' where s': "obj_free a s = Inr s'" "mm_inv s' M' A'" "registered s' = registered s"
      "\<And>q. q \<noteq> p \<Longrightarrow> obj_same (bookkeep s q) (bookkeep s' q)"
      "\<And>u. objsize (obj_alloc_pool s' u) = objsize (obj_alloc_pool s u)"
      and alt: "A' = A \<and> obj_alloc (bookkeep s' p) = Some t \<and>
              pg_obj_used (bookkeep s' p) = pg_obj_used (bookkeep s p) - 1 \<or>
            A' = A - {(p, 0)} \<and> (p, 0) \<in> A \<and> obj_alloc (bookkeep s' p) = None \<and>
              pg_obj_used (bookkeep s p) = 1"
      using obj_free_inv [OF i p Some slot] used pos by auto
    have "live_ok s' A' (L - {#a#})"
      using alt
    proof (elim disjE conjE)
      assume k: "A' = A" "obj_alloc (bookkeep s' p) = Some t"
        "pg_obj_used (bookkeep s' p) = pg_obj_used (bookkeep s p) - 1"
      show ?thesis
      proof (rule live_ok_step [OF l s'(4,5) _ rest])
        fix b assume "b \<in># live_on p (L - {#a#})"
        then have b: "b \<in># L" "addr_pfn b = p" using mem by blast+
        then have "live_addr s A b" using l by (simp add: live_ok_def)
        then show "live_addr s' A' b" using b(2) Some k s'(5) by (simp add: live_addr_def Let_def)
      qed (use k used sz in \<open>simp_all add: p_def\<close>)
    next
      assume k: "A' = A - {(p, 0)}" "(p, 0) \<in> A" "obj_alloc (bookkeep s' p) = None" "pg_obj_used (bookkeep s p) = 1"
      then have e: "live_on p (L - {#a#}) = {#}" using sz used by (simp add: p_def)
      have "(p, j) \<notin> A'" for j using mm_head_unique [OF i k(2), of j] k(1) by auto
      then show ?thesis by (intro live_ok_step [OF l s'(4,5) _ rest]) (use k e in auto)
    qed
    moreover have "kfree a s = Inr s'" using s'(1) p Some by (simp add: kfree_def p_def)
    ultimately show ?thesis using s'(2) kmalloc_classes_frame [OF c s'(3,5)] by (auto simp: heap_inv_def)
  next
    case None
    then obtain k where k: "(p, k) \<in> A" using la by (auto simp: live_addr_def Let_def p_def)
    from kfree_block [OF h a k [unfolded p_def]] None show ?thesis by (auto simp: p_def)
  qed
qed

text \<open>What \<open>kmalloc\<close> may return for a size: a range of that size inside the managed memory.\<close>

definition heap_range :: "int \<Rightarrow> u64 \<Rightarrow> bool" where
  "heap_range sz a \<longleftrightarrow> LOW_MEMORY \<le> uint a \<and> uint a + sz \<le> LOW_MEMORY + PAGE_FRAME_NUM * PAGE_SIZE"

lemma obj_slot_range:
  assumes "obj_slot p z a" "0 < z" "in_bookkeep p" "sz \<le> z"
  shows "heap_range sz a"
proof -
  note b = obj_slot_bounds(3,4) [OF assms(1-3)]
  have "(p + 1) * PAGE_SIZE \<le> PAGE_FRAME_NUM * PAGE_SIZE" "0 \<le> p * PAGE_SIZE"
    using assms(3) by (auto simp: in_bookkeep_def)
  with b assms(4) show ?thesis unfolding heap_range_def by linarith
qed

lemma kmalloc_small_step:
  assumes h: "heap_inv s M A L" and sz: "sz \<le> MAX_ALLOCATAED_OBJ_SIZE"
  obtains (fail) t where "kmalloc sz s = Inl Null_Deref" "t \<in> registered s" "slab_exhausted s M A t"
  | (object) s' a M' A' where "kmalloc sz s = Inr (s', a)" "a \<noteq> 0" "heap_range sz a"
      "heap_inv s' M' A' (add_mset a L)"
proof -
  have i: "mm_inv s M A" and c: "kmalloc_classes s" and l: "live_ok s A L"
    using h by (simp_all add: heap_inv_def)
  obtain k where k: "MIN_KMALLOC_ORDER \<le> k" "k \<le> MAX_KMALLOC_ORDER" "sz \<le> 2 ^ nat k"
    and eq: "kmalloc sz s = obj_allocate (k - MIN_KMALLOC_ORDER) s"
    by (rule kmalloc_small [OF sz, of s])
  let ?t = "k - MIN_KMALLOC_ORDER"
  have t: "?t \<in> registered s" and z: "objsize (obj_alloc_pool s ?t) = 2 ^ nat k"
    using c k by (auto simp: kmalloc_classes_def)
  show thesis
    using i t
  proof (cases rule: obj_allocate_inv)
    case fail
    then show thesis using that(1) t eq by simp
  next
    case (object s' a p M' A')
    note o = obj_slot_bounds [OF object(4) _ object(5)]
    have pfn: "addr_pfn a = p" and nz: "a \<noteq> 0" using o z by simp_all
    have old: "pg_obj_used (bookkeep s' p) = int (size (live_on p L)) + 1"
    proof (cases "A' = A")
      case True
      then show ?thesis using object(5,11,12) l by (auto simp: live_ok_def)
    next
      case False
      then have A': "A' = insert (p, 0) A" "(p, 0) \<notin> A" using object(8) by auto
      have "(p, j) \<notin> A" for j using mm_head_unique [OF object(2,6), of j] A' by auto
      with live_on_fresh [OF h] have "live_on p L = {#}" by blast
      with False object(12) show ?thesis by simp
    qed
    have "live_ok s' A' (add_mset a L)"
    proof (rule live_ok_step [OF l])
      fix b assume "b \<in># live_on p (add_mset a L)"
      then have b: "b = a \<or> b \<in># L \<and> addr_pfn b = p" by (auto simp: live_on_def pfn)
      show "live_addr s' A' b"
      proof (cases "b = a")
        case True
        then show ?thesis using object(4,5,7,9) pfn by (simp add: live_addr_def Let_def)
      next
        case False
        with b have bL: "b \<in># L" "addr_pfn b = p" by auto
        then have lb: "live_addr s A b" using l by (simp add: live_ok_def)
        have "A' = A"
        proof (rule ccontr)
          assume "A' \<noteq> A"
          with old object(12) have "live_on p L = {#}" by simp
          with bL show False by (auto simp: live_on_def)
        qed
        with object(11) lb bL object(5,7,9) show ?thesis by (simp add: live_addr_def Let_def)
      qed
    qed (use object(7-10) old pfn in auto)
    moreover have "kmalloc_classes s'" using object(3,9) by (intro kmalloc_classes_frame [OF c]) auto
    ultimately have "heap_inv s' M' A' (add_mset a L)" using object(2) by (simp add: heap_inv_def)
    moreover have "heap_range sz a" using obj_slot_range [OF object(4) _ object(5)] z k by simp
    ultimately show thesis using that(2) object(1) eq nz by simp
  qed
qed

lemma kmalloc_large_step:
  assumes h: "heap_inv s M A L"
    and sz: "MAX_ALLOCATAED_OBJ_SIZE < sz" "sz \<le> 2 ^ nat (MAX_ORDER + int PAGE_SHIFT)"
  obtains (fail) k where "kmalloc sz s = Inl Null_Deref" "0 \<le> k" "k \<le> MAX_ORDER" "sz \<le> PAGE_SIZE * 2 ^ nat k"
      "\<forall>q. valid_block (q, k) \<longrightarrow> frames (q, k) \<inter> occupied A \<noteq> {}"
      "\<And>j. 0 \<le> j \<Longrightarrow> j < k \<Longrightarrow> PAGE_SIZE * 2 ^ nat j < sz"
  | (block) s' a M' A' p k where "kmalloc sz s = Inr (s', a)" "a \<noteq> 0" "heap_range sz a"
      "heap_inv s' M' A' (add_mset a L)" "A' = insert (p, k) A" "frames (p, k) \<inter> occupied A = {}"
      "uint a = LOW_MEMORY + p * PAGE_SIZE" "0 \<le> k" "\<And>j. 0 \<le> j \<Longrightarrow> j < k \<Longrightarrow> PAGE_SIZE * 2 ^ nat j < sz"
      "valid_block (p, k)" "k \<le> MAX_ORDER" "sz \<le> PAGE_SIZE * 2 ^ nat k"
proof -
  have i: "mm_inv s M A" and c: "kmalloc_classes s" and l: "live_ok s A L"
    using h by (simp_all add: heap_inv_def)
  obtain k where k: "0 \<le> k" "k \<le> MAX_ORDER" "sz \<le> PAGE_SIZE * 2 ^ nat k"
    and lt: "\<And>j. 0 \<le> j \<Longrightarrow> j < k \<Longrightarrow> PAGE_SIZE * 2 ^ nat j < sz" and eq: "kmalloc sz s = big_block k s"
    using kmalloc_large [OF sz, of s thesis] by blast
  obtain s' r A' where alloc: "buddy_block_alloc k s = Inr (s', r)" "spec_alloc k A r A'" "mm_inv s' M A'"
    "slab_same s s'" "registered s' = registered s"
    "\<forall>p. r = Some p \<longrightarrow> in_bookkeep p \<and> obj_alloc (bookkeep s p) = None"
    by (rule mm_block_alloc [OF i k(1,2)])
  show thesis
  proof (cases r)
    case None
    then show thesis using that(1) [OF _ k] lt eq alloc(1,2) by (simp add: big_block_def spec_alloc_def)
  next
    case (Some p)
    let ?a = "phy_addr (bookkeep s' p)"
    have p: "in_bookkeep p" "obj_alloc (bookkeep s p) = None" using alloc(6) Some by simp_all
    have v: "valid_block (p, k)" "frames (p, k) \<inter> occupied A = {}" "A' = insert (p, k) A"
      using alloc(2) Some by (simp_all add: spec_alloc_def)
    have phy: "?a = word_of_int (LOW_MEMORY + p * PAGE_SIZE)"
      using alloc(3) p(1) by (simp add: mm_inv_def slab_ok_def)
    note pf = page_phy_pfn [OF p(1) phy]
    have pA: "(p, j) \<notin> A" for j
    proof
      assume "(p, j) \<in> A"
      then have "p \<in> occupied A" unfolding occupied_def by (rule UN_I) simp
      with v(2) frames_self(1) [of p k] show False by blast
    qed
    have e: "live_on p L = {#}" by (rule live_on_fresh [OF h pA])
    have same: "obj_same (bookkeep s q) (bookkeep s' q)"
      "objsize (obj_alloc_pool s' u) = objsize (obj_alloc_pool s u)" for q u
      using alloc(4) by (simp_all add: obj_same_def slab_same_def)
    have n': "obj_alloc (bookkeep s' p) = None" using p(2) alloc(4) by (simp add: slab_same_def)
    have "live_ok s' A' (add_mset ?a L)"
      by (rule live_ok_step [OF l same]) (use e v(3) pf p n' in \<open>auto simp: live_addr_def Let_def\<close>)
    then have hi: "heap_inv s' M A' (add_mset ?a L)"
      using alloc(3) kmalloc_classes_frame [OF c alloc(5) same(2)] by (simp add: heap_inv_def)
    have p0: "0 \<le> p" "p < 4096" using p(1) by (simp_all add: in_bookkeep_def)
    have ua: "uint ?a = LOW_MEMORY + p * PAGE_SIZE"
      unfolding phy using p0 by (intro uint_u64_of_int) auto
    have "(p + 2 ^ nat k) * PAGE_SIZE \<le> PAGE_FRAME_NUM * PAGE_SIZE"
      using v(1) by (intro mult_right_mono) (auto simp: valid_block_def)
    then have range: "heap_range sz ?a" using k(3) p0 ua by (simp add: heap_range_def algebra_simps)
    have "kmalloc sz s = Inr (s', ?a)" using eq alloc(1) Some by (simp add: big_block_def)
    from that(2) [OF this pf(2) range hi v(3,2) ua k(1) lt v(1) k(2,3)] show thesis .
  qed
qed

end
