(* ===== verification/Kmalloc_Props.thy ===== *)
theory Kmalloc_Props
  imports Kmalloc
begin

text \<open>
  The properties of the dynamic allocator: any sequence of \<open>kmalloc\<close> and \<open>kfree\<close> calls keeps
  its invariant, what \<open>kmalloc\<close> returns, that memory is disjoint as long as nothing has been
  released, and that it no longer is once an object has been.
\<close>

section \<open>Reachable heaps\<close>

lemma mm_init_heap: "\<exists>M. heap_inv (mm_init bss_mm) M {} {#}"
proof -
  obtain M where M: "mm_inv (mm_init bss_mm) M {}" using mm_init_inv(1) by blast
  then have "obj_alloc (bookkeep (mm_init bss_mm) p) = None" if "in_bookkeep p" for p
    using mm_owner(3) [OF M that] by (cases "obj_alloc (bookkeep (mm_init bss_mm) p)") auto
  then have "live_ok (mm_init bss_mm) {} {#}" by (simp add: live_ok_def)
  with M mm_init_inv(2) show ?thesis by (auto simp: heap_inv_def)
qed

lemma kmalloc_step:
  assumes h: "heap_inv s M A L"
  obtains (fail) "kmalloc sz s = Inl Null_Deref" "sz \<le> 2 ^ 21"
      "\<forall>k\<in>{0..MAX_ORDER}. sz \<le> PAGE_SIZE * 2 ^ nat k \<longrightarrow> nr_free s k = 0"
  | (large) "kmalloc sz s = Inr (s, 0)" "2 ^ 21 < sz"
  | (memory) s' a M' A' where "kmalloc sz s = Inr (s', a)" "a \<noteq> 0" "heap_range sz a" "sz \<le> 2 ^ 21"
      "heap_inv s' M' A' (add_mset a L)"
proof -
  have i: "mm_inv s M A" using h by (simp add: heap_inv_def)
  then obtain F where "buddy_inv s F (slab_heads (registered s)) M A"
    by (auto simp: mm_inv_def buddy_owns_def)
  then have c: "buddy_core s F (slab_heads (registered s)) M A" by (simp add: buddy_inv_def)
  have none: "nr_free s j = 0"
    if no: "\<forall>q. valid_block (q, k) \<longrightarrow> frames (q, k) \<inter> occupied A \<noteq> {}" and k: "0 \<le> k" "k \<le> j" "j \<le> MAX_ORDER"
    for k j
  proof (rule ccontr)
    assume "nr_free s j \<noteq> 0"
    then have "F j \<noteq> []" using core_pages(5) [OF c] k by auto
    then obtain p where p: "p \<in> set (F j)" by (cases "F j") auto
    have f: "(p, j) \<in> free_blocks F" using k p by (intro free_blocksI) auto
    have v: "valid_block (p, j)" using core_valid [OF c] f by blast
    have le: "nat k \<le> nat j" "(2::int) ^ nat k \<le> 2 ^ nat j" using k by (simp_all add: nat_mono)
    have b: "0 \<le> p" "p + 2 ^ nat j \<le> PAGE_FRAME_NUM" "2 ^ nat j dvd p" using v by (simp_all add: valid_block_def)
    have "p + 2 ^ nat k \<le> PAGE_FRAME_NUM" using b(2) le(2) by linarith
    then have vk: "valid_block (p, k)"
      using b k dvd_trans [OF le_imp_power_dvd [OF le(1)] b(3)] by (simp add: valid_block_def)
    have sub: "frames (p, k) \<subseteq> frames (p, j)"
      by (rule frames_nested [OF vk v k(2)]) (rule frames_self)+
    have "frames (p, j) \<inter> frames b = {}" if "b \<in> A" for b
    proof (rule ccontr)
      assume "frames (p, j) \<inter> frames b \<noteq> {}"
      then obtain x where "x \<in> frames (p, j)" "x \<in> frames b" by blast
      with core_meet [OF c, of "(p, j)" b x] f that have "(p, j) = b" by blast
      with f that c show False by (auto simp: core_defs)
    qed
    then have "frames (p, k) \<inter> occupied A = {}" using sub by (auto simp: occupied_def)
    with no vk show False by blast
  qed
  consider "sz \<le> MAX_ALLOCATAED_OBJ_SIZE" | "MAX_ALLOCATAED_OBJ_SIZE < sz" "sz \<le> 2 ^ 21" | "2 ^ 21 < sz"
    by linarith
  then show thesis
  proof cases
    case 1
    with h show thesis
    proof (cases rule: kmalloc_small_step)
      case (fail t)
      then have "\<forall>q. valid_block (q, 0) \<longrightarrow> frames (q, 0) \<inter> occupied A \<noteq> {}"
        by (simp add: slab_exhausted_def)
      from none [OF this] fail(1) 1 show thesis by (intro that(1)) auto
    next
      case (object s' a M' A')
      with 1 show thesis by (intro that(3)) auto
    qed
  next
    case 2
    show thesis
    proof (rule kmalloc_large_step [OF h 2(1)])
      show "sz \<le> 2 ^ nat (MAX_ORDER + int PAGE_SHIFT)" using 2 by simp
    next
      fix k assume k: "kmalloc sz s = Inl Null_Deref" "0 \<le> k" "k \<le> MAX_ORDER"
        "\<forall>q. valid_block (q, k) \<longrightarrow> frames (q, k) \<inter> occupied A \<noteq> {}"
        "\<And>j. 0 \<le> j \<Longrightarrow> j < k \<Longrightarrow> PAGE_SIZE * 2 ^ nat j < sz"
      have "nr_free s j = 0" if "j \<in> {0..MAX_ORDER}" "sz \<le> PAGE_SIZE * 2 ^ nat j" for j
        using none [OF k(4,2), of j] k(5) [of j] that by fastforce
      with k(1) 2 show thesis by (intro that(1)) auto
    next
      fix s' a M' A' assume "kmalloc sz s = Inr (s', a)" "a \<noteq> 0" "heap_range sz a"
        "heap_inv s' M' A' (add_mset a L)"
      with 2 show thesis by (intro that(3)) auto
    qed
  next
    case 3
    with kmalloc_too_large [of sz s] show thesis by (intro that(2)) auto
  qed
qed

lemma mm_reach_inv: "mm_reach s L \<Longrightarrow> \<exists>M A. heap_inv s M A L"
proof (induction rule: mm_reach.induct)
  case init
  show ?case using mm_init_heap by blast
next
  case (malloc s L sz s' a)
  then obtain M A where h: "heap_inv s M A L" by blast
  then show ?case
    by (cases rule: kmalloc_step [where sz = sz]) (use malloc.hyps(2) h in auto)
next
  case (free s L a s')
  then obtain M A where h: "heap_inv s M A L" by blast
  from kfree_step [OF h free.hyps(2)] free.hyps(3) show ?case by auto
qed

section \<open>Memory that was never released\<close>

text \<open>
  Calls of \<open>kmalloc\<close> in a row, and the byte ranges they hand out. While nothing is released,
  the objects of a page are its first slots and no page has a free list.
\<close>

fun kmalloc_all :: "int list \<Rightarrow> mm_state \<Rightarrow> (mm_state \<times> u64 list) result" where
  "kmalloc_all [] s = Inr (s, [])"
| "kmalloc_all (sz # szs) s = bind_result (kmalloc sz s) (\<lambda>(s1, a).
     bind_result (kmalloc_all szs s1) (\<lambda>(s2, as). Inr (s2, a # as)))"

abbreviation page_base :: "int \<Rightarrow> int" where
  "page_base p \<equiv> LOW_MEMORY + p * PAGE_SIZE"

definition fresh_region :: "mm_state \<Rightarrow> block set \<Rightarrow> int \<Rightarrow> int \<Rightarrow> int \<Rightarrow> bool" where
  "fresh_region s A p b z \<longleftrightarrow> in_bookkeep p \<and>
     (case obj_alloc (bookkeep s p) of
        Some t \<Rightarrow> z = objsize (obj_alloc_pool s t) \<and>
          (\<exists>i. 0 \<le> i \<and> i < pg_obj_used (bookkeep s p) \<and> b = page_base p + i * z)
      | None \<Rightarrow> (\<exists>k. (p, k) \<in> A \<and> b = page_base p \<and> z = PAGE_SIZE * 2 ^ nat k))"

definition disjoint_ranges :: "int \<Rightarrow> int \<Rightarrow> int \<Rightarrow> int \<Rightarrow> bool" where
  "disjoint_ranges b z c y \<longleftrightarrow> b + z \<le> c \<or> c + y \<le> b"

definition never_freed :: "mm_state \<Rightarrow> bool" where
  "never_freed s \<longleftrightarrow> (\<forall>p t. in_bookkeep p \<longrightarrow> obj_alloc (bookkeep s p) = Some t \<longrightarrow> free (bookkeep s p) = 0)"

lemma slab_used_le:
  assumes i: "mm_inv s M A" and p: "in_bookkeep p" "obj_alloc (bookkeep s p) = Some t"
  shows "pg_obj_used (bookkeep s p) * objsize (obj_alloc_pool s t) \<le> PAGE_SIZE"
    "0 < objsize (obj_alloc_pool s t)"
proof -
  note o = mm_owner [OF i p]
  have a: "sizes_ok s t" "counts_ok s M t" using mm_alloc_ok [OF i o(1)] by (simp_all add: alloc_ok_def)
  then show z: "0 < objsize (obj_alloc_pool s t)" by (rule_tac sizes_ok_pos)
  have n: "0 \<le> obj_per_page (obj_alloc_pool s t)" using sizes_ok_pos(2) [OF a(1)] by linarith
  have "pg_obj_used (bookkeep s p) \<le> obj_per_page (obj_alloc_pool s t)"
    using o(2) counts_okD [OF a(2), of p] n
    by (auto simp: slab_pages_def curr_list_def split: option.splits)
  then have "pg_obj_used (bookkeep s p) * objsize (obj_alloc_pool s t) \<le>
      (PAGE_SIZE div objsize (obj_alloc_pool s t)) * objsize (obj_alloc_pool s t)"
    using z a(1) by (intro mult_right_mono) (auto simp: sizes_ok_def Let_def)
  also have "\<dots> \<le> PAGE_SIZE"
    using z pos_mod_sign [of "objsize (obj_alloc_pool s t)" 4096] by (simp flip: minus_mod_eq_div_mult)
  finally show "pg_obj_used (bookkeep s p) * objsize (obj_alloc_pool s t) \<le> PAGE_SIZE" .
qed

lemma fresh_region_block:
  assumes i: "mm_inv s M A" and f: "fresh_region s A p b z"
  obtains k where "(p, k) \<in> A" "page_base p \<le> b" "b + z \<le> page_base (p + 2 ^ nat k)"
proof (cases "obj_alloc (bookkeep s p)")
  case None
  then show thesis using f that by (auto simp: fresh_region_def algebra_simps)
next
  case (Some t)
  then obtain j where p: "in_bookkeep p" and z: "z = objsize (obj_alloc_pool s t)"
    and j: "0 \<le> j" "j < pg_obj_used (bookkeep s p)" "b = page_base p + j * z"
    using f by (auto simp: fresh_region_def)
  note u = slab_used_le [OF i p Some]
  have "(j + 1) * z \<le> pg_obj_used (bookkeep s p) * z" using j u z by (intro mult_right_mono) auto
  with u z have "j * z + z \<le> 4096" by (simp add: algebra_simps)
  moreover have "0 \<le> j * z" using j u z by simp
  ultimately show thesis using j by (intro that [OF mm_owner(3) [OF i p Some]]) auto
qed

lemma block_bytes_disjoint:
  assumes i: "mm_inv s M A" and b: "(p, k) \<in> A" "(q, j) \<in> A" "p \<noteq> q"
  shows "page_base (p + 2 ^ nat k) \<le> page_base q \<or> page_base (q + 2 ^ nat j) \<le> page_base p"
proof -
  have "buddy_owns (slab_heads (registered s)) M s A" using i by (simp add: mm_inv_def)
  from buddy.blocks_disjoint [OF this b(1,2)] b(3)
  have d: "block_range p (nat k) \<inter> block_range q (nat j) = {}" by (simp add: frames_def)
  have "p + 2 ^ nat k \<le> q \<or> q + 2 ^ nat j \<le> p"
  proof (rule ccontr)
    assume "\<not> ?thesis"
    then have "max p q \<in> block_range p (nat k) \<inter> block_range q (nat j)"
      by (auto simp: block_range_def)
    with d show False by blast
  qed
  then show ?thesis by auto
qed

text \<open>Regions that start in different pages do not meet.\<close>

lemma fresh_regions_disjoint:
  assumes i: "mm_inv s M A" and f: "fresh_region s A p b z" "fresh_region s A q c y" and ne: "p \<noteq> q"
  shows "disjoint_ranges b z c y"
proof -
  obtain k where k: "(p, k) \<in> A" "page_base p \<le> b" "b + z \<le> page_base (p + 2 ^ nat k)"
    using i f(1) by (rule fresh_region_block)
  obtain j where j: "(q, j) \<in> A" "page_base q \<le> c" "c + y \<le> page_base (q + 2 ^ nat j)"
    using i f(2) by (rule fresh_region_block)
  show ?thesis using block_bytes_disjoint [OF i k(1) j(1) ne] k j unfolding disjoint_ranges_def by linarith
qed

lemma slots_disjoint:
  assumes "0 < z" "i < (j::int)"
  shows "disjoint_ranges (b + i * z) z (b + j * z) z"
proof -
  have "(i + 1) * z \<le> j * z" using assms by (intro mult_right_mono) auto
  then show ?thesis by (simp add: disjoint_ranges_def algebra_simps)
qed

lemma kmalloc_fresh_small:
  assumes i: "mm_inv s M A" and c: "kmalloc_classes s" and n: "never_freed s"
    and sz: "sz \<le> MAX_ALLOCATAED_OBJ_SIZE" and r: "kmalloc sz s = Inr (s', a)"
  obtains M' A' p z where "mm_inv s' M' A'" "kmalloc_classes s'" "never_freed s'" "sz \<le> z"
    "fresh_region s' A' p (uint a) z" "\<And>q b y. fresh_region s A q b y \<Longrightarrow>
       fresh_region s' A' q b y \<and> disjoint_ranges (uint a) z b y"
proof -
  obtain k where k: "MIN_KMALLOC_ORDER \<le> k" "k \<le> MAX_KMALLOC_ORDER" "sz \<le> 2 ^ nat k"
    and eq: "kmalloc sz s = obj_allocate (k - MIN_KMALLOC_ORDER) s"
    by (rule kmalloc_small [OF sz, of s])
  let ?t = "k - MIN_KMALLOC_ORDER"
  let ?z = "objsize (obj_alloc_pool s ?t)"
  have t: "?t \<in> registered s" and z: "?z = 2 ^ nat k"
    using c k by (auto simp: kmalloc_classes_def)
  show thesis
    using i t
  proof (cases rule: obj_allocate_inv)
    case fail
    then show thesis using r eq by simp
  next
    case (object s'' a' p M' A')
    then have s'': "s'' = s'" "a' = a" using r eq by simp_all
    note ob = object [unfolded s'']
    let ?u = "pg_obj_used (bookkeep s' p) - 1"
    have z0: "0 < ?z" using z by simp
    have fr: "free (bookkeep s' p) = 0" using ob(13) n ob(5,11) by (auto simp: never_freed_def)
    have a: "a = word_of_int (page_base p + ?u * ?z)" using ob(14) [OF fr] .
    have up: "(?u + 1) * ?z \<le> PAGE_SIZE" using slab_used_le(1) [OF ob(2,5,7)] ob(9) by simp
    have u0: "0 \<le> ?u"
      using ob(12) ob(5) ob(11) mm_alloc_ok [OF i t] counts_okD [of s M ?t p] mm_owner(2) [OF i ob(5)] z0
      by (cases "A' = A")
        (auto simp: alloc_ok_def slab_pages_def curr_list_def dest: sizes_ok_pos split: option.splits)
    have b0: "0 \<le> ?u * ?z" using u0 z0 by simp
    have ua: "uint a = page_base p + ?u * ?z"
    proof -
      have "?u * ?z \<le> PAGE_SIZE" using up z0 unfolding distrib_right by linarith
      moreover have "0 \<le> p * PAGE_SIZE" "p * PAGE_SIZE \<le> 16777216" using ob(5) by (auto simp: in_bookkeep_def)
      moreover have "(2::int) ^ 64 = 18446744073709551616" by simp
      ultimately show ?thesis unfolding a using b0 by (intro uint_u64_of_int) linarith+
    qed
    have reg: "fresh_region s' A' p (uint a) ?z"
      using ob(5,7,9) u0 ua by (auto simp: fresh_region_def intro!: exI [of _ ?u])
    have old: "fresh_region s' A' q b y \<and> disjoint_ranges (uint a) ?z b y" if f: "fresh_region s A q b y" for q b y
    proof (cases "q = p")
      case False
      have sub: "A \<subseteq> A'" using ob(8) by auto
      have f': "fresh_region s' A' q b y" using f False ob(9,10) sub
        by (auto simp: fresh_region_def obj_same_def split: option.splits)
      show ?thesis using f' fresh_regions_disjoint [OF ob(2) reg f'] False by blast
    next
      case True
      have AA: "A' = A"
      proof (rule ccontr)
        assume "A' \<noteq> A"
        then have "(p, 0) \<notin> A" "A' = insert (p, 0) A" using ob(8) by auto
        moreover obtain j where "(p, j) \<in> A" using fresh_region_block [OF i f] True by blast
        ultimately show False using mm_head_unique [OF ob(2,6), of j] by auto
      qed
      then have old: "obj_alloc (bookkeep s p) = Some ?t" "pg_obj_used (bookkeep s p) = ?u" using ob(11,12) by auto
      then obtain j where j: "0 \<le> j" "j < ?u" "b = page_base p + j * ?z" "y = ?z"
        using f True by (auto simp: fresh_region_def)
      then have "fresh_region s' A' q b y" using True ob(5,7,9) by (auto simp: fresh_region_def)
      moreover have "disjoint_ranges b ?z (uint a) ?z" unfolding ua j(3) by (rule slots_disjoint [OF z0 j(2)])
      ultimately show ?thesis using j(4) by (auto simp: disjoint_ranges_def)
    qed
    have nf: "never_freed s'"
      unfolding never_freed_def
    proof (intro allI impI)
      fix q v assume q: "in_bookkeep q" "obj_alloc (bookkeep s' q) = Some v"
      show "free (bookkeep s' q) = 0"
        using n q ob(10) fr by (cases "q = p") (auto simp: never_freed_def obj_same_def)
    qed
    have "kmalloc_classes s'" using ob(3,9) by (intro kmalloc_classes_frame [OF c]) auto
    from that [OF ob(2) this nf _ reg old] z k show thesis by simp
  qed
qed

lemma kmalloc_fresh_large:
  assumes i: "mm_inv s M A" and c: "kmalloc_classes s" and n: "never_freed s"
    and sz: "MAX_ALLOCATAED_OBJ_SIZE < sz" "sz \<le> 2 ^ nat (MAX_ORDER + int PAGE_SHIFT)"
    and r: "kmalloc sz s = Inr (s', a)"
  obtains A' p z where "mm_inv s' M A'" "kmalloc_classes s'" "never_freed s'" "sz \<le> z"
    "fresh_region s' A' p (uint a) z" "\<And>q b y. fresh_region s A q b y \<Longrightarrow>
       fresh_region s' A' q b y \<and> disjoint_ranges (uint a) z b y"
proof -
  obtain k where k: "0 \<le> k" "k \<le> MAX_ORDER" "sz \<le> PAGE_SIZE * 2 ^ nat k"
    and eq: "kmalloc sz s = big_block k s"
    by (rule kmalloc_large [OF sz, of s])
  obtain s1 w A' where w: "buddy_block_alloc k s = Inr (s1, w)" "spec_alloc k A w A'" "mm_inv s1 M A'"
    "slab_same s s1" "registered s1 = registered s"
    "\<forall>p. w = Some p \<longrightarrow> in_bookkeep p \<and> obj_alloc (bookkeep s p) = None"
    by (rule mm_block_alloc [OF i k(1,2)])
  obtain p where p: "w = Some p" "s1 = s'" "a = phy_addr (bookkeep s' p)"
    using r eq w(1) by (cases w) (auto simp: big_block_def)
  have inb: "in_bookkeep p" "obj_alloc (bookkeep s p) = None" using w(6) p(1) by simp_all
  have v: "A' = insert (p, k) A" "frames (p, k) \<inter> occupied A = {}" using w(2) p(1) by (simp_all add: spec_alloc_def)
  have "a = word_of_int (page_base p)" using w(3) p(2,3) inb(1) by (simp add: mm_inv_def slab_ok_def)
  then have ua: "uint a = page_base p"
    using inb(1) uint_u64_of_int [of "page_base p"] by (auto simp: in_bookkeep_def)
  have same: "obj_same (bookkeep s q) (bookkeep s' q)" "objsize (obj_alloc_pool s' u) = objsize (obj_alloc_pool s u)" for q u
    using w(4) p(2) by (simp_all add: obj_same_def slab_same_def)
  have reg: "fresh_region s' A' p (uint a) (PAGE_SIZE * 2 ^ nat k)"
    using inb same(1) [of p] v(1) ua by (auto simp: fresh_region_def obj_same_def)
  have old: "fresh_region s' A' q b y \<and> disjoint_ranges (uint a) (PAGE_SIZE * 2 ^ nat k) b y"
    if f: "fresh_region s A q b y" for q b y
  proof -
    have "q \<noteq> p"
    proof
      assume "q = p"
      then obtain j where "(p, j) \<in> A" using fresh_region_block [OF i f] by blast
      then have "p \<in> occupied A" unfolding occupied_def by (rule UN_I) simp
      with v(2) frames_self(1) [of p k] show False by blast
    qed
    moreover have f': "fresh_region s' A' q b y" using f same(1) [of q] same(2) v(1)
      by (auto simp: fresh_region_def obj_same_def split: option.splits)
    ultimately show ?thesis using fresh_regions_disjoint [OF w(3) [unfolded p(2)] reg f'] by blast
  qed
  have nf: "never_freed s'" using n same(1) by (auto simp: never_freed_def obj_same_def)
  have "kmalloc_classes s'" using w(5) p(2) same(2) by (intro kmalloc_classes_frame [OF c]) auto
  from that [OF w(3) [unfolded p(2)] this nf k(3) reg old] show thesis .
qed

lemma kmalloc_all_fresh:
  assumes "mm_inv s M A" "kmalloc_classes s" "never_freed s" "kmalloc_all szs s = Inr (s', as)"
    "i < length as" "as ! i \<noteq> 0"
  shows "(\<forall>q b y. fresh_region s A q b y \<longrightarrow> disjoint_ranges (uint (as ! i)) (szs ! i) b y) \<and>
    length as = length szs \<and>
    (\<forall>j<i. as ! j \<noteq> 0 \<longrightarrow> disjoint_ranges (uint (as ! i)) (szs ! i) (uint (as ! j)) (szs ! j))"
  using assms
proof (induction szs arbitrary: s M A as i)
  case (Cons sz szs)
  from Cons.prems(4) obtain s1 a as1 where r: "kmalloc sz s = Inr (s1, a)" "kmalloc_all szs s1 = Inr (s', as1)"
    "as = a # as1" by (auto simp: bind_result_Inr_iff)
  have shrink: "disjoint_ranges b x c y" if "disjoint_ranges b z c y" "x \<le> z" for b x c y z
    using that by (auto simp: disjoint_ranges_def)
  have shrink2: "disjoint_ranges c y b x" if "disjoint_ranges c y b z" "x \<le> z" for b x c y z
    using that by (auto simp: disjoint_ranges_def)
  consider (null) "s1 = s" "a = 0" | (mem) M' A' p z where "mm_inv s1 M' A'" "kmalloc_classes s1" "never_freed s1"
      "sz \<le> z" "fresh_region s1 A' p (uint a) z"
      "\<forall>q b y. fresh_region s A q b y \<longrightarrow> fresh_region s1 A' q b y \<and> disjoint_ranges (uint a) z b y"
  proof (cases "sz \<le> 2 ^ 21")
    case False
    then show thesis using that(1) kmalloc_too_large [of sz s] r(1) by simp
  next
    case True
    show thesis
    proof (cases "sz \<le> MAX_ALLOCATAED_OBJ_SIZE")
      case True
      from kmalloc_fresh_small [OF Cons.prems(1-3) this r(1)] that(2) show thesis by metis
    next
      case False
      then have "MAX_ALLOCATAED_OBJ_SIZE < sz" "sz \<le> 2 ^ nat (MAX_ORDER + int PAGE_SHIFT)"
        using True by simp_all
      from kmalloc_fresh_large [OF Cons.prems(1-3) this r(1)] that(2) show thesis by metis
    qed
  qed
  then show ?case
  proof cases
    case null
    then obtain j where j: "i = Suc j" using Cons.prems(6) r(3) by (cases i) auto
    with Cons.IH [OF Cons.prems(1-3), of as1 j] r Cons.prems(5,6) null
    show ?thesis by (auto simp: less_Suc_eq_0_disj)
  next
    case mem
    show ?thesis
    proof (cases i)
      case 0
      have "length as1 = length szs" using r(2) by (induction szs arbitrary: s1 as1) (auto simp: bind_result_Inr_iff)
      with 0 mem(6) r(3) show ?thesis by (auto intro: shrink [OF _ mem(4)])
    next
      case (Suc j)
      note IH = Cons.IH [OF mem(1-3) r(2), of j]
      have j: "j < length as1" "as1 ! j \<noteq> 0" using Suc Cons.prems(5,6) r(3) by auto
      have "disjoint_ranges (uint (as1 ! j)) (szs ! j) b y" if "fresh_region s A q b y" for q b y
        using IH [OF j] mem(6) that by blast
      moreover have "disjoint_ranges (uint (as1 ! j)) (szs ! j) (uint a) sz"
        using IH [OF j] mem(5) shrink2 [OF _ mem(4)] by blast
      ultimately show ?thesis using IH [OF j] Suc r(3) by (auto simp: less_Suc_eq_0_disj)
    qed
  qed
qed simp

section \<open>Properties of the dynamic allocator\<close>

text \<open>
  C6. In every state clients can bring the memory manager into, \<open>kmalloc\<close> of any size ends in
  one of three ways: it returns a non-null address of a range of that size inside the managed
  memory, and the client may go on with it; it returns \<open>NULL\<close> and changes nothing, exactly
  when the size exceeds the largest block; or it dereferences the null pointer the buddy
  system returned, and then no free area has a block that is large enough.
\<close>

theorem kmalloc_correct:
  assumes "mm_reach s L"
  shows "(\<exists>s' a. kmalloc sz s = Inr (s', a) \<and> a \<noteq> 0 \<and> sz \<le> 2 ^ 21 \<and> heap_range sz a \<and>
            mm_reach s' (add_mset a L)) \<or>
         kmalloc sz s = Inr (s, 0) \<and> 2 ^ 21 < sz \<or>
         kmalloc sz s = Inl Null_Deref \<and> sz \<le> 2 ^ 21 \<and>
            (\<forall>k\<in>{0..MAX_ORDER}. sz \<le> PAGE_SIZE * 2 ^ nat k \<longrightarrow> nr_free s k = 0)"
proof -
  obtain M A where "heap_inv s M A L" using mm_reach_inv [OF assms] by blast
  then show ?thesis
  proof (cases rule: kmalloc_step [where sz = sz])
    case (memory s' a M' A')
    have "mm_reach s' (add_mset a L)" using mm_reach.malloc [OF assms memory(1)] memory(2) by simp
    with memory show ?thesis by blast
  qed blast+
qed

theorem kmalloc_correct_witness:
  "(\<exists>s' a. kmalloc 100 (mm_init bss_mm) = Inr (s', a) \<and> a \<noteq> 0 \<and> (100::int) \<le> 2 ^ 21 \<and> heap_range 100 a \<and>
            mm_reach s' {#a#}) \<or>
         kmalloc 100 (mm_init bss_mm) = Inr (mm_init bss_mm, 0) \<and> 2 ^ 21 < (100::int) \<or>
         kmalloc 100 (mm_init bss_mm) = Inl Null_Deref \<and> (100::int) \<le> 2 ^ 21 \<and>
            (\<forall>k\<in>{0..MAX_ORDER}. 100 \<le> PAGE_SIZE * 2 ^ nat k \<longrightarrow> nr_free (mm_init bss_mm) k = 0)"
  by (rule kmalloc_correct [OF mm_reach.init])

text \<open>
  C7. Releasing an address a client holds always returns, whichever allocator it came from and
  whatever the page has to move through (full, partial, empty list, or back to the buddy
  system), and the client no longer holds it.
\<close>

theorem kfree_correct:
  assumes "mm_reach s L" "a \<in># L"
  shows "\<exists>s'. kfree a s = Inr s' \<and> mm_reach s' (L - {#a#})"
proof -
  obtain M A where "heap_inv s M A L" using mm_reach_inv [OF assms(1)] by blast
  from kfree_step [OF this assms(2)] obtain s' where "kfree a s = Inr s'" by blast
  with mm_reach.free [OF assms this] show ?thesis by blast
qed

text \<open>The first allocation after initialisation, as a starting point for concrete runs.\<close>

lemma first_kmalloc:
  assumes "sz \<le> 2 ^ 21"
  shows "\<exists>s a. kmalloc sz (mm_init bss_mm) = Inr (s, a) \<and> a \<noteq> 0 \<and> mm_reach s {#a#} \<and> heap_range sz a"
proof -
  obtain M where h: "heap_inv (mm_init bss_mm) M {} {#}" using mm_init_heap by blast
  have n: "\<not> (\<forall>k\<in>{0..MAX_ORDER}. sz \<le> PAGE_SIZE * 2 ^ nat k \<longrightarrow> nr_free (mm_init bss_mm) k = 0)"
  proof
    assume z: "\<forall>k\<in>{0..MAX_ORDER}. sz \<le> PAGE_SIZE * 2 ^ nat k \<longrightarrow> nr_free (mm_init bss_mm) k = 0"
    obtain F where F: "buddy_inv (mm_init bss_mm) F (slab_heads (registered (mm_init bss_mm))) M {}"
      using h by (auto simp: heap_inv_def mm_inv_def buddy_owns_def)
    then have c: "buddy_core (mm_init bss_mm) F (slab_heads (registered (mm_init bss_mm))) M {}"
      by (simp add: buddy_inv_def)
    have "nr_free (mm_init bss_mm) 9 = 0" using z assms by force
    then have "F 9 = []" using core_pages(5) [OF c] by simp
    moreover have "(0, 9) \<in> free_blocks F" unfolding all_free_coalesced [OF F] by (simp add: top_blocks_def)
    ultimately show False by (simp add: free_blocks_def)
  qed
  from h show ?thesis
  proof (cases rule: kmalloc_step [where sz = sz])
    case (memory s' a M' A')
    then show ?thesis using mm_reach.malloc [OF mm_reach.init memory(1)] by auto
  qed (use n assms in auto)
qed

theorem kfree_correct_witness:
  "\<exists>s a s'. kmalloc 100 (mm_init bss_mm) = Inr (s, a) \<and> kfree a s = Inr s' \<and> mm_reach s' {#}"
proof -
  obtain s a where s: "kmalloc 100 (mm_init bss_mm) = Inr (s, a)" "mm_reach s {#a#}"
    using first_kmalloc [of 100] by auto
  with kfree_correct [OF s(2), of a] show ?thesis by auto
qed

text \<open>
  C8. As long as nothing has been released, the memory \<open>kmalloc\<close> hands out is disjoint: in a
  row of calls from the initial state, the ranges of any two that returned memory do not
  meet.
\<close>

theorem kmalloc_all_disjoint:
  assumes "kmalloc_all szs (mm_init bss_mm) = Inr (s, as)" "j < i" "i < length as" "as ! i \<noteq> 0" "as ! j \<noteq> 0"
  shows "uint (as ! i) + szs ! i \<le> uint (as ! j) \<or> uint (as ! j) + szs ! j \<le> uint (as ! i)"
proof -
  obtain M where M: "mm_inv (mm_init bss_mm) M {}" using mm_init_inv(1) by blast
  have n: "never_freed (mm_init bss_mm)" using mm_owner(3) [OF M] by (auto simp: never_freed_def)
  from kmalloc_all_fresh [OF M mm_init_inv(2) n assms(1,3,4)] assms(2,5)
  show ?thesis by (auto simp: disjoint_ranges_def)
qed

text \<open>A concrete run: two objects of 16 bytes, which come from the same page.\<close>

lemma obj_allocate_current:
  assumes "curr_page (obj_alloc_pool s t) = Some p" "0 \<le> t" "t < MAX_OBJ_ALLOCTOR_NUM"
    "pg_obj_used (bookkeep s p) + 1 < obj_per_page (obj_alloc_pool s t)"
  shows "obj_allocate t s = Inr (obj_count_up t p s, obj_address t p s)"
  using assms by (simp add: obj_allocate_def obj_refill_def obj_retire_full_def obj_count_up_def)

lemma kmalloc_16: "kmalloc 16 s = obj_allocate 1 s"
proof -
  have "(2::int) ^ nat j < 16" if "MIN_KMALLOC_ORDER \<le> j" "j < 4" for j
  proof -
    have "j = 3" using that by simp
    then show ?thesis by simp
  qed
  then have "kmalloc_obj MIN_KMALLOC_ORDER 16 s = obj_allocate (4 - MIN_KMALLOC_ORDER) s"
    by (intro kmalloc_obj_at) auto
  then show ?thesis by (simp add: kmalloc_def)
qed

lemma first_object:
  obtains s p where "obj_allocate 1 (mm_init bss_mm) = Inr (s, word_of_int (page_base p))"
    "curr_page (obj_alloc_pool s 1) = Some p" "pg_obj_used (bookkeep s p) = 1" "free (bookkeep s p) = 0"
    "obj_alloc (bookkeep s p) = Some 1" "in_bookkeep p" "obj_per_page (obj_alloc_pool s 1) = 256"
    "phy_addr (bookkeep s p) = word_of_int (page_base p)" "objsize (obj_alloc_pool s 1) = 16"
proof -
  let ?s = "mm_init bss_mm"
  obtain M where M: "mm_inv ?s M {}" using mm_init_inv(1) by blast
  have t: "1 \<in> registered ?s" "objsize (obj_alloc_pool ?s 1) = 16"
    using mm_init_inv(2) by (auto simp: kmalloc_classes_def)
  have n: "obj_per_page (obj_alloc_pool ?s 1) = 256"
    using mm_alloc_ok [OF M t(1)] t(2) by (simp add: alloc_ok_def sizes_ok_def Let_def)
  have "slab_pages ?s M 1 = []" using mm_page_in(2) [OF M t(1)] by (cases "slab_pages ?s M 1") auto
  then have e: "curr_page (obj_alloc_pool ?s 1) = None" "M (PartialHead 1) = []" "M (EmptyHead 1) = []"
    by (auto simp: slab_pages_def curr_list_def split: option.splits)
  have b: "buddy_owns (slab_heads (registered ?s)) M ?s {}" using M by (simp add: mm_inv_def)
  note le = buddy_owns_list(1) [OF b, of "PartialHead 1"] buddy_owns_list(1) [OF b, of "EmptyHead 1"]
  obtain s1 r A' where r: "buddy_block_alloc 0 ?s = Inr (s1, r)" "spec_alloc 0 {} r A'" "mm_inv s1 M A'" "slab_same ?s s1"
    "registered s1 = registered ?s" "\<forall>p. r = Some p \<longrightarrow> in_bookkeep p \<and> obj_alloc (bookkeep ?s p) = None"
    by (rule mm_block_alloc [OF M, of 0]) simp_all
  have "r \<noteq> None"
  proof
    assume "r = None"
    with r(2) have "\<not> in_bookkeep 0" by (simp add: spec_alloc_def occupied_def)
    then show False by (simp add: in_bookkeep_def)
  qed
  then obtain p where p: "r = Some p" by blast
  have inb: "in_bookkeep p" using r(6) p by simp
  have phy: "phy_addr (bookkeep s1 p) = word_of_int (page_base p)"
    using r(3) inb by (simp add: mm_inv_def slab_ok_def)
  let ?s2 = "upd_alloc 1 (\<lambda>a. a\<lparr>page_used := page_used a + 1, curr_page := Some p\<rparr>)
      (upd_page p (\<lambda>q. q\<lparr>pg_obj_used := 0, free := 0, obj_alloc := Some 1\<rparr>) s1)"
  have "obj_refill 1 ?s = Inr (?s2, p)"
    using e le t(1) r(1) p by (simp add: obj_refill_def obj_new_page_eq upd_alloc_def)
  moreover have pool: "obj_alloc_pool s1 = obj_alloc_pool ?s" using r(4) by (simp add: slab_same_def)
  ultimately have "obj_allocate 1 ?s = Inr (obj_count_up 1 p ?s2, word_of_int (page_base p))"
    using phy n by (simp add: obj_allocate_def obj_retire_full_def obj_count_up_def obj_address_def)
  then show thesis by (rule that) (use inb n t(2) pool phy in \<open>simp_all add: obj_count_up_def\<close>)
qed

theorem kmalloc_all_disjoint_witness:
  "\<exists>s a b. kmalloc_all [16, 16] (mm_init bss_mm) = Inr (s, [a, b]) \<and> a \<noteq> 0 \<and> b \<noteq> 0 \<and>
     (uint b + 16 \<le> uint a \<or> uint a + 16 \<le> uint b)"
proof -
  obtain s p where f: "obj_allocate 1 (mm_init bss_mm) = Inr (s, word_of_int (page_base p))"
    "curr_page (obj_alloc_pool s 1) = Some p" "pg_obj_used (bookkeep s p) = 1" "free (bookkeep s p) = 0"
    "in_bookkeep p" "obj_per_page (obj_alloc_pool s 1) = 256"
    "phy_addr (bookkeep s p) = word_of_int (page_base p)" "objsize (obj_alloc_pool s 1) = 16"
    by (rule first_object)
  let ?a = "word_of_int (page_base p) :: u64" and ?b = "word_of_int (page_base p + 16) :: u64"
  have "kmalloc 16 s = Inr (obj_count_up 1 p s, ?b)"
    using f obj_allocate_current [OF f(2)] by (simp add: kmalloc_16 obj_address_def)
  then have r: "kmalloc_all [16, 16] (mm_init bss_mm) = Inr (obj_count_up 1 p s, [?a, ?b])"
    using f(1) by (simp add: kmalloc_16)
  have "uint ?a = page_base p" "uint ?b = page_base p + 16"
    using f(5) by (intro uint_u64_of_int; auto simp: in_bookkeep_def)+
  then have "uint ?a \<noteq> 0" "uint ?b \<noteq> 0" using f(5) by (auto simp: in_bookkeep_def)
  then have nz: "?a \<noteq> 0" "?b \<noteq> 0" by (auto simp del: wi_hom_syms)
  from kmalloc_all_disjoint [OF r, of 0 1] nz r show ?thesis by auto
qed

text \<open>
  C9. The free list of a page is never advanced: after an object has been released, two
  further allocations return the same address, so two clients hold the same memory.
\<close>

theorem kmalloc_double_allocation: "\<exists>s a. mm_reach s {#a, a#}"
proof -
  obtain s p where f: "obj_allocate 1 (mm_init bss_mm) = Inr (s, word_of_int (page_base p))"
    "curr_page (obj_alloc_pool s 1) = Some p" "pg_obj_used (bookkeep s p) = 1" "free (bookkeep s p) = 0"
    "obj_alloc (bookkeep s p) = Some 1" "in_bookkeep p" "obj_per_page (obj_alloc_pool s 1) = 256"
    "phy_addr (bookkeep s p) = word_of_int (page_base p)" "objsize (obj_alloc_pool s 1) = 16"
    by (rule first_object)
  let ?a = "phy_addr (bookkeep s p)"
  note pf = page_phy_pfn [OF f(6,8)]
  have r1: "mm_reach s {#?a#}" using mm_reach.malloc [OF mm_reach.init, of 16 s ?a] f(1,8) pf(2) by (simp add: kmalloc_16)
  define s2 where "s2 = obj_released ?a 1 p s"
  have "kfree ?a s = Inr s2"
    using pf f(2,3,5,6,7)
    by (simp add: kfree_def obj_free_def s2_def flip: obj_released_def)
      (simp add: obj_full_to_partial_def obj_partial_to_empty_def)
  then have r2: "mm_reach s2 {#}" using mm_reach.free [OF r1, of ?a s2] by simp
  have k2: "kmalloc 16 s2 = Inr (obj_count_up 1 p s2, ?a)"
    using obj_allocate_current [of s2 1 p] f pf(2) by (simp add: kmalloc_16 s2_def obj_address_def)
  have k3: "kmalloc 16 (obj_count_up 1 p s2) = Inr (obj_count_up 1 p (obj_count_up 1 p s2), ?a)"
    using obj_allocate_current [of "obj_count_up 1 p s2" 1 p] f pf(2)
    by (simp add: kmalloc_16 s2_def obj_address_def obj_count_up_def)
  from mm_reach.malloc [OF mm_reach.malloc [OF r2 k2] k3] pf(2) show ?thesis by auto
qed

lemma mm_list_walk:
  assumes i: "mm_inv s M A" and t: "t \<in> registered s" and d: "d \<in> {FullHead t, PartialHead t, EmptyHead t}"
  shows "list_for_each (nat PAGE_FRAME_NUM) (links s) (nxt (links s d)) d = Some (map PageNode (M d))"
proof -
  obtain F where "buddy_core s F (slab_heads (registered s)) M A"
    using i by (auto simp: mm_inv_def buddy_owns_def buddy_inv_def)
  then have "dlists (links s) (area_heads \<union> slab_heads (registered s)) (lists_of F M)" by (simp add: core_defs)
  moreover have dE: "d \<in> slab_heads (registered s)" using d t by auto
  ultimately have "dlist (links s) d (lists_of F M d)" by (simp add: dlists_def)
  moreover have "d \<in> client_heads" using dE slab_heads_client by blast
  ultimately have dl: "dlist (links s) d (map PageNode (M d))" by (simp add: lists_of_client)
  have sub: "set (M d) \<subseteq> set (slab_pages s M t)" using d by (auto simp: slab_pages_def)
  have "distinct (M d)"
    using mm_alloc_ok [OF i t] d by (auto simp: alloc_ok_def owned_ok_def slab_pages_def)
  moreover have "set (M d) \<subseteq> {0..<PAGE_FRAME_NUM}"
    using sub mm_page_in(1) [OF i t] by (auto simp: in_bookkeep_def)
  ultimately have "length (M d) \<le> nat PAGE_FRAME_NUM"
    using card_mono [of "{0..<PAGE_FRAME_NUM}" "set (M d)"] by (simp add: distinct_card)
  then show ?thesis by (intro list_for_each_dlist [OF dl]) simp
qed

text \<open>
  C10. The three lists of an object allocator hold what their names say. In every reachable
  state a walk along a list ends after at most one step per page frame; the pages on the full
  list have no free slot, those on the partial list have some but not all, those on the empty
  list have no object in use, and all of them belong to the allocator.
\<close>

theorem slab_lists_classified:
  assumes "mm_reach s L" "0 \<le> t" "t < 9"
  shows "\<exists>full partial empty.
    list_for_each (nat PAGE_FRAME_NUM) (links s) (nxt (links s (FullHead t))) (FullHead t) = Some (map PageNode full) \<and>
    list_for_each (nat PAGE_FRAME_NUM) (links s) (nxt (links s (PartialHead t))) (PartialHead t) = Some (map PageNode partial) \<and>
    list_for_each (nat PAGE_FRAME_NUM) (links s) (nxt (links s (EmptyHead t))) (EmptyHead t) = Some (map PageNode empty) \<and>
    (\<forall>p\<in>set (full @ partial @ empty). in_bookkeep p \<and> obj_alloc (bookkeep s p) = Some t) \<and>
    (\<forall>p\<in>set full. pg_obj_used (bookkeep s p) = PAGE_SIZE div objsize (obj_alloc_pool s t)) \<and>
    (\<forall>p\<in>set partial. 0 < pg_obj_used (bookkeep s p) \<and>
       pg_obj_used (bookkeep s p) < PAGE_SIZE div objsize (obj_alloc_pool s t)) \<and>
    (\<forall>p\<in>set empty. pg_obj_used (bookkeep s p) = 0)"
proof -
  obtain M A where h: "heap_inv s M A L" using mm_reach_inv [OF assms(1)] by blast
  then have i: "mm_inv s M A" and t: "t \<in> registered s"
    using assms(2,3) by (auto simp: heap_inv_def kmalloc_classes_def)
  have a: "counts_ok s M t" "obj_per_page (obj_alloc_pool s t) = PAGE_SIZE div objsize (obj_alloc_pool s t)"
    using mm_alloc_ok [OF i t] by (auto simp: alloc_ok_def sizes_ok_def Let_def)
  have "in_bookkeep p \<and> obj_alloc (bookkeep s p) = Some t"
    if "p \<in> set (M (FullHead t) @ M (PartialHead t) @ M (EmptyHead t))" for p
    using mm_page_in(1,3) [OF i t, of p] that by (auto simp: slab_pages_def)
  with mm_list_walk [OF i t] counts_okD(1-3) [OF a(1)] show ?thesis
    by (intro exI [of _ "M (FullHead t)"] exI [of _ "M (PartialHead t)"] exI [of _ "M (EmptyHead t)"])
      (auto simp flip: a(2))
qed

theorem slab_lists_classified_witness:
  "\<exists>empty. list_for_each (nat PAGE_FRAME_NUM) (links (mm_init bss_mm))
      (nxt (links (mm_init bss_mm) (EmptyHead 1))) (EmptyHead 1) = Some (map PageNode empty) \<and>
    (\<forall>p\<in>set empty. pg_obj_used (bookkeep (mm_init bss_mm) p) = 0)"
  using slab_lists_classified [OF mm_reach.init, of 1] by fastforce

text \<open>
  C11. The counters of an object allocator are exact: in every reachable state \<open>obj_used\<close> is
  the number of addresses clients hold that lie in its pages.
\<close>

theorem obj_used_exact:
  assumes "mm_reach s L" "0 \<le> t" "t < 9"
  shows "alloc_obj_used (obj_alloc_pool s t) =
    int (size (filter_mset (\<lambda>a. obj_alloc (bookkeep s (addr_pfn a)) = Some t) L))"
proof -
  obtain M A where h: "heap_inv s M A L" using mm_reach_inv [OF assms(1)] by blast
  then have i: "mm_inv s M A" and t: "t \<in> registered s" and l: "live_ok s A L"
    using assms(2,3) by (auto simp: heap_inv_def kmalloc_classes_def)
  let ?P = "set (slab_pages s M t)"
  have own: "in_bookkeep p" "obj_alloc (bookkeep s p) = Some t" if "p \<in> ?P" for p
    using mm_page_in(1,3) [OF i t that] by simp_all
  have inP: "addr_pfn a \<in> ?P \<longleftrightarrow> obj_alloc (bookkeep s (addr_pfn a)) = Some t" if "a \<in># L" for a
  proof -
    have "in_bookkeep (addr_pfn a)" using l that by (auto simp: live_ok_def live_addr_def Let_def)
    then show ?thesis using own mm_owner(2) [OF i, of "addr_pfn a" t] by blast
  qed
  have "alloc_obj_used (obj_alloc_pool s t) = (\<Sum>p\<in>?P. pg_obj_used (bookkeep s p))"
    using mm_alloc_ok [OF i t] by (simp add: alloc_ok_def totals_ok_def)
  also have "\<dots> = (\<Sum>p\<in>?P. int (size (live_on p L)))"
    using l own by (intro sum.cong) (auto simp: live_ok_def)
  also have "\<dots> = int (size (filter_mset (\<lambda>a. addr_pfn a \<in> ?P) L))"
  proof (induction L)
    case (add a L)
    have "(\<Sum>p\<in>?P. int (size (live_on p (add_mset a L)))) =
        (\<Sum>p\<in>?P. int (size (live_on p L)) + (if p = addr_pfn a then 1 else 0))"
      by (intro sum.cong) auto
    also have "\<dots> = (\<Sum>p\<in>?P. int (size (live_on p L))) + (if addr_pfn a \<in> ?P then 1 else 0)"
      by (simp add: sum.distrib sum.delta')
    finally show ?case using add by simp
  qed simp
  also have "filter_mset (\<lambda>a. addr_pfn a \<in> ?P) L = filter_mset (\<lambda>a. obj_alloc (bookkeep s (addr_pfn a)) = Some t) L"
    using inP by (intro filter_mset_cong) auto
  finally show ?thesis .
qed

theorem obj_used_exact_witness: "alloc_obj_used (obj_alloc_pool (mm_init bss_mm) 3) = 0"
  using obj_used_exact [OF mm_reach.init, of 3] by simp

end
