(* ===== verification/Strings.thy ===== *)
theory Strings
  imports Kernel_Prelude "HOL-Library.Signed_Division"
begin

text \<open>
  The string routines of \<open>src/string.c\<close>, \<open>pow\<close> of \<open>src/math.c\<close>, and the \<open>reverse\<close> of the
  bootloader's copy. A \<open>char *\<close> is the array it points to, from the pointed-to byte to the end
  of the array; reading or writing outside is an error. A \<open>char\<close> is unsigned, as on AArch64,
  and \<open>int\<close> arithmetic wraps at 32 bits where it can leave the range.
\<close>

type_synonym cbuf = "char list"

abbreviation NUL :: char where "NUL \<equiv> CHR 0x00"

abbreviation int_of_char :: "char \<Rightarrow> int" where "int_of_char \<equiv> of_char"

definition rd :: "cbuf \<Rightarrow> nat \<Rightarrow> char result" where
  "rd s i = (if i < length s then Inr (s ! i) else Inl Out_Of_Bounds)"

definition wr :: "cbuf \<Rightarrow> nat \<Rightarrow> char \<Rightarrow> cbuf result" where
  "wr s i c = (if i < length s then Inr (s[i := c]) else Inl Out_Of_Bounds)"

lemma wr_length: "wr s i c = Inr s' \<Longrightarrow> length s' = length s"
  by (auto simp: wr_def split: if_splits)

section \<open>The routines\<close>

function strlen_from :: "cbuf \<Rightarrow> nat \<Rightarrow> nat result" where
  "strlen_from s i =
     (if i < length s then if s ! i = NUL then Inr i else strlen_from s (i + 1)
      else Inl Out_Of_Bounds)"
  by pat_completeness auto
termination
  by (relation "measure (\<lambda>(s, i). length s - i)") auto

declare strlen_from.simps [simp del]

definition strlen :: "cbuf \<Rightarrow> nat result" where
  "strlen s = strlen_from s 0"

lemma strlen_from_bound: "strlen_from s i = Inr n \<Longrightarrow> i \<le> n \<and> n < length s \<and> s ! n = NUL"
  by (induction s i rule: strlen_from.induct) (subst (asm) strlen_from.simps, auto split: if_splits)

text \<open>\<open>strcmp\<close>: the loop up to the length of \<open>s1\<close>, then the comparison of the last bytes.\<close>

function strcmp_from :: "cbuf \<Rightarrow> cbuf \<Rightarrow> nat \<Rightarrow> nat \<Rightarrow> int result" where
  "strcmp_from s1 s2 n i =
     bind_result (rd s1 i) (\<lambda>a. bind_result (rd s2 i) (\<lambda>b.
       if i < n then
         if a \<noteq> b then Inr (int_of_char a - int_of_char b) else strcmp_from s1 s2 n (i + 1)
       else Inr (int_of_char a - int_of_char b)))"
  by pat_completeness auto
termination
  by (relation "measure (\<lambda>(s1, s2, n, i). n - i)") auto

definition strcmp :: "cbuf \<Rightarrow> cbuf \<Rightarrow> int result" where
  "strcmp s1 s2 = bind_result (strlen s1) (\<lambda>n. strcmp_from s1 s2 n 0)"

function strset_from :: "cbuf \<Rightarrow> int \<Rightarrow> int \<Rightarrow> nat \<Rightarrow> cbuf result" where
  "strset_from s1 c sz i =
     (if int i < sz then bind_result (wr s1 i (char_of c)) (\<lambda>s. strset_from s c sz (i + 1))
      else Inr s1)"
  by pat_completeness auto
termination
  by (relation "measure (\<lambda>(s, c, n, i). nat (n - int i))") auto

definition strset :: "cbuf \<Rightarrow> int \<Rightarrow> int \<Rightarrow> cbuf result" where
  "strset s1 c sz = strset_from s1 c sz 0"

text \<open>\<open>strlen\<close> is evaluated again in every round; the rounds keep the length.\<close>

function reverse_from :: "cbuf \<Rightarrow> nat \<Rightarrow> cbuf result" where
  "reverse_from s i =
     bind_result (strlen s) (\<lambda>n.
       if i < n div 2 then
         bind_result (rd s (n - i - 1)) (\<lambda>temp.
         bind_result (rd s i) (\<lambda>c.
         bind_result (wr s (n - i - 1) c) (\<lambda>s1.
         bind_result (wr s1 i temp) (\<lambda>s2. reverse_from s2 (i + 1)))))
       else Inr s)"
  by pat_completeness auto
termination
  by (relation "measure (\<lambda>(s, i). length s - i)") (auto dest!: wr_length strlen_from_bound simp: strlen_def)

definition reverse :: "cbuf \<Rightarrow> cbuf result" where
  "reverse s = reverse_from s 0"

lemma sdiv_10_less:
  assumes "x \<noteq> (0::int)"
  shows "\<bar>x sdiv 10\<bar> < \<bar>x\<bar>"
proof -
  have "\<bar>x sdiv 10\<bar> = \<bar>x\<bar> div 10" by (simp add: signed_divide_int_def abs_mult abs_sgn_eq assms)
  also have "\<dots> < \<bar>x\<bar>" using assms by simp
  finally show ?thesis .
qed

function itoa_digits :: "int \<Rightarrow> cbuf \<Rightarrow> nat \<Rightarrow> (cbuf \<times> nat) result" where
  "itoa_digits x str i =
     (if x = 0 then Inr (str, i)
      else bind_result (wr str i (char_of (x smod 10 + int_of_char CHR ''0''))) (\<lambda>str'.
        itoa_digits (x sdiv 10) str' (i + 1)))"
  by pat_completeness auto
termination
  by (relation "measure (\<lambda>(x, str, i). nat \<bar>x\<bar>)") (auto simp: sdiv_10_less)

function itoa_pad :: "int \<Rightarrow> cbuf \<Rightarrow> nat \<Rightarrow> (cbuf \<times> nat) result" where
  "itoa_pad d str i =
     (if int i < d then bind_result (wr str i CHR ''0'') (\<lambda>str'. itoa_pad d str' (i + 1))
      else Inr (str, i))"
  by pat_completeness auto
termination
  by (relation "measure (\<lambda>(d, s, i). nat (d - int i))") auto

definition itoa :: "int \<Rightarrow> cbuf \<Rightarrow> int \<Rightarrow> cbuf result" where
  "itoa x str d =
     bind_result (itoa_digits x str 0) (\<lambda>(str1, i).
     bind_result (itoa_pad d str1 i) (\<lambda>(str2, j).
     bind_result (wr str2 j NUL) reverse))"

text \<open>The sum of \<open>atoi\<close> is kept in an \<open>int\<close>.\<close>

function atoi_from :: "cbuf \<Rightarrow> nat \<Rightarrow> int \<Rightarrow> int result" where
  "atoi_from str i res =
     bind_result (rd str i) (\<lambda>c.
       if c = NUL then Inr res
       else atoi_from str (i + 1)
              (signed_take_bit 31 (res * 10 + int_of_char c - int_of_char CHR ''0'')))"
  by pat_completeness auto
termination
  by (relation "measure (\<lambda>(s, i, r). length s - i)") (auto simp: rd_def split: if_splits)

definition atoi :: "cbuf \<Rightarrow> int result" where
  "atoi str = atoi_from str 0 0"

function strncmp_from :: "cbuf \<Rightarrow> cbuf \<Rightarrow> nat \<Rightarrow> nat \<Rightarrow> int result" where
  "strncmp_from a b n i =
     (if i < n then
        bind_result (rd a i) (\<lambda>x. bind_result (rd b i) (\<lambda>y.
          if x \<noteq> y then Inr (int_of_char x - int_of_char y)
          else if x = NUL then Inr 0 else strncmp_from a b n (i + 1)))
      else Inr 0)"
  by pat_completeness auto
termination
  by (relation "measure (\<lambda>(a, b, n, i). n - i)") auto

definition strncmp :: "cbuf \<Rightarrow> cbuf \<Rightarrow> nat \<Rightarrow> int result" where
  "strncmp a b n = strncmp_from a b n 0"

function strcpy_from :: "cbuf \<Rightarrow> cbuf \<Rightarrow> nat \<Rightarrow> (cbuf \<times> nat) result" where
  "strcpy_from dest src i =
     bind_result (rd src i) (\<lambda>c.
       if c \<noteq> NUL then bind_result (wr dest i c) (\<lambda>d. strcpy_from d src (i + 1))
       else bind_result (wr dest i NUL) (\<lambda>d. Inr (d, i)))"
  by pat_completeness auto
termination
  by (relation "measure (\<lambda>(d, s, i). length s - i)") (auto simp: rd_def split: if_splits)

definition strcpy :: "cbuf \<Rightarrow> cbuf \<Rightarrow> (cbuf \<times> nat) result" where
  "strcpy dest src = strcpy_from dest src 0"

text \<open>The bootloader's \<open>reverse\<close> writes the first byte instead of byte \<open>i\<close>.\<close>

function boot_reverse_from :: "cbuf \<Rightarrow> nat \<Rightarrow> cbuf result" where
  "boot_reverse_from s i =
     bind_result (strlen s) (\<lambda>n.
       if i < n div 2 then
         bind_result (rd s (n - i - 1)) (\<lambda>temp.
         bind_result (rd s 0) (\<lambda>c.
         bind_result (wr s (n - i - 1) c) (\<lambda>s1.
         bind_result (wr s1 0 temp) (\<lambda>s2. boot_reverse_from s2 (i + 1)))))
       else Inr s)"
  by pat_completeness auto
termination
  by (relation "measure (\<lambda>(s, i). length s - i)") (auto dest!: wr_length strlen_from_bound simp: strlen_def)

definition boot_reverse :: "cbuf \<Rightarrow> cbuf result" where
  "boot_reverse s = boot_reverse_from s 0"

definition boot_itoa :: "int \<Rightarrow> cbuf \<Rightarrow> int \<Rightarrow> cbuf result" where
  "boot_itoa x str d =
     bind_result (itoa_digits x str 0) (\<lambda>(str1, i).
     bind_result (itoa_pad d str1 i) (\<lambda>(str2, j).
     bind_result (wr str2 j NUL) boot_reverse))"

text \<open>\<open>pow\<close> of \<open>src/math.c\<close>.\<close>

function pow_from :: "int \<Rightarrow> int \<Rightarrow> int \<Rightarrow> int" where
  "pow_from base exponent res =
     (if 0 < exponent then pow_from base (exponent - 1) (signed_take_bit 31 (res * base)) else res)"
  by pat_completeness auto
termination
  by (relation "measure (\<lambda>(b, e, r). nat e)") auto

definition pow :: "int \<Rightarrow> int \<Rightarrow> int" where
  "pow base exponent = pow_from base exponent 1"

declare strcmp_from.simps [simp del] strset_from.simps [simp del] reverse_from.simps [simp del]
  itoa_digits.simps [simp del] itoa_pad.simps [simp del] atoi_from.simps [simp del]
  strncmp_from.simps [simp del] strcpy_from.simps [simp del] boot_reverse_from.simps [simp del]
  pow_from.simps [simp del]

text \<open>\<open>strset\<close> overwrites the first bytes.\<close>

lemma strset_from_fills:
  assumes "i \<le> n" "n \<le> length s"
  shows "strset_from s c (int n) i = Inr (take i s @ replicate (n - i) (char_of c) @ drop n s)"
  using assms
proof (induction "n - i" arbitrary: i s)
  case 0
  then show ?case by (subst strset_from.simps) simp
next
  case (Suc m)
  then have i: "i < n" "m = n - Suc i" by simp_all
  then have "take (Suc i) (s[i := char_of c]) = take i s @ [char_of c]" using Suc.prems by (simp add: take_Suc_conv_app_nth)
  moreover have "replicate (n - i) (char_of c) = char_of c # replicate (n - Suc i) (char_of c)"
    using i by (simp add: Suc_diff_Suc flip: replicate_Suc)
  moreover have "strset_from s c (int n) i = strset_from (s[i := char_of c]) c (int n) (Suc i)"
    using i Suc.prems by (subst strset_from.simps) (simp add: wr_def)
  ultimately show ?case using Suc.hyps(1) [OF i(2), of "s[i := char_of c]"] i(1) Suc.prems by simp
qed

lemma strset_fills: "int (length s) = n \<Longrightarrow> strset s c n = Inr (replicate (nat n) (char_of c))"
  using strset_from_fills [of 0 "length s" s c] by (auto simp: strset_def)

section \<open>Strings in buffers\<close>

text \<open>\<open>cstr b u\<close>: the array \<open>b\<close> holds the string \<open>u\<close>, with its terminator.\<close>

definition cstr :: "cbuf \<Rightarrow> string \<Rightarrow> bool" where
  "cstr b u \<longleftrightarrow> (\<exists>r. b = u @ NUL # r) \<and> NUL \<notin> set u"

lemma cstr_nth: "cstr b u \<Longrightarrow> i < length u \<Longrightarrow> b ! i = u ! i \<and> i < length b \<and> u ! i \<noteq> NUL"
  by (auto simp: cstr_def nth_append in_set_conv_nth)

lemma cstr_end: "cstr b u \<Longrightarrow> b ! length u = NUL \<and> length u < length b"
  by (auto simp: cstr_def)

lemma strlen_from_cstr:
  assumes "cstr b u" "i \<le> length u"
  shows "strlen_from b i = Inr (length u)"
  using assms
proof (induction "length u - i" arbitrary: i)
  case 0
  then show ?case using cstr_end [of b u] by (subst strlen_from.simps) auto
next
  case (Suc n)
  then have "i < length u" by simp
  with Suc cstr_nth [of b u i] show ?case by (subst strlen_from.simps) auto
qed

lemma strlen_cstr: "cstr b u \<Longrightarrow> strlen b = Inr (length u)"
  by (simp add: strlen_def strlen_from_cstr)

text \<open>Bytes as \<open>strcmp\<close> compares them, and the order of strings it decides.\<close>

fun str_less :: "string \<Rightarrow> string \<Rightarrow> bool" where
  "str_less u [] \<longleftrightarrow> False"
| "str_less [] (d # v) \<longleftrightarrow> True"
| "str_less (c # u) (d # v) \<longleftrightarrow> int_of_char c < int_of_char d \<or> c = d \<and> str_less u v"

lemma of_char_nonneg: "0 \<le> int_of_char c"
  by (metis of_nat_0_le_iff of_nat_of_char)

lemma of_char_NUL: "0 < int_of_char c \<longleftrightarrow> c \<noteq> NUL"
proof -
  have "int_of_char c = 0 \<longleftrightarrow> int_of_char c = int_of_char NUL" by simp
  also have "\<dots> \<longleftrightarrow> c = NUL" by (rule of_char_eq_iff)
  finally show ?thesis using of_char_nonneg [of c] by linarith
qed

lemma strcmp_from_cstr:
  assumes "cstr b1 u" "cstr b2 v" "i \<le> length u" "i \<le> length v"
  shows "\<exists>d. strcmp_from b1 b2 (length u) i = Inr d \<and> (d = 0 \<longleftrightarrow> drop i u = drop i v) \<and>
    (d < 0 \<longleftrightarrow> str_less (drop i u) (drop i v))"
  using assms
proof (induction "length u - i" arbitrary: i)
  case 0
  then have i: "i = length u" by simp
  show ?case
  proof (cases "i < length v")
    case True
    with 0 i cstr_end [of b1 u] cstr_nth [of b2 v i] of_char_NUL [of "v ! i"] show ?thesis
      by (subst strcmp_from.simps) (auto simp: rd_def simp flip: Cons_nth_drop_Suc)
  next
    case False
    with 0 i cstr_end [of b1 u] cstr_end [of b2 v] show ?thesis
      by (subst strcmp_from.simps) (auto simp: rd_def)
  qed
next
  case (Suc n)
  then have i: "i < length u" by simp
  note a = cstr_nth [OF Suc.prems(1) i]
  have du: "drop i u = u ! i # drop (Suc i) u" using i by (simp add: Cons_nth_drop_Suc)
  show ?case
  proof (cases "i < length v")
    case True
    note b = cstr_nth [OF Suc.prems(2) True]
    have dv: "drop i v = v ! i # drop (Suc i) v" using True by (simp add: Cons_nth_drop_Suc)
    show ?thesis
    proof (cases "u ! i = v ! i")
      case eq: True
      from Suc.hyps(1) [of "i + 1"] Suc.hyps(2) Suc.prems i True
      obtain d where "strcmp_from b1 b2 (length u) (i + 1) = Inr d" "d = 0 \<longleftrightarrow> drop (i + 1) u = drop (i + 1) v"
        "d < 0 \<longleftrightarrow> str_less (drop (i + 1) u) (drop (i + 1) v)" by fastforce
      with a b i eq show ?thesis by (subst strcmp_from.simps) (auto simp: rd_def du dv)
    next
      case False
      with a b i show ?thesis by (subst strcmp_from.simps) (auto simp: rd_def du dv)
    qed
  next
    case False
    with Suc.prems have "i = length v" by simp
    with a i cstr_end [OF Suc.prems(2)] of_char_NUL [of "u ! i"] show ?thesis
      by (subst strcmp_from.simps) (auto simp: rd_def du)
  qed
qed

lemma strncmp_from_cstr:
  assumes "cstr b1 u" "cstr b2 v" "i \<le> length u" "i \<le> length v"
  shows "\<exists>d. strncmp_from b1 b2 n i = Inr d \<and> (d = 0 \<longleftrightarrow> take (n - i) (drop i u) = take (n - i) (drop i v))"
  using assms
proof (induction "length u - i" arbitrary: i)
  case 0
  then have i: "i = length u" by simp
  show ?case
  proof (cases "i < length v")
    case True
    with 0 i cstr_end [of b1 u] cstr_nth [of b2 v i] of_char_NUL [of "v ! i"] show ?thesis
      by (subst strncmp_from.simps) (auto simp: rd_def simp flip: Cons_nth_drop_Suc)
  next
    case False
    with 0 i cstr_end [of b1 u] cstr_end [of b2 v] show ?thesis
      by (subst strncmp_from.simps) (auto simp: rd_def)
  qed
next
  case (Suc m)
  then have i: "i < length u" by simp
  note a = cstr_nth [OF Suc.prems(1) i]
  have du: "drop i u = u ! i # drop (Suc i) u" using i by (simp add: Cons_nth_drop_Suc)
  show ?case
  proof (cases "i < n")
    case False
    then show ?thesis by (subst strncmp_from.simps) auto
  next
    case n: True
    then have ni: "n - i = Suc (n - Suc i)" by simp
    show ?thesis
    proof (cases "i < length v")
      case True
      note b = cstr_nth [OF Suc.prems(2) True]
      have dv: "drop i v = v ! i # drop (Suc i) v" using True by (simp add: Cons_nth_drop_Suc)
      from Suc.hyps(1) [of "i + 1"] Suc.hyps(2) Suc.prems i True
      obtain d where "strncmp_from b1 b2 n (i + 1) = Inr d"
        "d = 0 \<longleftrightarrow> take (n - (i + 1)) (drop (i + 1) u) = take (n - (i + 1)) (drop (i + 1) v)" by fastforce
      with a b i n show ?thesis by (subst strncmp_from.simps) (auto simp: rd_def du dv ni)
    next
      case False
      with Suc.prems have "i = length v" by simp
      with a i n cstr_end [OF Suc.prems(2)] of_char_NUL [of "u ! i"] show ?thesis
        by (subst strncmp_from.simps) (auto simp: rd_def du ni)
    qed
  qed
qed

lemma strcpy_from_cstr:
  assumes "cstr src u" "i \<le> length u" "length u < length dest"
  shows "strcpy_from dest src i = Inr (take i dest @ drop i u @ NUL # drop (Suc (length u)) dest, length u)"
  using assms
proof (induction "length u - i" arbitrary: i dest)
  case 0
  then show ?case using cstr_end [of src u]
    by (subst strcpy_from.simps) (auto simp: rd_def wr_def upd_conv_take_nth_drop)
next
  case (Suc m)
  then have i: "i < length u" by simp
  note a = cstr_nth [OF Suc.prems(1) i]
  have du: "drop i u = u ! i # drop (Suc i) u" using i by (simp add: Cons_nth_drop_Suc)
  have "strcpy_from (dest[i := u ! i]) src (i + 1) =
      Inr (take (i + 1) (dest[i := u ! i]) @ drop (i + 1) u @ NUL # drop (Suc (length u)) (dest[i := u ! i]), length u)"
    using Suc.hyps(1) [of "i + 1" "dest[i := u ! i]"] Suc.hyps(2) Suc.prems i by simp
  with a i Suc.prems(3) show ?case
    by (subst strcpy_from.simps) (simp add: rd_def wr_def du take_Suc_conv_app_nth)
qed

section \<open>Reversal\<close>

text \<open>The contents after \<open>i\<close> rounds of the loop: the outer \<open>i\<close> bytes on both sides are swapped.\<close>

definition rev_part :: "string \<Rightarrow> nat \<Rightarrow> string" where
  "rev_part u i = map (\<lambda>j. if j < i \<or> length u - i \<le> j then u ! (length u - 1 - j) else u ! j) [0..<length u]"

lemma rev_part_length [simp]: "length (rev_part u i) = length u"
  by (simp add: rev_part_def)

lemma rev_part_0 [simp]: "rev_part u 0 = u"
  by (rule nth_equalityI) (auto simp: rev_part_def)

lemma rev_part_half: "length u div 2 \<le> i \<Longrightarrow> i \<le> length u \<Longrightarrow> rev_part u i = rev u"
proof (rule nth_equalityI)
  fix j assume i: "length u div 2 \<le> i" "i \<le> length u" and "j < length (rev_part u i)"
  then have j: "j < length u" by simp
  show "rev_part u i ! j = rev u ! j"
  proof (cases "j < i \<or> length u - i \<le> j")
    case False
    with i j have "length u - 1 - j = j" by linarith
    with j False show ?thesis by (simp add: rev_part_def rev_nth)
  qed (use j in \<open>simp add: rev_part_def rev_nth\<close>)
qed simp

lemma rev_part_step:
  assumes "i < length u div 2"
  shows "(rev_part u i)[length u - i - 1 := rev_part u i ! i, i := rev_part u i ! (length u - i - 1)] =
    rev_part u (i + 1)"
proof (rule nth_equalityI)
  fix j assume "j < length ((rev_part u i)[length u - i - 1 := rev_part u i ! i, i := rev_part u i ! (length u - i - 1)])"
  then have j: "j < length u" by simp
  have ne: "length u - i - 1 \<noteq> i" "i < length u" "length u - i - 1 < length u" using assms by linarith+
  consider "j = i" | "j = length u - i - 1" "j \<noteq> i" | "j \<noteq> i" "j \<noteq> length u - i - 1" by blast
  then show "(rev_part u i)[length u - i - 1 := rev_part u i ! i, i := rev_part u i ! (length u - i - 1)] ! j =
      rev_part u (i + 1) ! j"
  proof cases
    case 3
    have "(j < i \<or> length u - i \<le> j) = (j < i + 1 \<or> length u - (i + 1) \<le> j)" using 3 assms j by linarith
    with 3 j show ?thesis by (simp add: rev_part_def nth_list_update)
  qed (use ne j assms in \<open>auto simp: rev_part_def nth_list_update\<close>)
qed simp

lemma rev_part_set: "set (rev_part u i) \<subseteq> set u"
  by (auto simp: rev_part_def intro!: nth_mem)

lemma cstr_update:
  "i < length u \<Longrightarrow> (u @ NUL # r)[i := c] = u[i := c] @ NUL # r"
  by (simp add: list_update_append)

lemma reverse_from_cstr:
  assumes "NUL \<notin> set u" "i \<le> length u div 2"
  shows "reverse_from (rev_part u i @ NUL # r) i = Inr (rev u @ NUL # r)"
  using assms
proof (induction "length u div 2 - i" arbitrary: i)
  case 0
  let ?s = "rev_part u i @ NUL # r"
  have "cstr ?s (rev_part u i)" using rev_part_set [of u i] 0 by (auto simp: cstr_def)
  then have "strlen ?s = Inr (length u)" by (simp add: strlen_cstr)
  moreover have "rev_part u i = rev u" using 0 by (intro rev_part_half) auto
  ultimately show ?case using 0 by (subst reverse_from.simps) simp
next
  case (Suc m)
  let ?s = "rev_part u i @ NUL # r" and ?n = "length u"
  have "cstr ?s (rev_part u i)" using rev_part_set [of u i] Suc.prems by (auto simp: cstr_def)
  then have len: "strlen ?s = Inr ?n" by (simp add: strlen_cstr)
  have i: "i < ?n div 2" "i < ?n" "?n - i - 1 < ?n" using Suc.hyps(2) by linarith+
  have "?s[?n - i - 1 := rev_part u i ! i, i := rev_part u i ! (?n - i - 1)] = rev_part u (i + 1) @ NUL # r"
    using i rev_part_step [OF i(1)] by (simp add: cstr_update del: rev_part_length) (simp add: cstr_update)
  moreover have "reverse_from (rev_part u (i + 1) @ NUL # r) (i + 1) = Inr (rev u @ NUL # r)"
    using Suc by simp
  ultimately show ?case using len i
    by (subst reverse_from.simps) (simp add: rd_def wr_def nth_append)
qed

lemma reverse_cstr: "NUL \<notin> set u \<Longrightarrow> reverse (u @ NUL # r) = Inr (rev u @ NUL # r)"
  using reverse_from_cstr [of u 0 r] by (simp add: reverse_def)

section \<open>Numbers\<close>

definition digit_char :: "int \<Rightarrow> char" where
  "digit_char n = char_of (n + int_of_char CHR ''0'')"

lemma of_char_digit: "0 \<le> n \<Longrightarrow> n < 10 \<Longrightarrow> int_of_char (digit_char n) = n + 48"
  by (simp add: digit_char_def of_char_of)

lemma digit_not_NUL [simp]: "0 \<le> n \<Longrightarrow> n < 10 \<Longrightarrow> digit_char n \<noteq> NUL"
  using of_char_NUL [of "digit_char n"] of_char_digit [of n] by simp

text \<open>The decimal digits of a number, the last one first.\<close>

function low_digits :: "int \<Rightarrow> int list" where
  "low_digits x = (if x \<le> 0 then [] else x mod 10 # low_digits (x div 10))"
  by pat_completeness auto
termination
  by (relation "measure nat") auto

declare low_digits.simps [simp del]

lemma low_digits_range: "set (low_digits x) \<subseteq> {0..<10}"
  by (induction x rule: low_digits.induct) (subst low_digits.simps, auto)

lemma low_digits_value: "0 \<le> x \<Longrightarrow> foldr (\<lambda>d n. n * 10 + d) (low_digits x) 0 = x"
  by (induction x rule: low_digits.induct) (subst low_digits.simps, auto)

lemma low_digits_length: "0 \<le> x \<Longrightarrow> x < 10 ^ n \<Longrightarrow> length (low_digits x) \<le> n"
proof (induction n arbitrary: x)
  case (Suc n)
  show ?case
  proof (cases "x = 0")
    case False
    have "x div 10 < m" if "x < 10 * m" for m :: int using that by linarith
    then have "x div 10 < 10 ^ n" using Suc.prems by simp
    then show ?thesis using Suc False by (subst low_digits.simps) simp
  qed (simp add: low_digits.simps)
qed (simp add: low_digits.simps)

lemma itoa_digits_eq:
  assumes "0 \<le> x" "i + length (low_digits x) \<le> length str"
  shows "itoa_digits x str i =
    Inr (take i str @ map digit_char (low_digits x) @ drop (i + length (low_digits x)) str, i + length (low_digits x))"
  using assms
proof (induction x arbitrary: str i rule: low_digits.induct)
  case (1 x)
  show ?case
  proof (cases "x = 0")
    case True
    then show ?thesis by (subst itoa_digits.simps) (simp add: low_digits.simps)
  next
    case False
    then have l: "low_digits x = x mod 10 # low_digits (x div 10)" using 1 by (subst low_digits.simps) simp
    have s: "x smod 10 = x mod 10" "x sdiv 10 = x div 10"
      using "1.prems"(1) by (simp_all add: smod_mod_positive signed_divide_int_def sgn_if)
    have i: "i < length str" using "1.prems"(2) l by simp
    have "itoa_digits (x div 10) (str[i := digit_char (x mod 10)]) (i + 1) =
      Inr (take (i + 1) (str[i := digit_char (x mod 10)]) @ map digit_char (low_digits (x div 10)) @
        drop (i + 1 + length (low_digits (x div 10))) (str[i := digit_char (x mod 10)]),
        i + 1 + length (low_digits (x div 10)))"
      using "1.IH" [of "i + 1" "str[i := digit_char (x mod 10)]"] False "1.prems" l by simp
    with i False s l show ?thesis
      by (subst itoa_digits.simps) (simp add: wr_def digit_char_def take_Suc_conv_app_nth)
  qed
qed

lemma itoa_pad_eq:
  assumes "max (int i) d \<le> int (length str)"
  shows "itoa_pad d str i = Inr (take i str @ replicate (nat d - i) CHR ''0'' @ drop (max i (nat d)) str, max i (nat d))"
  using assms
proof (induction "nat d - i" arbitrary: i str)
  case 0
  then have "\<not> int i < d" "nat d \<le> i" by linarith+
  then show ?case by (subst itoa_pad.simps) simp
next
  case (Suc m)
  then have i: "int i < d" "i < length str" by linarith+
  have r: "nat d - i = Suc (nat d - (i + 1))" "max i (nat d) = nat d" "max (i + 1) (nat d) = nat d"
    using Suc.hyps(2) by linarith+
  have "itoa_pad d (str[i := CHR ''0'']) (i + 1) = Inr (take (i + 1) (str[i := CHR ''0'']) @
      replicate (nat d - (i + 1)) CHR ''0'' @ drop (max (i + 1) (nat d)) (str[i := CHR ''0'']), max (i + 1) (nat d))"
    using Suc i by (intro Suc.hyps(1)) auto
  with i show ?case unfolding r
    by (subst itoa_pad.simps) (simp add: wr_def take_Suc_conv_app_nth)
qed

definition itoa_text :: "int \<Rightarrow> int \<Rightarrow> int list" where
  "itoa_text x d = replicate (nat d - length (low_digits x)) 0 @ rev (low_digits x)"

lemma itoa_text_range: "set (itoa_text x d) \<subseteq> {0..<10}"
  using low_digits_range [of x] by (auto simp: itoa_text_def)

lemma itoa_text_length: "length (itoa_text x d) = max (nat d) (length (low_digits x))"
  by (simp add: itoa_text_def)

lemma itoa_eq:
  assumes "0 \<le> x" "length (itoa_text x d) < length str"
  shows "itoa x str d = Inr (map digit_char (itoa_text x d) @ NUL # drop (Suc (length (itoa_text x d))) str)"
proof -
  let ?l = "length (low_digits x)" and ?n = "length (itoa_text x d)"
  let ?t = "map digit_char (low_digits x) @ replicate (nat d - ?l) CHR ''0''"
  have n: "?n = max ?l (nat d)" "?n = ?l + (nat d - ?l)" by (auto simp: itoa_text_def)
  have z: "digit_char 0 = CHR ''0''" by code_simp
  have t: "length ?t = ?n" "rev ?t = map digit_char (itoa_text x d)"
    using n z by (simp_all add: itoa_text_def rev_map)
  have nul: "NUL \<notin> set ?t"
    using low_digits_range [of x] digit_not_NUL by (auto simp: subset_iff) (metis digit_not_NUL)
  let ?s1 = "map digit_char (low_digits x) @ drop ?l str"
  have 1: "itoa_digits x str 0 = Inr (?s1, ?l)" using itoa_digits_eq [of x 0 str] assms n by simp
  have "max (int ?l) d \<le> int (length ?s1)" using assms(2) n by auto
  from itoa_pad_eq [OF this] have 2: "itoa_pad d ?s1 ?l = Inr (?t @ drop ?n str, ?n)"
    using n by (simp add: max_def)
  have 3: "wr (?t @ drop ?n str) ?n NUL = Inr (?t @ NUL # drop (Suc ?n) str)"
    using assms(2) t(1) n(2) by (simp add: wr_def list_update_append upd_conv_take_nth_drop)
  show ?thesis
    using 1 2 3 reverse_cstr [OF nul, of "drop (Suc ?n) str"] t(2) by (simp add: itoa_def)
qed

lemma foldl_digits_mono:
  assumes "set ds \<subseteq> {0..<10}" "0 \<le> (r::int)"
  shows "r \<le> foldl (\<lambda>n d. n * 10 + d) r ds"
  using assms
proof (induction ds arbitrary: r)
  case (Cons d ds)
  then have "r \<le> r * 10 + d" "0 \<le> r * 10 + d" by auto
  with Cons.IH [of "r * 10 + d"] Cons.prems show ?case by simp
qed simp

lemma atoi_from_digits:
  assumes "set ds \<subseteq> {0..<10}" "b = pre @ map digit_char ds @ NUL # post" "0 \<le> r"
    "foldl (\<lambda>n d. n * 10 + d) r ds < 2 ^ 31"
  shows "atoi_from b (length pre) r = Inr (foldl (\<lambda>n d. n * 10 + d) r ds)"
  using assms
proof (induction ds arbitrary: pre r)
  case Nil
  then show ?case by (subst atoi_from.simps) (simp add: rd_def)
next
  case (Cons d ds)
  have d: "0 \<le> d" "d < 10" using Cons.prems(1) by auto
  have "r * 10 + d \<le> foldl (\<lambda>n d. n * 10 + d) (r * 10 + d) ds"
    using Cons.prems d by (intro foldl_digits_mono) auto
  then have "signed_take_bit 31 (r * 10 + d) = r * 10 + d"
    using Cons.prems d by (intro signed_take_bit_int_eq_self) auto
  moreover have "atoi_from b (length (pre @ [digit_char d])) (r * 10 + d) = Inr (foldl (\<lambda>n d. n * 10 + d) (r * 10 + d) ds)"
    using Cons.prems d by (intro Cons.IH) auto
  moreover have "r * 10 + int_of_char (digit_char d) - 48 = r * 10 + d"
    using of_char_digit [OF d] by simp
  then have "signed_take_bit 31 (r * 10 + int_of_char (digit_char d) - 48) = signed_take_bit 31 (r * 10 + d)"
    by (rule arg_cong)
  ultimately show ?case using Cons.prems(2) d
    by (subst atoi_from.simps) (simp add: rd_def nth_append)
qed

lemma itoa_text_value:
  assumes "0 \<le> x"
  shows "foldl (\<lambda>n d. n * 10 + d) 0 (itoa_text x d) = x"
proof -
  have "foldl (\<lambda>n d. n * 10 + d) (0::int) (replicate k 0) = 0" for k by (induction k) auto
  then show ?thesis using low_digits_value [OF assms] by (simp add: itoa_text_def foldl_conv_foldr)
qed

section \<open>Properties of the string routines\<close>

text \<open>
  C12. \<open>strcmp\<close> of two strings reads inside their arrays and returns 0 exactly for equal
  strings, a negative number exactly when the first string comes before the second.
\<close>

theorem strcmp_correct:
  assumes "cstr b1 u" "cstr b2 v"
  shows "\<exists>d. strcmp b1 b2 = Inr d \<and> (d = 0 \<longleftrightarrow> u = v) \<and> (d < 0 \<longleftrightarrow> str_less u v)"
  using strcmp_from_cstr [OF assms, of 0] strlen_cstr [OF assms(1)] by (simp add: strcmp_def)

theorem strcmp_correct_witness:
  "\<exists>d. strcmp (''help'' @ [NUL]) (''hello'' @ [NUL]) = Inr d \<and> d > 0"
proof -
  have c: "cstr (''help'' @ [NUL]) ''help''" "cstr (''hello'' @ [NUL]) ''hello''" by (auto simp: cstr_def)
  from strcmp_correct [OF c] show ?thesis by fastforce
qed

text \<open>
  \<open>strcpy\<close> copies the string with its terminator, leaves the rest of the destination as
  it was and returns the length, whenever the destination is large enough.
\<close>

theorem strcpy_correct:
  assumes "cstr src u" "length u < length dest"
  shows "strcpy dest src = Inr (u @ NUL # drop (Suc (length u)) dest, length u)"
  using strcpy_from_cstr [OF assms(1) _ assms(2), of 0] by (simp add: strcpy_def)

theorem strcpy_correct_witness:
  "strcpy ''123456'' (''abc'' @ [NUL]) = Inr (''abc'' @ NUL # ''56'', 3)"
  using strcpy_correct [of "''abc'' @ [NUL]" "''abc''" "''123456''"] by (auto simp: cstr_def)

text \<open>
  C14. \<open>atoi\<close> reads back what \<open>itoa\<close> wrote: for every non-negative \<open>int\<close> and every minimal
  width, in an array of at least eleven bytes that holds the width and the terminator, the
  text is \<open>max(d, number of digits)\<close> digits long and stands for the number.
\<close>

theorem atoi_itoa:
  assumes "0 \<le> x" "x < 2 ^ 31" "11 \<le> length str" "d < int (length str)"
  shows "\<exists>b u. itoa x str d = Inr b \<and> cstr b u \<and> length b = length str \<and>
    length u = max (nat d) (length (low_digits x)) \<and> atoi b = Inr x"
proof -
  have "length (low_digits x) \<le> 10" using assms(1,2) by (intro low_digits_length) auto
  then have n: "length (itoa_text x d) < length str" using assms(3,4) by (simp add: itoa_text_length)
  let ?b = "map digit_char (itoa_text x d) @ NUL # drop (Suc (length (itoa_text x d))) str"
  have "NUL \<notin> digit_char ` {0..<10}" using digit_not_NUL by (force simp: image_iff)
  then have "cstr ?b (map digit_char (itoa_text x d))" using itoa_text_range [of x d] by (auto simp: cstr_def)
  moreover have "atoi ?b = Inr x"
    using atoi_from_digits [OF itoa_text_range, of ?b "[]" x d _ 0] itoa_text_value [OF assms(1)] assms(2)
    by (simp add: atoi_def)
  ultimately show ?thesis using itoa_eq [OF assms(1) n] n itoa_text_length by fastforce
qed

theorem atoi_itoa_witness:
  "\<exists>b. itoa 2024 (replicate 12 NUL) 6 = Inr b \<and> atoi b = Inr 2024"
  using atoi_itoa [of 2024 "replicate 12 NUL" 6] by auto

text \<open>
  The bootloader's copy of \<open>reverse\<close> does not reverse: it scrambles strings of four
  bytes, so its \<open>itoa\<close> writes the wrong number.
\<close>

theorem boot_reverse_wrong:
  "boot_reverse (''abcd'' @ [NUL]) = Inr (''cbda'' @ [NUL]) \<and>
   reverse (''abcd'' @ [NUL]) = Inr (''dcba'' @ [NUL]) \<and>
   bind_result (boot_itoa 1234 (replicate 8 NUL) 0) atoi \<noteq> Inr 1234"
proof (intro conjI)
  show "reverse (''abcd'' @ [NUL]) = Inr (''dcba'' @ [NUL])"
    using reverse_cstr [of "''abcd''" "[]"] by simp
  show "boot_reverse (''abcd'' @ [NUL]) = Inr (''cbda'' @ [NUL])"
    by (simp add: boot_reverse_def boot_reverse_from.simps strlen_def strlen_from.simps rd_def wr_def)
  show "bind_result (boot_itoa 1234 (replicate 8 NUL) 0) atoi \<noteq> Inr 1234"
    by code_simp
qed

end
