(* ===== verification/Printf.thy ===== *)
theory Printf
  imports Strings "HOL-Library.Char_ord"
begin

text \<open>
  The formatted output of \<open>src/printf.c\<close>, without \<open>PRINTF_LONG_SUPPORT\<close>, which no file of the
  build defines. The output function \<open>putf\<close> is a parameter, as it is in the code: it takes a
  byte and the state behind \<open>putp\<close>. An \<open>unsigned int\<close> is a natural number below \<open>2 ^ 32\<close>, with
  the wrap-around written out. The two loops of \<open>ui2a\<close> do not end for the bases 0 and 1; they
  run with a bound of 33 rounds, one more than an \<open>unsigned int\<close> has bits.
\<close>

section \<open>Numbers to text\<close>

fun ui2a_scale :: "nat \<Rightarrow> nat \<Rightarrow> nat \<Rightarrow> nat \<Rightarrow> nat result" where
  "ui2a_scale 0 num base d = Inl No_Return"
| "ui2a_scale (Suc fuel) num base d =
     (if d = 0 then Inl Div_By_Zero
      else if base \<le> num div d then ui2a_scale fuel num base (d * base mod 2 ^ 32)
      else Inr d)"

definition ui2a_digit :: "nat \<Rightarrow> bool \<Rightarrow> char" where
  "ui2a_digit dgt uc =
     char_of (int dgt + (if dgt < 10 then int_of_char CHR ''0''
                         else (if uc then int_of_char CHR ''A'' else int_of_char CHR ''a'') - 10))"

fun ui2a_emit :: "nat \<Rightarrow> nat \<Rightarrow> nat \<Rightarrow> bool \<Rightarrow> nat \<Rightarrow> nat \<Rightarrow> cbuf \<Rightarrow> nat \<Rightarrow> cbuf result" where
  "ui2a_emit 0 num base uc d n bf i = Inl No_Return"
| "ui2a_emit (Suc fuel) num base uc d n bf i =
     (if d = 0 then wr bf i NUL
      else if base = 0 then Inl Div_By_Zero
      else let dgt = num div d; num' = num mod d; d' = d div base
           in if n \<noteq> 0 \<or> 0 < dgt \<or> d' = 0
              then bind_result (wr bf i (ui2a_digit dgt uc)) (\<lambda>bf'.
                     ui2a_emit fuel num' base uc d' (n + 1) bf' (i + 1))
              else ui2a_emit fuel num' base uc d' n bf i)"

definition ui2a :: "nat \<Rightarrow> nat \<Rightarrow> bool \<Rightarrow> cbuf \<Rightarrow> nat \<Rightarrow> cbuf result" where
  "ui2a num base uc bf i =
     bind_result (ui2a_scale 33 num base 1) (\<lambda>d. ui2a_emit 33 num base uc d 0 bf i)"

text \<open>\<open>-num\<close> of the least \<open>int\<close> is the least \<open>int\<close> again; \<open>ui2a\<close> reads it as unsigned.\<close>

definition unsigned_int :: "int \<Rightarrow> nat" where
  "unsigned_int x = nat (take_bit 32 x)"

definition i2a :: "int \<Rightarrow> cbuf \<Rightarrow> cbuf result" where
  "i2a num bf =
     (if num < 0
      then bind_result (wr bf 0 CHR ''-'') (\<lambda>bf'.
             ui2a (unsigned_int (signed_take_bit 31 (- num))) 10 False bf' 1)
      else ui2a (unsigned_int num) 10 False bf 0)"

definition a2d :: "char \<Rightarrow> int" where
  "a2d ch =
     (if CHR ''0'' \<le> ch \<and> ch \<le> CHR ''9'' then int_of_char ch - int_of_char CHR ''0''
      else if CHR ''a'' \<le> ch \<and> ch \<le> CHR ''f'' then int_of_char ch - int_of_char CHR ''a'' + 10
      else if CHR ''A'' \<le> ch \<and> ch \<le> CHR ''F'' then int_of_char ch - int_of_char CHR ''A'' + 10
      else -1)"

fun a2i_loop :: "char \<Rightarrow> cbuf \<Rightarrow> int \<Rightarrow> int \<Rightarrow> (char \<times> cbuf \<times> int) result" where
  "a2i_loop ch p base num =
     (let digit = a2d ch
      in if 0 \<le> digit \<and> \<not> base < digit
         then (case p of
                 [] \<Rightarrow> Inl Out_Of_Bounds
               | c # p' \<Rightarrow> a2i_loop c p' base (signed_take_bit 31 (num * base + digit)))
         else Inr (ch, p, num))"

definition a2i :: "char \<Rightarrow> cbuf \<Rightarrow> int \<Rightarrow> (char \<times> cbuf \<times> int) result" where
  "a2i ch src base = a2i_loop ch src base 0"

section \<open>Output\<close>

type_synonym 's putcf = "char \<Rightarrow> 's \<Rightarrow> 's result"

fun putchw_width :: "int \<Rightarrow> cbuf \<Rightarrow> int result" where
  "putchw_width n [] = Inl Out_Of_Bounds"
| "putchw_width n (c # p) = (if c \<noteq> NUL \<and> 0 < n then putchw_width (n - 1) p else Inr n)"

function putchw_fill :: "'s putcf \<Rightarrow> int \<Rightarrow> char \<Rightarrow> 's \<Rightarrow> 's result" where
  "putchw_fill putf n fc st =
     (if 0 < n then bind_result (putf fc st) (\<lambda>st'. putchw_fill putf (n - 1) fc st') else Inr st)"
  by pat_completeness auto
termination
  by (relation "measure (\<lambda>(p, n, c, s). nat n)") auto

fun putchw_text :: "'s putcf \<Rightarrow> cbuf \<Rightarrow> 's \<Rightarrow> 's result" where
  "putchw_text putf [] st = Inl Out_Of_Bounds"
| "putchw_text putf (ch # bf) st =
     (if ch \<noteq> NUL then bind_result (putf ch st) (putchw_text putf bf) else Inr st)"

definition putchw :: "'s putcf \<Rightarrow> int \<Rightarrow> bool \<Rightarrow> cbuf \<Rightarrow> 's \<Rightarrow> 's result" where
  "putchw putf n z bf st =
     bind_result (putchw_width n bf) (\<lambda>n'.
     bind_result (putchw_fill putf n' (if z then CHR ''0'' else CHR '' '') st) (\<lambda>st'.
     putchw_text putf bf st'))"

text \<open>The arguments of a call, and what \<open>va_arg\<close> makes of them.\<close>

datatype vararg = VInt int | VStr cbuf

fun va_int :: "vararg list \<Rightarrow> (int \<times> vararg list) result" where
  "va_int (VInt x # va) = Inr (x, va)"
| "va_int va = Inl Bad_Arg"

fun va_str :: "vararg list \<Rightarrow> (cbuf \<times> vararg list) result" where
  "va_str (VStr s # va) = Inr (s, va)"
| "va_str va = Inl Bad_Arg"

text \<open>What follows a percent sign: the flag, the width and the conversion character.\<close>

fun next_ch :: "cbuf \<Rightarrow> (char \<times> cbuf) result" where
  "next_ch [] = Inl Out_Of_Bounds"
| "next_ch (c # p) = Inr (c, p)"

definition fmt_spec :: "cbuf \<Rightarrow> (char \<times> cbuf \<times> bool \<times> int) result" where
  "fmt_spec fmt =
     bind_result (next_ch fmt) (\<lambda>(ch, fmt1).
     bind_result (if ch = CHR ''0'' then bind_result (next_ch fmt1) (\<lambda>(c, p). Inr (c, p, True))
                  else Inr (ch, fmt1, False)) (\<lambda>(ch2, fmt2, lz).
     if CHR ''0'' \<le> ch2 \<and> ch2 \<le> CHR ''9''
     then bind_result (a2i ch2 fmt2 10) (\<lambda>(c, p, w). Inr (c, p, lz, w))
     else Inr (ch2, fmt2, lz, 0)))"

definition fmt_number :: "'s putcf \<Rightarrow> (int \<Rightarrow> cbuf \<Rightarrow> cbuf result) \<Rightarrow> bool \<Rightarrow> int \<Rightarrow> cbuf \<Rightarrow>
    vararg list \<Rightarrow> 's \<Rightarrow> (cbuf \<times> vararg list \<times> 's) result" where
  "fmt_number putf conv lz w bf va st =
     bind_result (va_int va) (\<lambda>(x, va').
     bind_result (conv x bf) (\<lambda>bf'.
     bind_result (putchw putf w lz bf' st) (\<lambda>st'. Inr (bf', va', st'))))"

definition fmt_conv :: "'s putcf \<Rightarrow> char \<Rightarrow> bool \<Rightarrow> int \<Rightarrow> cbuf \<Rightarrow> vararg list \<Rightarrow> 's \<Rightarrow>
    (cbuf \<times> vararg list \<times> 's) result" where
  "fmt_conv putf ch lz w bf va st =
     (if ch = CHR ''u'' then
        fmt_number putf (\<lambda>x b. ui2a (unsigned_int x) 10 False b 0) lz w bf va st
      else if ch = CHR ''d'' then
        fmt_number putf (\<lambda>x b. i2a (signed_take_bit 31 x) b) lz w bf va st
      else if ch = CHR ''x'' \<or> ch = CHR ''X'' then
        fmt_number putf (\<lambda>x b. ui2a (unsigned_int x) 16 (ch = CHR ''X'') b 0) lz w bf va st
      else if ch = CHR ''c'' then
        bind_result (va_int va) (\<lambda>(x, va').
        bind_result (putf (char_of x) st) (\<lambda>st'. Inr (bf, va', st')))
      else if ch = CHR ''s'' then
        bind_result (va_str va) (\<lambda>(s, va').
        bind_result (putchw putf w False s st) (\<lambda>st'. Inr (bf, va', st')))
      else if ch = CHR ''%'' then
        bind_result (putf ch st) (\<lambda>st'. Inr (bf, va, st'))
      else Inr (bf, va, st))"

declare a2i_loop.simps [simp del]

lemma a2i_loop_length: "a2i_loop ch p base num = Inr (c, q, n) \<Longrightarrow> length q \<le> length p"
  by (induction ch p base num rule: a2i_loop.induct)
    (subst (asm) (2) a2i_loop.simps, fastforce simp: Let_def split: if_splits list.splits)

lemma next_ch_Inr: "next_ch p = Inr (c, q) \<longleftrightarrow> p = c # q"
  by (cases p) auto

lemma fmt_spec_length:
  assumes "fmt_spec fmt = Inr (ch, fmt', lz, w)"
  shows "length fmt' < length fmt"
proof -
  have len: "a2i c p 10 = Inr (ch, fmt', n) \<Longrightarrow> length fmt' \<le> length p" for c p n
    by (auto simp: a2i_def dest: a2i_loop_length)
  from assms show ?thesis
    unfolding fmt_spec_def bind_result_Inr_iff next_ch_Inr split_paired_Ex prod.case
    by (auto simp: bind_result_Inr_iff next_ch_Inr split: if_splits dest!: len)
qed

text \<open>\<open>tfp_format\<close>; \<open>bf\<close> is its array of twelve bytes.\<close>

function tfp_format :: "'s putcf \<Rightarrow> cbuf \<Rightarrow> cbuf \<Rightarrow> vararg list \<Rightarrow> 's \<Rightarrow> 's result" where
  "tfp_format putf bf fmt va st =
     bind_result (next_ch fmt) (\<lambda>(ch, fmt1).
       if ch = NUL then Inr st
       else if ch \<noteq> CHR ''%'' then
         bind_result (putf ch st) (\<lambda>st'. tfp_format putf bf fmt1 va st')
       else
         bind_result (fmt_spec fmt1) (\<lambda>(c, fmt2, lz, w).
           if c = NUL then Inr st
           else bind_result (fmt_conv putf c lz w bf va st) (\<lambda>(bf', va', st').
             tfp_format putf bf' fmt2 va' st')))"
  by pat_completeness auto
termination
proof (relation "measure (\<lambda>(p, bf, fmt, va, st). length fmt)", goal_cases)
  case (2 putf bf fmt va st x a b xa)
  then show ?case by (cases fmt) auto
next
  case (3 putf bf fmt va st)
  then show ?case by (cases fmt) (auto dest: fmt_spec_length)
qed simp

declare putchw_fill.simps [simp del] tfp_format.simps [simp del]

text \<open>\<open>tfp_sprintf\<close>: the output function \<open>putcp\<close> stores the byte and advances the pointer.\<close>

definition putcp :: "(cbuf \<times> nat) putcf" where
  "putcp c = (\<lambda>(s, i). bind_result (wr s i c) (\<lambda>s'. Inr (s', i + 1)))"

definition tfp_sprintf :: "cbuf \<Rightarrow> cbuf \<Rightarrow> cbuf \<Rightarrow> vararg list \<Rightarrow> (cbuf \<times> nat) result" where
  "tfp_sprintf bf s fmt va = bind_result (tfp_format putcp bf fmt va (s, 0)) (putcp NUL)"

section \<open>Reference texts\<close>

text \<open>The digits of a number, the first one first, without leading zeros.\<close>

function num_text :: "nat \<Rightarrow> nat \<Rightarrow> nat list" where
  "num_text base n = (if n < base \<or> base < 2 then [n] else num_text base (n div base) @ [n mod base])"
  by pat_completeness auto
termination
  by (relation "measure snd") auto

declare num_text.simps [simp del]

fun fix_text :: "nat \<Rightarrow> nat \<Rightarrow> nat \<Rightarrow> nat list" where
  "fix_text base 0 n = [n]"
| "fix_text base (Suc k) n = n div base ^ Suc k # fix_text base k (n mod base ^ Suc k)"

lemma fix_text_snoc:
  assumes "0 < base"
  shows "fix_text base (Suc k) n = fix_text base k (n div base) @ [n mod base]"
proof (induction k arbitrary: n)
  case (Suc k)
  have "n mod base ^ Suc (Suc k) div base = n div base mod base ^ Suc k"
    using assms by (simp add: mod_mult2_eq)
  moreover have "n div base ^ Suc (Suc k) = n div base div base ^ Suc k" by (simp add: div_mult2_eq)
  moreover have "n mod base ^ Suc (Suc k) mod base = n mod base" by (simp add: mod_mod_cancel)
  ultimately show ?case using Suc.IH [of "n mod base ^ Suc (Suc k)"]
    by (simp only: fix_text.simps(2) [of base "Suc k"] fix_text.simps(2) [of base k "n div base"] append_Cons)
qed simp

lemma fix_text_eq:
  assumes "2 \<le> base" "k = 0 \<or> base ^ k \<le> n" "n < base ^ Suc k"
  shows "fix_text base k n = num_text base n"
  using assms
proof (induction k arbitrary: n)
  case 0
  then show ?case by (subst num_text.simps) simp
next
  case (Suc k)
  have ge: "base ^ Suc k \<le> n" using Suc.prems by simp
  have b0: "0 < base" using Suc.prems(1) by simp
  have "base ^ k \<le> n div base" using ge b0 by (simp add: less_eq_div_iff_mult_less_eq mult.commute)
  moreover have "n div base < base ^ Suc k"
    using Suc.prems(3) b0 by (simp add: div_less_iff_less_mult mult.commute)
  ultimately have IH: "fix_text base k (n div base) = num_text base (n div base)"
    using Suc.IH Suc.prems(1) by blast
  have "base ^ 1 \<le> base ^ Suc k" using b0 by (intro power_increasing) auto
  then have "base \<le> base ^ Suc k" by simp
  then have "\<not> n < base" using ge by linarith
  then show ?case using fix_text_snoc [OF b0, of k n] IH Suc.prems(1)
    by (subst num_text.simps) (simp del: fix_text.simps)
qed

lemma fix_text_length [simp]: "length (fix_text base k n) = Suc k"
  by (induction k arbitrary: n) auto

lemma num_text_range: "2 \<le> base \<Longrightarrow> set (num_text base n) \<subseteq> {..<base}"
  by (induction base n rule: num_text.induct) (subst num_text.simps, auto)

lemma num_text_value: "2 \<le> base \<Longrightarrow> foldl (\<lambda>n d. n * base + d) 0 (num_text base n) = n"
  by (induction base n rule: num_text.induct) (subst num_text.simps, auto)

section \<open>ui2a and i2a\<close>

lemma ui2a_scale_eq:
  assumes "2 \<le> base" "num < 2 ^ 32" "33 \<le> fuel + j" "j = 0 \<or> base ^ j \<le> num"
  shows "\<exists>k. ui2a_scale fuel num base (base ^ j) = Inr (base ^ k) \<and> (k = 0 \<or> base ^ k \<le> num) \<and> num < base ^ Suc k"
  using assms(3,4)
proof (induction fuel arbitrary: j)
  case 0
  then have "(2::nat) ^ 33 \<le> 2 ^ j" by (intro power_increasing) auto
  also have "\<dots> \<le> base ^ j" using assms(1) by (rule power_mono) simp
  finally have "(2::nat) ^ 33 \<le> num" using 0 by linarith
  then show ?case using assms(2) by simp
next
  case (Suc fuel)
  have pos: "0 < base ^ j" using assms(1) by simp
  show ?case
  proof (cases "base \<le> num div base ^ j")
    case False
    then have "num < base * base ^ j" using pos div_less_iff_less_mult [OF pos, of num base] by simp
    with False pos Suc.prems show ?thesis by (intro exI [of _ j]) auto
  next
    case True
    then have le: "base ^ Suc j \<le> num" using pos by (simp add: less_eq_div_iff_mult_less_eq)
    then have "base ^ j * base mod 2 ^ 32 = base ^ Suc j" using assms(2) by (simp add: mult.commute)
    with Suc.IH [of "Suc j"] Suc.prems True pos le show ?thesis by simp
  qed
qed

lemma ui2a_emit_eq:
  assumes "2 \<le> base" "num < base ^ Suc k" "Suc (Suc k) \<le> fuel" "0 < n \<or> k = 0 \<or> base ^ k \<le> num"
    "i + Suc k < length bf"
  shows "ui2a_emit fuel num base uc (base ^ k) n bf i =
    Inr (take i bf @ map (\<lambda>d. ui2a_digit d uc) (fix_text base k num) @ NUL # drop (i + Suc (Suc k)) bf)"
  using assms(2-5)
proof (induction k arbitrary: fuel num n bf i)
  case 0
  then obtain f g where f: "fuel = Suc (Suc f)" by (metis Suc_le_D Suc_le_mono)
  have "Suc 0 div base = 0" using assms(1) by simp
  with 0 assms(1) f show ?case
    by (simp add: wr_def upd_conv_take_nth_drop take_Suc_conv_app_nth drop_update_cancel)
next
  case (Suc k)
  then obtain f where f: "fuel = Suc f" "Suc (Suc k) \<le> f" by (cases fuel) auto
  have pos: "0 < base ^ Suc k" "0 < base" using assms(1) by simp_all
  have dgt: "n \<noteq> 0 \<or> 0 < num div base ^ Suc k"
    using Suc.prems(3) pos by (auto simp: div_greater_zero_iff)
  have d': "base ^ Suc k div base = base ^ k" using pos by simp
  let ?bf = "bf[i := ui2a_digit (num div base ^ Suc k) uc]"
  have IH: "ui2a_emit f (num mod base ^ Suc k) base uc (base ^ k) (n + 1) ?bf (i + 1) =
    Inr (take (i + 1) ?bf @ map (\<lambda>d. ui2a_digit d uc) (fix_text base k (num mod base ^ Suc k)) @
      NUL # drop (i + 1 + Suc (Suc k)) ?bf)"
    using Suc.prems(4) f(2) pos by (intro Suc.IH) auto
  have i: "i < length bf" using Suc.prems(4) by simp
  have "ui2a_emit fuel num base uc (base ^ Suc k) n bf i =
      ui2a_emit f (num mod base ^ Suc k) base uc (base ^ k) (n + 1) ?bf (i + 1)"
    using f(1) pos dgt d' i by (auto simp: wr_def Let_def simp del: power_Suc)
  then show ?case using IH i by (simp add: take_Suc_conv_app_nth)
qed

lemma num_text_length:
  assumes "2 \<le> base" "num < base ^ Suc k"
  shows "length (num_text base num) \<le> Suc k"
  using assms(2)
proof (induction k arbitrary: num)
  case 0
  then show ?case by (subst num_text.simps) simp
next
  case (Suc k)
  have "num div base < base ^ Suc k" using Suc.prems assms(1) by (simp add: div_less_iff_less_mult mult.commute)
  with Suc.IH [of "num div base"] show ?case by (subst num_text.simps) simp
qed

lemma ui2a_eq:
  assumes "2 \<le> base" "num < 2 ^ 32" "i + length (num_text base num) < length bf"
  shows "ui2a num base uc bf i = Inr (take i bf @ map (\<lambda>d. ui2a_digit d uc) (num_text base num) @
    NUL # drop (i + Suc (length (num_text base num))) bf)"
proof -
  obtain k where k: "ui2a_scale 33 num base 1 = Inr (base ^ k)" "k = 0 \<or> base ^ k \<le> num" "num < base ^ Suc k"
    using ui2a_scale_eq [OF assms(1,2), of 33 0] by auto
  have t: "fix_text base k num = num_text base num" by (rule fix_text_eq [OF assms(1) k(2,3)])
  then have l: "length (num_text base num) = Suc k" by (metis fix_text_length)
  have "k < 32"
  proof (rule ccontr)
    assume "\<not> k < 32"
    then have "(2::nat) ^ 32 \<le> 2 ^ k" by (intro power_increasing) auto
    also have "\<dots> \<le> base ^ k" using assms(1) by (rule power_mono) simp
    finally show False using k(2) assms(2) \<open>\<not> k < 32\<close> by auto
  qed
  then have "ui2a_emit 33 num base uc (base ^ k) 0 bf i =
    Inr (take i bf @ map (\<lambda>d. ui2a_digit d uc) (fix_text base k num) @ NUL # drop (i + Suc (Suc k)) bf)"
    using k assms(3) l by (intro ui2a_emit_eq [OF assms(1)]) auto
  then show ?thesis using k(1) t l by (simp add: ui2a_def)
qed

definition show_uint :: "nat \<Rightarrow> bool \<Rightarrow> nat \<Rightarrow> string" where
  "show_uint base uc n = map (\<lambda>d. ui2a_digit d uc) (num_text base n)"

definition show_int :: "int \<Rightarrow> string" where
  "show_int x = (if x < 0 then CHR ''-'' # show_uint 10 False (nat (- x)) else show_uint 10 False (nat x))"

lemma ui2a_digit_not_NUL: "d < 16 \<Longrightarrow> ui2a_digit d uc \<noteq> NUL"
  using of_char_NUL [of "ui2a_digit d uc"]
  by (auto simp: ui2a_digit_def of_char_of split: if_splits)

lemma show_uint_not_NUL: "2 \<le> base \<Longrightarrow> base \<le> 16 \<Longrightarrow> NUL \<notin> set (show_uint base uc n)"
proof
  assume b: "2 \<le> base" "base \<le> 16" and "NUL \<in> set (show_uint base uc n)"
  then obtain d where "d \<in> set (num_text base n)" "ui2a_digit d uc = NUL"
    by (auto simp: show_uint_def)
  moreover from this have "d < 16" using num_text_range [OF b(1), of n] b(2) by auto
  ultimately show False using ui2a_digit_not_NUL by blast
qed

lemma show_uint_short:
  assumes "n < 2 ^ 32" "10 \<le> base"
  shows "length (show_uint base uc n) \<le> 10"
proof -
  have "(10::nat) ^ 10 \<le> base ^ 10" using assms(2) by (rule power_mono) simp
  then have "n < base ^ Suc 9" using assms(1) by simp
  from num_text_length [OF _ this] assms(2) show ?thesis by (simp add: show_uint_def)
qed

lemma show_int_short: "- (2 ^ 31) \<le> x \<Longrightarrow> x < 2 ^ 31 \<Longrightarrow> length (show_int x) \<le> 11"
  using show_uint_short [of "nat x" 10 False] show_uint_short [of "nat (- x)" 10 False]
  by (cases "x < 0") (simp_all add: show_int_def zless_nat_eq_int_zless nat_less_iff)

lemma show_int_not_NUL: "NUL \<notin> set (show_int x)"
  using show_uint_not_NUL [of 10 False] by (auto simp: show_int_def)

lemma ui2a_show:
  assumes "n < 2 ^ 32" "10 \<le> base" "length bf = 12"
  shows "ui2a n base uc bf 0 = Inr (show_uint base uc n @ NUL # drop (Suc (length (show_uint base uc n))) bf)"
  using ui2a_eq [of base n 0 bf uc] show_uint_short [OF assms(1,2), of uc] assms
  by (simp add: show_uint_def)

lemma i2a_show:
  assumes "- (2 ^ 31) \<le> x" "x < 2 ^ 31" "length bf = 12"
  shows "i2a x bf = Inr (show_int x @ NUL # drop (Suc (length (show_int x))) bf)"
proof (cases "x < 0")
  case False
  then have "unsigned_int x = nat x" using assms by (simp add: unsigned_int_def take_bit_int_eq_self)
  with False ui2a_show [of "nat x" 10 bf False] assms show ?thesis by (simp add: i2a_def show_int_def)
next
  case True
  have "take_bit 32 (signed_take_bit 31 (- x)) = take_bit 32 (- x)"
    by (simp add: take_bit_signed_take_bit)
  also have "\<dots> = - x" using True assms by (simp add: take_bit_int_eq_self)
  finally have u: "unsigned_int (signed_take_bit 31 (- x)) = nat (- x)" by (simp add: unsigned_int_def)
  let ?n = "num_text 10 (nat (- x))" and ?b = "bf[0 := CHR ''-'']"
  have l: "length ?n \<le> 10" using show_uint_short [of "nat (- x)" 10 False] True assms by (simp add: show_uint_def)
  then have "ui2a (nat (- x)) 10 False ?b 1 =
      Inr (take 1 ?b @ map (\<lambda>d. ui2a_digit d False) ?n @ NUL # drop (1 + Suc (length ?n)) ?b)"
    using True assms by (intro ui2a_eq) auto
  moreover have "take 1 ?b = ''-''" using assms(3) by (cases bf) auto
  ultimately show ?thesis using True u assms(3) by (simp add: i2a_def wr_def show_int_def show_uint_def)
qed

section \<open>Formatting\<close>

text \<open>The output function that collects what it is given.\<close>

definition collect :: "string putcf" where
  "collect c out = Inr (out @ [c])"

lemma putchw_width_eq: "NUL \<notin> set t \<Longrightarrow> putchw_width w (t @ NUL # r) = Inr (if w \<le> 0 then w else max 0 (w - int (length t)))"
proof (induction t arbitrary: w)
  case (Cons c t)
  then have "putchw_width (w - 1) (t @ NUL # r) =
      Inr (if w - 1 \<le> 0 then w - 1 else max 0 (w - 1 - int (length t)))" by simp
  moreover have "(if w - 1 \<le> 0 then w - 1 else max 0 (w - 1 - int (length t))) = max 0 (w - int (length (c # t)))"
    if "0 < w" using that by (cases t) (auto simp: max_def)
  ultimately show ?case using Cons.prems by (cases "0 < w") auto
qed auto

lemma putchw_fill_collect: "putchw_fill collect n c out = Inr (out @ replicate (nat n) c)"
proof (induction "nat n" arbitrary: n out)
  case 0
  then show ?case by (subst putchw_fill.simps) simp
next
  case (Suc m)
  then have n: "0 < n" "nat n = Suc (nat (n - 1))" by linarith+
  from Suc.hyps(1) [of "n - 1" "out @ [c]"] Suc.hyps(2) n show ?case
    by (subst putchw_fill.simps) (simp add: collect_def)
qed

lemma putchw_text_collect: "NUL \<notin> set t \<Longrightarrow> putchw_text collect (t @ NUL # r) out = Inr (out @ t)"
  by (induction t arbitrary: out) (auto simp: collect_def)

definition pad :: "int \<Rightarrow> bool \<Rightarrow> string \<Rightarrow> string" where
  "pad w z t = replicate (nat w - length t) (if z then CHR ''0'' else CHR '' '') @ t"

lemma putchw_collect: "NUL \<notin> set t \<Longrightarrow> putchw collect w z (t @ NUL # r) out = Inr (out @ pad w z t)"
  by (auto simp: putchw_def putchw_width_eq putchw_fill_collect putchw_text_collect pad_def nat_diff_distrib max_def)

text \<open>The width in front of a conversion character.\<close>

lemma a2d_digit: "0 \<le> d \<Longrightarrow> d < 10 \<Longrightarrow> a2d (digit_char d) = d"
proof -
  have "\<forall>d\<in>{0..<10}. a2d (digit_char d) = d" by code_simp
  then show "0 \<le> d \<Longrightarrow> d < 10 \<Longrightarrow> a2d (digit_char d) = d" by simp
qed

definition ends_number :: "char \<Rightarrow> bool" where
  "ends_number c \<longleftrightarrow> a2d c < 0 \<or> 10 < a2d c"

lemma a2i_loop_digits:
  assumes "set (d # ds) \<subseteq> {0..<10}" "ends_number c" "0 \<le> n" "foldl (\<lambda>n d. n * 10 + d) n (d # ds) < 2 ^ 31"
  shows "a2i_loop (digit_char d) (map digit_char ds @ c # rest) 10 n = Inr (c, rest, foldl (\<lambda>n d. n * 10 + d) n (d # ds))"
  using assms
proof (induction ds arbitrary: d n)
  case Nil
  then have d: "a2d (digit_char d) = d" "0 \<le> d" "d < 10" by (auto simp: a2d_digit)
  have "signed_take_bit 31 (n * 10 + d) = n * 10 + d"
    using Nil d by (intro signed_take_bit_int_eq_self) auto
  moreover have "a2i_loop c rest 10 (n * 10 + d) = Inr (c, rest, n * 10 + d)"
    using Nil.prems(2) by (subst a2i_loop.simps) (auto simp: ends_number_def Let_def)
  ultimately show ?case using d by (subst a2i_loop.simps) (simp add: Let_def)
next
  case (Cons e ds)
  then have d: "a2d (digit_char d) = d" "0 \<le> d" "d < 10" by (auto simp: a2d_digit)
  have "n * 10 + d \<le> foldl (\<lambda>n d. n * 10 + d) (n * 10 + d) (e # ds)"
    using Cons.prems d by (intro foldl_digits_mono) auto
  then have "signed_take_bit 31 (n * 10 + d) = n * 10 + d"
    using Cons.prems d by (intro signed_take_bit_int_eq_self) auto
  moreover have "a2i_loop (digit_char e) (map digit_char ds @ c # rest) 10 (n * 10 + d) =
      Inr (c, rest, foldl (\<lambda>n d. n * 10 + d) (n * 10 + d) (e # ds))"
    using Cons.prems d by (intro Cons.IH) auto
  ultimately show ?case using d by (subst a2i_loop.simps) (simp add: Let_def)
qed

lemma digit_char_iff: "CHR ''0'' \<le> c \<and> c \<le> CHR ''9'' \<Longrightarrow> 0 \<le> a2d c \<and> a2d c < 10"
proof -
  have "\<forall>c\<in>set (enum_class.enum :: char list). CHR ''0'' \<le> c \<and> c \<le> CHR ''9'' \<longrightarrow> 0 \<le> a2d c \<and> a2d c < 10"
    by code_simp
  then show "CHR ''0'' \<le> c \<and> c \<le> CHR ''9'' \<Longrightarrow> 0 \<le> a2d c \<and> a2d c < 10"
    by (simp add: enum_UNIV)
qed

definition width_text :: "bool \<Rightarrow> int list \<Rightarrow> string" where
  "width_text z ds = (if z then ''0'' else []) @ map digit_char ds"

definition width_ok :: "int list \<Rightarrow> bool" where
  "width_ok ds \<longleftrightarrow> set ds \<subseteq> {0..<10} \<and> (ds = [] \<or> hd ds \<noteq> 0) \<and> foldl (\<lambda>n d. n * 10 + d) 0 ds < 2 ^ 31"

lemma fmt_spec_width:
  assumes "width_ok ds" "ends_number c"
  shows "fmt_spec (width_text z ds @ c # rest) = Inr (c, rest, z, foldl (\<lambda>n d. n * 10 + d) 0 ds)"
proof -
  have c: "\<not> (CHR ''0'' \<le> c \<and> c \<le> CHR ''9'')" using digit_char_iff [of c] assms(2) by (auto simp: ends_number_def)
  then have c0: "c \<noteq> CHR ''0''" by auto
  show ?thesis
  proof (cases ds)
    case Nil
    then show ?thesis using c c0 by (cases z) (auto simp: fmt_spec_def width_text_def)
  next
    case (Cons d es)
    have "\<forall>d\<in>{1..<10}. CHR ''0'' \<le> digit_char d \<and> digit_char d \<le> CHR ''9'' \<and> digit_char d \<noteq> CHR ''0''" by code_simp
    moreover have "d \<in> {1..<10}" using assms(1) Cons by (auto simp: width_ok_def)
    ultimately have "CHR ''0'' \<le> digit_char d \<and> digit_char d \<le> CHR ''9'' \<and> digit_char d \<noteq> CHR ''0''" by blast
    moreover have "a2i (digit_char d) (map digit_char es @ c # rest) 10 = Inr (c, rest, foldl (\<lambda>n d. n * 10 + d) 0 (d # es))"
      using a2i_loop_digits [of d es c 0 rest] assms Cons by (simp add: a2i_def width_ok_def)
    ultimately show ?thesis using Cons by (cases z) (auto simp: fmt_spec_def width_text_def)
  qed
qed

section \<open>Safety\<close>

text \<open>
  An argument list is good when its strings are terminated. Every step below returns a value
  or the error of an argument that is missing or of the wrong type.
\<close>

definition args_ok :: "vararg list \<Rightarrow> bool" where
  "args_ok va \<longleftrightarrow> (\<forall>s. VStr s \<in> set va \<longrightarrow> NUL \<in> set s)"

lemma cbuf_split: "NUL \<in> set s \<Longrightarrow> \<exists>t r. s = t @ NUL # r \<and> NUL \<notin> set t"
  by (rule split_list_first)

lemma putchw_collect_ok: "NUL \<in> set s \<Longrightarrow> \<exists>out'. putchw collect w z s out = Inr out'"
  using cbuf_split [of s] putchw_collect by blast

lemma unsigned_int_less: "unsigned_int x < 2 ^ 32"
  using take_bit_int_less_exp [of 32 x] by (simp add: unsigned_int_def nat_less_iff)

lemma signed_range: "- (2 ^ 31) \<le> signed_take_bit 31 (x::int)" "signed_take_bit 31 (x::int) < 2 ^ 31"
  using signed_take_bit_int_greater_eq_minus_exp [of 31 x] signed_take_bit_int_less_exp [of 31 x] by auto

lemma fmt_number_fine:
  assumes "\<And>x b. length b = 12 \<Longrightarrow> \<exists>t. conv x b = Inr (t @ NUL # drop (Suc (length t)) b) \<and> NUL \<notin> set t \<and> length t < 12"
    "length bf = 12" "args_ok va"
  shows "fmt_number collect conv lz w bf va out = Inl Bad_Arg \<or>
    (\<exists>bf' va' out'. fmt_number collect conv lz w bf va out = Inr (bf', va', out') \<and> length bf' = 12 \<and> args_ok va')"
proof (cases "va_int va")
  case (Inl e)
  then have "e = Bad_Arg" by (cases va rule: va_int.cases) auto
  with Inl show ?thesis by (simp add: fmt_number_def)
next
  case (Inr p)
  then obtain x va' where p: "va_int va = Inr (x, va')" "va = VInt x # va'"
    by (cases va rule: va_int.cases) auto
  obtain t where t: "conv x bf = Inr (t @ NUL # drop (Suc (length t)) bf)" "NUL \<notin> set t" "length t < 12"
    using assms(1,2) by blast
  have "args_ok va'" using assms(3) p(2) by (auto simp: args_ok_def)
  with p t assms(2) putchw_collect [OF t(2), of w lz "drop (Suc (length t)) bf" out] show ?thesis
    by (simp add: fmt_number_def)
qed

lemma fmt_conv_fine:
  assumes "length bf = 12" "args_ok va"
  shows "fmt_conv collect c lz w bf va out = Inl Bad_Arg \<or>
    (\<exists>bf' va' out'. fmt_conv collect c lz w bf va out = Inr (bf', va', out') \<and> length bf' = 12 \<and> args_ok va')"
proof -
  have u: "\<exists>t. ui2a (unsigned_int x) base uc b 0 = Inr (t @ NUL # drop (Suc (length t)) b) \<and> NUL \<notin> set t \<and> length t < 12"
    if "length b = 12" "base = 10 \<or> base = 16" for x b base uc
    using ui2a_show [OF unsigned_int_less [of x], of base b uc] show_uint_short [OF unsigned_int_less [of x], of base uc]
      show_uint_not_NUL [of base uc "unsigned_int x"] that
    by (intro exI [of _ "show_uint base uc (unsigned_int x)"]) auto
  have d: "\<exists>t. i2a (signed_take_bit 31 x) b = Inr (t @ NUL # drop (Suc (length t)) b) \<and> NUL \<notin> set t \<and> length t < 12"
    if "length b = 12" for x b
    using i2a_show [OF signed_range that, of x] show_int_short [OF signed_range, of x] show_int_not_NUL by force
  have s: "va_str va = Inl Bad_Arg \<or> (\<exists>s va'. va_str va = Inr (s, va') \<and> NUL \<in> set s \<and> args_ok va')"
    using assms(2) by (cases va rule: va_str.cases) (auto simp: args_ok_def)
  have i: "va_int va = Inl Bad_Arg \<or> (\<exists>x va'. va_int va = Inr (x, va') \<and> args_ok va')"
    using assms(2) by (cases va rule: va_int.cases) (auto simp: args_ok_def)
  note n = fmt_number_fine [OF _ assms]
  consider "c = CHR ''u''" | "c = CHR ''d''" | "c = CHR ''x'' \<or> c = CHR ''X''" | "c = CHR ''c''" | "c = CHR ''s''"
    | "c \<notin> {CHR ''u'', CHR ''d'', CHR ''x'', CHR ''X'', CHR ''c'', CHR ''s''}" by blast
  then show ?thesis
  proof cases
    case 1
    with u n show ?thesis by (simp add: fmt_conv_def)
  next
    case 2
    with d n show ?thesis by (simp add: fmt_conv_def)
  next
    case 3
    then show ?thesis using u n by (auto simp: fmt_conv_def)
  next
    case 4
    with i assms show ?thesis by (auto simp: fmt_conv_def collect_def)
  next
    case 5
    from s consider "va_str va = Inl Bad_Arg"
      | s va' out' where "va_str va = Inr (s, va')" "args_ok va'" "putchw collect w False s out = Inr out'"
      using putchw_collect_ok by blast
    then show ?thesis using 5 assms by cases (simp_all add: fmt_conv_def)
  next
    case 6
    with assms show ?thesis by (auto simp: fmt_conv_def collect_def)
  qed
qed

lemma a2i_loop_fine:
  "NUL \<in> set (ch # p) \<Longrightarrow> \<exists>c q n. a2i_loop ch p base num = Inr (c, q, n) \<and> (c = NUL \<or> NUL \<in> set q)"
proof (induction ch p base num rule: a2i_loop.induct)
  case (1 ch p base num)
  show ?case
  proof (cases "0 \<le> a2d ch \<and> \<not> base < a2d ch")
    case False
    with "1.prems" show ?thesis by (subst a2i_loop.simps) (auto simp: Let_def)
  next
    case True
    have "a2d NUL = -1" by code_simp
    with True have "ch \<noteq> NUL" by auto
    with "1.prems" obtain c p' where p: "p = c # p'" "NUL \<in> set (c # p')" by (cases p) auto
    from "1.IH" [OF refl _ p(1) p(2)] True show ?thesis
      by (subst a2i_loop.simps) (simp add: Let_def p(1))
  qed
qed

lemma fmt_spec_fine:
  assumes "NUL \<in> set fmt"
  shows "\<exists>c q lz w. fmt_spec fmt = Inr (c, q, lz, w) \<and> (c = NUL \<or> NUL \<in> set q)"
proof -
  obtain ch p where f: "fmt = ch # p" using assms by (cases fmt) auto
  have step: "\<exists>c q lz w. (if CHR ''0'' \<le> a \<and> a \<le> CHR ''9''
     then bind_result (a2i a r 10) (\<lambda>(c, p, w). Inr (c, p, l, w)) else Inr (a, r, l, 0)) = Inr (c, q, lz, w) \<and>
     (c = NUL \<or> NUL \<in> set q)" if "NUL \<in> set (a # r)" for a r l
    using a2i_loop_fine [OF that, of 10 0] that by (auto simp: a2i_def)
  show ?thesis
  proof (cases "ch = CHR ''0''")
    case False
    with step [of ch p False] assms f show ?thesis by (simp add: fmt_spec_def)
  next
    case True
    then obtain a r where "p = a # r" using assms f by (cases p) auto
    with step [of a r True] assms f True show ?thesis by (simp add: fmt_spec_def)
  qed
qed

section \<open>Properties of formatted output\<close>

text \<open>
  C16. \<open>printf\<close> is safe for every terminated format string: whatever it contains, the formatter
  returns, never reads past the format or a string argument, never writes outside its array of
  twelve bytes and never divides by zero. The only possible error is an argument that is
  missing or of another type than the conversion asks for.
\<close>

theorem tfp_format_safe:
  assumes "NUL \<in> set fmt" "length bf = 12" "args_ok va"
  shows "tfp_format collect bf fmt va out = Inl Bad_Arg \<or> (\<exists>out'. tfp_format collect bf fmt va out = Inr out')"
  using assms
proof (induction "length fmt" arbitrary: bf fmt va out rule: less_induct)
  case less
  obtain ch p where f: "fmt = ch # p" using less.prems(1) by (cases fmt) auto
  show ?case
  proof (cases "ch = NUL \<or> ch \<noteq> CHR ''%''")
    case True
    then show ?thesis using less.hyps [of p bf va "out @ [ch]"] less.prems f
      by (subst (1 2) tfp_format.simps) (auto simp: collect_def)
  next
    case False
    then have "NUL \<in> set p" using less.prems(1) f by auto
    from fmt_spec_fine [OF this] obtain c q lz w
      where s: "fmt_spec p = Inr (c, q, lz, w)" "c = NUL \<or> NUL \<in> set q" by blast
    have eq: "tfp_format collect bf fmt va out = (if c = NUL then Inr out
      else bind_result (fmt_conv collect c lz w bf va out) (\<lambda>(bf', va', st'). tfp_format collect bf' q va' st'))"
      using False s(1) f by (subst tfp_format.simps) simp
    show ?thesis
    proof (cases "c = NUL")
      case True
      then show ?thesis using eq by simp
    next
      case cc: False
      have l: "length q < length fmt" using fmt_spec_length [OF s(1)] f by simp
      from fmt_conv_fine [OF less.prems(2,3), of c lz w out]
      consider "fmt_conv collect c lz w bf va out = Inl Bad_Arg"
        | bf' va' out' where "fmt_conv collect c lz w bf va out = Inr (bf', va', out')" "length bf' = 12" "args_ok va'"
        by blast
      then show ?thesis
      proof cases
        case (2 bf' va' out')
        with less.hyps [OF l, of bf' va' out'] eq cc s(2) show ?thesis by simp
      qed (use eq cc in simp)
    qed
  qed
qed

theorem tfp_format_safe_witness:
  "tfp_format collect (replicate 12 NUL) (''%08x %'' @ [NUL]) [VInt 255] [] = Inl Bad_Arg \<or>
   (\<exists>out'. tfp_format collect (replicate 12 NUL) (''%08x %'' @ [NUL]) [VInt 255] [] = Inr out')"
  by (rule tfp_format_safe) (simp_all add: args_ok_def)

text \<open>
  C17. \<open>%d\<close>, with any width and the zero flag, prints the decimal text of every \<open>int\<close>, the least
  one included, right-aligned in the width, and goes on with the rest of the format.
\<close>

theorem tfp_format_decimal:
  assumes "length bf = 12" "width_ok ds" "- (2 ^ 31) \<le> x" "x < 2 ^ 31"
  shows "\<exists>bf'. length bf' = 12 \<and>
    tfp_format collect bf (''%'' @ width_text z ds @ ''d'' @ rest) (VInt x # va) out =
    tfp_format collect bf' rest va (out @ pad (foldl (\<lambda>n d. n * 10 + d) 0 ds) z (show_int x))"
proof -
  have "ends_number CHR ''d''" by code_simp
  from fmt_spec_width [OF assms(2) this, of z rest]
  have s: "fmt_spec (width_text z ds @ ''d'' @ rest) = Inr (CHR ''d'', rest, z, foldl (\<lambda>n d. n * 10 + d) 0 ds)"
    by simp
  have x: "signed_take_bit 31 x = x" using assms(3,4) by (intro signed_take_bit_int_eq_self) auto
  let ?b = "show_int x @ NUL # drop (Suc (length (show_int x))) bf"
  have l: "length ?b = 12" using show_int_short [OF assms(3,4)] assms(1) by simp
  have "tfp_format collect bf (''%'' @ width_text z ds @ ''d'' @ rest) (VInt x # va) out =
    tfp_format collect ?b rest va (out @ pad (foldl (\<lambda>n d. n * 10 + d) 0 ds) z (show_int x))"
    using s x i2a_show [OF assms(3,4,1)] putchw_collect [OF show_int_not_NUL]
    by (subst tfp_format.simps) (simp add: fmt_conv_def fmt_number_def)
  with l show ?thesis by blast
qed

theorem tfp_format_decimal_witness:
  "\<exists>bf'. length bf' = 12 \<and>
    tfp_format collect (replicate 12 NUL) (''%'' @ width_text False [1, 4] @ ''d'' @ [NUL]) [VInt (- 2147483648)] [] =
    tfp_format collect bf' [NUL] [] (pad 14 False (show_int (- 2147483648)))"
  using tfp_format_decimal [of "replicate 12 NUL" "[1, 4]" "- 2147483648" False "[NUL]" "[]" "[]"]
  by (simp add: width_ok_def)

text \<open>
  C18. The text of a number is its numeral: the digits are below the base, there is no leading
  zero, and reading them back gives the number. At most ten digits are needed, so the sign,
  the digits and the terminator of any 32-bit number fit the twelve bytes of \<open>bf\<close>.
\<close>

theorem ui2a_correct:
  assumes "base = 10 \<or> base = 16" "num < 2 ^ 32" "length bf = 12"
  shows "\<exists>ds. ui2a num base uc bf 0 = Inr (map (\<lambda>d. ui2a_digit d uc) ds @ NUL # drop (Suc (length ds)) bf) \<and>
    set ds \<subseteq> {..<base} \<and> foldl (\<lambda>n d. n * base + d) 0 ds = num \<and> length ds \<le> 10 \<and>
    (hd ds = 0 \<longrightarrow> num = 0)"
proof -
  have b: "2 \<le> base" "10 \<le> base" using assms(1) by auto
  have hd: "hd (num_text base n) = 0 \<longrightarrow> n = 0" for n
  proof (induction n rule: less_induct)
    case (less n)
    show ?case
    proof (cases "n < base")
      case True
      then show ?thesis by (subst num_text.simps) simp
    next
      case False
      then have "n div base < n" "n div base \<noteq> 0" using b(1) by (auto simp: div_eq_0_iff)
      moreover have "num_text base (n div base) \<noteq> []" by (subst num_text.simps) simp
      ultimately show ?thesis using less.IH [of "n div base"] False b(1) by (subst num_text.simps) simp
    qed
  qed
  show ?thesis
    using ui2a_show [OF assms(2) b(2) assms(3), of uc] show_uint_short [OF assms(2) b(2), of uc]
      num_text_range [OF b(1), of num] num_text_value [OF b(1), of num] hd [of num]
    by (intro exI [of _ "num_text base num"]) (simp add: show_uint_def)
qed

theorem ui2a_correct_witness:
  "\<exists>ds. ui2a 48879 16 True (replicate 12 NUL) 0 =
      Inr (map (\<lambda>d. ui2a_digit d True) ds @ NUL # drop (Suc (length ds)) (replicate 12 NUL)) \<and>
    foldl (\<lambda>n d. n * 16 + d) 0 ds = (48879::nat)"
  using ui2a_correct [of 16 48879 "replicate 12 NUL" True] by auto

end
