(* ===== verification/Cpio.thy ===== *)
theory Cpio
  imports Printf
begin

text \<open>
  The reader of the initial ram disk, \<open>src/cpio.c\<close>. Memory is a function from 64-bit addresses
  to bytes; pointers are addresses, and pointer arithmetic wraps. Every loop over an archive
  follows the links the headers give, so it need not end; it runs with a bound on the number of
  headers, and \<open>No_Return\<close> stands for a loop that reached it.
\<close>

type_synonym memory = "u64 \<Rightarrow> char"

section \<open>The routines\<close>

definition align_up :: "u64 \<Rightarrow> u64 \<Rightarrow> u64" where
  "align_up n align = (n + align - 1) AND NOT (align - 1)"

fun parse_hex_loop :: "memory \<Rightarrow> u64 \<Rightarrow> nat \<Rightarrow> u64 \<Rightarrow> u64" where
  "parse_hex_loop mem s 0 r = r"
| "parse_hex_loop mem s (Suc n) r =
     (let c = mem s; r' = r * 16
      in if CHR ''0'' \<le> c \<and> c \<le> CHR ''9'' then
           parse_hex_loop mem (s + 1) n (r' + word_of_int (int_of_char c - int_of_char CHR ''0''))
         else if CHR ''a'' \<le> c \<and> c \<le> CHR ''f'' then
           parse_hex_loop mem (s + 1) n (r' + word_of_int (int_of_char c - int_of_char CHR ''a'' + 10))
         else if CHR ''A'' \<le> c \<and> c \<le> CHR ''F'' then
           parse_hex_loop mem (s + 1) n (r' + word_of_int (int_of_char c - int_of_char CHR ''A'' + 10))
         else r')"

definition parse_hex_str :: "memory \<Rightarrow> u64 \<Rightarrow> nat \<Rightarrow> u64" where
  "parse_hex_str mem s max_len = parse_hex_loop mem s max_len 0"

text \<open>
  \<open>cpio_strncmp\<close> compares two byte sequences, in memory (\<open>peek\<close>) or a string literal (\<open>lit\<close>).
\<close>

definition peek :: "memory \<Rightarrow> u64 \<Rightarrow> nat \<Rightarrow> char" where
  "peek mem p i = mem (p + of_nat i)"

definition lit :: "string \<Rightarrow> nat \<Rightarrow> char" where
  "lit s i = (if i < length s then s ! i else NUL)"

function cpio_strncmp_from :: "(nat \<Rightarrow> char) \<Rightarrow> (nat \<Rightarrow> char) \<Rightarrow> nat \<Rightarrow> nat \<Rightarrow> int" where
  "cpio_strncmp_from a b n i =
     (if i < n then
        if a i \<noteq> b i then int_of_char (a i) - int_of_char (b i)
        else if a i = NUL then 0 else cpio_strncmp_from a b n (i + 1)
      else 0)"
  by pat_completeness auto
termination
  by (relation "measure (\<lambda>(a, b, n, i). n - i)") auto

declare cpio_strncmp_from.simps [simp del]

definition cpio_strncmp :: "(nat \<Rightarrow> char) \<Rightarrow> (nat \<Rightarrow> char) \<Rightarrow> nat \<Rightarrow> int" where
  "cpio_strncmp a b n = cpio_strncmp_from a b n 0"

abbreviation CPIO_HEADER_MAGIC :: string where "CPIO_HEADER_MAGIC \<equiv> ''070701''"
abbreviation CPIO_FOOTER_MAGIC :: string where "CPIO_FOOTER_MAGIC \<equiv> ''TRAILER!!!''"

text \<open>Offsets of the members of \<open>struct cpio_header\<close> that are read, and its size.\<close>

abbreviation C_FILESIZE :: nat where "C_FILESIZE \<equiv> 54"
abbreviation C_NAMESIZE :: nat where "C_NAMESIZE \<equiv> 94"
abbreviation CPIO_HEADER_SIZE :: nat where "CPIO_HEADER_SIZE \<equiv> 110"

text \<open>
  The result of \<open>cpio_parse_header\<close>: -1, 1 with the file name set, or 0 with the file name,
  the size, the data and the next header set.
\<close>

datatype header_result =
    Not_Valid
  | Eof u64
  | Entry u64 u64 u64 u64

definition cpio_parse_header :: "memory \<Rightarrow> u64 \<Rightarrow> header_result" where
  "cpio_parse_header mem archive =
     (if cpio_strncmp (peek mem archive) (lit CPIO_HEADER_MAGIC) 6 \<noteq> 0 then Not_Valid
      else
        let filesize = parse_hex_str mem (archive + of_nat C_FILESIZE) 8;
            filename = archive + of_nat CPIO_HEADER_SIZE
        in if cpio_strncmp (peek mem filename) (lit CPIO_FOOTER_MAGIC) 11 = 0 then Eof filename
           else
             let filename_length = parse_hex_str mem (archive + of_nat C_NAMESIZE) 8;
                 data = align_up (archive + of_nat CPIO_HEADER_SIZE + filename_length) 4;
                 next_header = align_up (data + filesize) 4
             in Entry filename filesize data next_header)"

text \<open>
  \<open>cpio_get_file\<close>, with the value of \<open>*size\<close> passed along. On an invalid header the code prints
  the file name, which is not set then: an argument the model has no value for.
\<close>

fun cpio_get_file :: "nat \<Rightarrow> memory \<Rightarrow> u64 \<Rightarrow> (nat \<Rightarrow> char) \<Rightarrow> u64 \<Rightarrow> (u64 \<times> u64) result" where
  "cpio_get_file 0 mem header name sz = Inl No_Return"
| "cpio_get_file (Suc fuel) mem header name sz =
     (case cpio_parse_header mem header of
        Not_Valid \<Rightarrow> Inl Bad_Arg
      | Eof filename \<Rightarrow> Inr (0, sz)
      | Entry filename filesize data next_header \<Rightarrow>
          if cpio_strncmp (peek mem filename) name (2 ^ 64 - 1) = 0 then Inr (data, filesize)
          else cpio_get_file fuel mem next_header name filesize)"

text \<open>\<open>cpio_ls\<close>: the addresses of the names it prints.\<close>

fun cpio_ls :: "nat \<Rightarrow> memory \<Rightarrow> u64 \<Rightarrow> u64 list result" where
  "cpio_ls 0 mem header = Inl No_Return"
| "cpio_ls (Suc fuel) mem header =
     (case cpio_parse_header mem header of
        Entry filename filesize data next_header \<Rightarrow>
          bind_result (cpio_ls fuel mem next_header) (\<lambda>names. Inr (filename # names))
      | _ \<Rightarrow> Inr [])"

text \<open>The copy loop of \<open>cpio_move_file\<close>, one byte after the other.\<close>

fun copy_loop :: "nat \<Rightarrow> u64 \<Rightarrow> u64 \<Rightarrow> memory \<Rightarrow> memory" where
  "copy_loop 0 target src mem = mem"
| "copy_loop (Suc n) target src mem = copy_loop n (target + 1) (src + 1) (mem(target := mem src))"

definition cpio_move_file :: "nat \<Rightarrow> memory \<Rightarrow> u64 \<Rightarrow> (nat \<Rightarrow> char) \<Rightarrow> u64 \<Rightarrow> (memory \<times> u64) result" where
  "cpio_move_file fuel mem archive name move_addr =
     bind_result (cpio_get_file fuel mem archive name 5920) (\<lambda>(res, fileSize).
       Inr (copy_loop (unat fileSize) move_addr res mem, move_addr))"

section \<open>Archives in memory\<close>

text \<open>
  What an archive in the new ASCII format looks like, independently of the reader: addresses
  are natural numbers below \<open>2 ^ 64\<close>, numbers are eight hexadecimal digits, the data of a file
  and the next header start at the next multiple of four.
\<close>

definition bytes_at :: "memory \<Rightarrow> nat \<Rightarrow> string \<Rightarrow> bool" where
  "bytes_at mem a bs \<longleftrightarrow> map (\<lambda>i. mem (of_nat (a + i))) [0..<length bs] = bs"

definition round4 :: "nat \<Rightarrow> nat" where
  "round4 n = 4 * ((n + 3) div 4)"

fun hex_digits :: "nat \<Rightarrow> nat \<Rightarrow> nat list" where
  "hex_digits 0 n = []"
| "hex_digits (Suc k) n = n div 16 ^ k mod 16 # hex_digits k n"

definition hex8 :: "bool \<Rightarrow> nat \<Rightarrow> string" where
  "hex8 uc n = map (\<lambda>d. ui2a_digit d uc) (hex_digits 8 n)"

definition file_data :: "nat \<Rightarrow> string \<Rightarrow> nat" where
  "file_data a name = round4 (a + CPIO_HEADER_SIZE + Suc (length name))"

definition file_next :: "nat \<Rightarrow> string \<Rightarrow> string \<Rightarrow> nat" where
  "file_next a name content = round4 (file_data a name + length content)"

fun cpio_at :: "memory \<Rightarrow> nat \<Rightarrow> (string \<times> string) list \<Rightarrow> bool" where
  "cpio_at mem a [] \<longleftrightarrow>
     a + CPIO_HEADER_SIZE + 11 < 2 ^ 64 \<and>
     bytes_at mem a CPIO_HEADER_MAGIC \<and>
     bytes_at mem (a + CPIO_HEADER_SIZE) (CPIO_FOOTER_MAGIC @ [NUL])"
| "cpio_at mem a ((name, content) # files) \<longleftrightarrow>
     file_next a name content < 2 ^ 64 \<and> length content < 2 ^ 32 \<and> Suc (length name) < 2 ^ 32 \<and>
     NUL \<notin> set name \<and> name \<noteq> CPIO_FOOTER_MAGIC \<and>
     bytes_at mem a CPIO_HEADER_MAGIC \<and>
     (\<exists>uc. bytes_at mem (a + C_FILESIZE) (hex8 uc (length content))) \<and>
     (\<exists>uc. bytes_at mem (a + C_NAMESIZE) (hex8 uc (Suc (length name)))) \<and>
     bytes_at mem (a + CPIO_HEADER_SIZE) (name @ [NUL]) \<and>
     bytes_at mem (file_data a name) content \<and>
     cpio_at mem (file_next a name content) files"

section \<open>Reading an archive\<close>

lemma bytes_at_nth: "bytes_at mem a bs \<longleftrightarrow> (\<forall>i<length bs. mem (of_nat (a + i)) = bs ! i)"
  unfolding bytes_at_def by (subst list_eq_iff_nth_eq) simp

lemma map_upt_append: "map f [0..<m + n] = map f [0..<m] @ map (\<lambda>i. f (m + i)) [0..<n]"
  by (induction n) (simp_all add: add.assoc)

lemma bytes_at_append: "bytes_at mem a (bs @ cs) \<longleftrightarrow> bytes_at mem a bs \<and> bytes_at mem (a + length bs) cs"
  unfolding bytes_at_def length_append map_upt_append add.assoc
  by (subst append_eq_append_conv) simp_all

lemma hex_char_step:
  assumes "mem s = ui2a_digit d uc" "d < 16"
  shows "parse_hex_loop mem s (Suc n) r = parse_hex_loop mem (s + 1) n (r * 16 + of_nat d)"
proof -
  have "\<forall>d\<in>set [0..<16]. \<forall>uc\<in>{True, False}. (let c = ui2a_digit d uc in
      if CHR ''0'' \<le> c \<and> c \<le> CHR ''9'' then int_of_char c - int_of_char CHR ''0'' = int d
      else if CHR ''a'' \<le> c \<and> c \<le> CHR ''f'' then int_of_char c - int_of_char CHR ''a'' + 10 = int d
      else if CHR ''A'' \<le> c \<and> c \<le> CHR ''F'' then int_of_char c - int_of_char CHR ''A'' + 10 = int d else False)"
    by code_simp
  then have *: "let c = ui2a_digit d uc in
      if CHR ''0'' \<le> c \<and> c \<le> CHR ''9'' then int_of_char c - int_of_char CHR ''0'' = int d
      else if CHR ''a'' \<le> c \<and> c \<le> CHR ''f'' then int_of_char c - int_of_char CHR ''a'' + 10 = int d
      else if CHR ''A'' \<le> c \<and> c \<le> CHR ''F'' then int_of_char c - int_of_char CHR ''A'' + 10 = int d else False"
    using assms(2) by (cases uc) auto
  have w: "word_of_int (int d) = (of_nat d :: u64)" by simp
  show ?thesis
    using * unfolding parse_hex_loop.simps assms(1) Let_def by (auto simp only: w split: if_splits)
qed

lemma parse_hex_digits:
  assumes "bytes_at mem a (map (\<lambda>d. ui2a_digit d uc) (hex_digits k n))"
  shows "parse_hex_loop mem (of_nat a) k r = r * 16 ^ k + of_nat (n mod 16 ^ k)"
  using assms
proof (induction k arbitrary: a r)
  case (Suc k)
  let ?d = "n div 16 ^ k mod 16"
  from Suc.prems have m: "mem (of_nat a) = ui2a_digit ?d uc"
    and t: "bytes_at mem (a + 1) (map (\<lambda>d. ui2a_digit d uc) (hex_digits k n))"
    using bytes_at_append [of mem a "[ui2a_digit ?d uc]" "map (\<lambda>d. ui2a_digit d uc) (hex_digits k n)"]
    by (simp_all add: bytes_at_def)
  have "n mod 16 ^ Suc k = ?d * 16 ^ k + n mod 16 ^ k"
    using mod_mult2_eq [of n "16 ^ k" 16] by (simp add: mult.commute add.commute)
  then have "(of_nat (n mod 16 ^ Suc k) :: u64) = of_nat ?d * 16 ^ k + of_nat (n mod 16 ^ k)"
    by (simp only: of_nat_add of_nat_mult of_nat_power of_nat_numeral)
  moreover have "parse_hex_loop mem (of_nat a) (Suc k) r = parse_hex_loop mem (of_nat (a + 1)) k (r * 16 + of_nat ?d)"
    using hex_char_step [of mem "of_nat a" ?d uc k r] m by (simp add: add.commute)
  ultimately show ?case using Suc.IH [OF t, of "r * 16 + of_nat ?d"] by (simp add: algebra_simps)
qed simp

lemma parse_hex_hex8:
  assumes "bytes_at mem a (hex8 uc n)" "n < 2 ^ 32"
  shows "parse_hex_str mem (of_nat a) 8 = of_nat n"
proof -
  have "n mod 16 ^ 8 = n" using assms(2) by simp
  with parse_hex_digits [OF assms(1) [unfolded hex8_def], of 0] show ?thesis
    unfolding parse_hex_str_def by simp
qed

text \<open>A byte sequence that holds a string.\<close>

definition holds :: "(nat \<Rightarrow> char) \<Rightarrow> string \<Rightarrow> bool" where
  "holds f u \<longleftrightarrow> (\<forall>i<length u. f i = u ! i) \<and> f (length u) = NUL \<and> NUL \<notin> set u"

lemma holds_nth: "holds f u \<Longrightarrow> i < length u \<Longrightarrow> f i = u ! i \<and> u ! i \<noteq> NUL"
  unfolding holds_def by (metis nth_mem)

lemma holds_lit: "NUL \<notin> set u \<Longrightarrow> holds (lit u) u"
  by (simp add: holds_def lit_def)

lemma holds_peek: "bytes_at mem a (u @ [NUL]) \<Longrightarrow> NUL \<notin> set u \<Longrightarrow> holds (peek mem (of_nat a)) u"
  by (auto simp: bytes_at_nth holds_def peek_def nth_append less_Suc_eq)

lemma cpio_strncmp_from_holds:
  assumes "holds a u" "holds b v" "length v < n" "i \<le> length u" "i \<le> length v"
  shows "cpio_strncmp_from a b n i = 0 \<longleftrightarrow> drop i u = drop i v"
  using assms(4,5)
proof (induction "length v - i" arbitrary: i)
  case 0
  then have i: "i = length v" by simp
  show ?case
  proof (cases "i < length u")
    case True
    then have "a i = u ! i" "u ! i \<noteq> NUL" using holds_nth [OF assms(1)] by auto
    then show ?thesis using True i assms(2,3) of_char_NUL [of "u ! i"]
      by (subst cpio_strncmp_from.simps) (auto simp: holds_def)
  next
    case False
    then show ?thesis using 0 i assms(1-3) by (subst cpio_strncmp_from.simps) (auto simp: holds_def)
  qed
next
  case (Suc m)
  then have i: "i < length v" by simp
  then have b: "b i = v ! i" "v ! i \<noteq> NUL" using holds_nth [OF assms(2)] by auto
  have dv: "drop i v = v ! i # drop (Suc i) v" using i by (simp add: Cons_nth_drop_Suc)
  show ?case
  proof (cases "i < length u")
    case True
    then have "a i = u ! i" "u ! i \<noteq> NUL" using holds_nth [OF assms(1)] by auto
    moreover have "drop i u = u ! i # drop (Suc i) u" using True by (simp add: Cons_nth_drop_Suc)
    ultimately show ?thesis using Suc.hyps(1) [of "Suc i"] Suc.hyps(2) True i b dv assms(3)
      by (subst cpio_strncmp_from.simps) auto
  next
    case False
    then have "i = length u" using Suc.prems by simp
    then show ?thesis using assms(1,3) b i of_char_NUL [of "v ! i"]
      by (subst cpio_strncmp_from.simps) (auto simp: holds_def)
  qed
qed

lemma cpio_strncmp_holds:
  "holds a u \<Longrightarrow> holds b v \<Longrightarrow> length v < n \<Longrightarrow> cpio_strncmp a b n = 0 \<longleftrightarrow> u = v"
  using cpio_strncmp_from_holds [of a u b v n 0] by (simp add: cpio_strncmp_def)

lemma cpio_strncmp_same:
  assumes "\<And>i. i < n \<Longrightarrow> a i = b i"
  shows "cpio_strncmp a b n = 0"
proof -
  have "cpio_strncmp_from a b n i = 0" for i
  proof (induction "n - i" arbitrary: i)
    case 0
    then show ?case by (subst cpio_strncmp_from.simps) simp
  next
    case (Suc m)
    then show ?case using assms [of i] by (subst cpio_strncmp_from.simps) auto
  qed
  then show ?thesis by (simp add: cpio_strncmp_def)
qed

lemma align_up_eq:
  assumes "n + 3 < 2 ^ 64"
  shows "align_up (of_nat n) 4 = of_nat (round4 n)"
proof -
  define x :: u64 where "x = of_nat (n + 3)"
  have "align_up (of_nat n) 4 = x AND NOT (mask 2)"
    by (simp add: align_up_def x_def mask_eq_exp_minus_1 add.commute)
  also have "\<dots> = push_bit 2 (drop_bit 2 x)"
  proof (rule bit_word_eqI)
    fix i assume "i < LENGTH(64)"
    moreover have "Suc (Suc (i - 2)) = i" if "2 \<le> i" using that by simp
    ultimately show "bit (x AND NOT (mask 2)) i \<longleftrightarrow> bit (push_bit 2 (drop_bit 2 x)) i"
      by (auto simp: bit_simps not_less)
  qed
  also have "\<dots> = (x div 4) * 4" by (simp add: push_bit_eq_mult drop_bit_eq_div)
  also have "x div 4 = of_nat (unat (x div 4))" by simp
  also have "unat (x div 4) = unat x div 4" by (simp add: unat_div)
  also have "unat x = n + 3" using assms by (simp add: x_def unat_of_nat del: of_nat_add)
  finally show ?thesis by (simp add: round4_def mult.commute)
qed

lemma round4_bounds: "n \<le> round4 n" "round4 n < n + 4" "4 dvd round4 n"
  by (auto simp: round4_def)

lemma round4_le:
  assumes "round4 n < 2 ^ 64"
  shows "n + 3 < 2 ^ 64"
proof -
  have "4 * ((n + 3) div 4) < 4 * 2 ^ 62" using assms by (simp add: round4_def)
  then have "(n + 3) div 4 < 2 ^ 62" by (simp only: nat_mult_less_cancel_disj)
  then have "n + 3 < 2 ^ 62 * 4" by (subst (asm) div_less_iff_less_mult) simp_all
  then show ?thesis by simp
qed

lemma magic_at: "bytes_at mem a CPIO_HEADER_MAGIC \<Longrightarrow> cpio_strncmp (peek mem (of_nat a)) (lit CPIO_HEADER_MAGIC) 6 = 0"
  by (rule cpio_strncmp_same) (auto simp: bytes_at_nth peek_def lit_def)

lemma footer_not_NUL: "NUL \<notin> set CPIO_FOOTER_MAGIC"
  by simp

lemma cpio_parse_eof:
  assumes "cpio_at mem a []"
  shows "cpio_parse_header mem (of_nat a) = Eof (of_nat (a + CPIO_HEADER_SIZE))"
proof -
  have "holds (peek mem (of_nat (a + CPIO_HEADER_SIZE))) CPIO_FOOTER_MAGIC"
    using assms by (intro holds_peek) auto
  from cpio_strncmp_holds [OF this holds_lit [OF footer_not_NUL], of 11]
  have "cpio_strncmp (peek mem (of_nat (a + CPIO_HEADER_SIZE))) (lit CPIO_FOOTER_MAGIC) 11 = 0" by simp
  moreover have "cpio_strncmp (peek mem (of_nat a)) (lit CPIO_HEADER_MAGIC) 6 = 0" using assms by (simp add: magic_at)
  ultimately show ?thesis by (simp add: cpio_parse_header_def Let_def)
qed

lemma cpio_parse_entry:
  assumes "cpio_at mem a ((name, content) # files)"
  shows "cpio_parse_header mem (of_nat a) = Entry (of_nat (a + CPIO_HEADER_SIZE)) (of_nat (length content))
    (of_nat (file_data a name)) (of_nat (file_next a name content))"
proof -
  from assms obtain uc uc' where c: "file_next a name content < 2 ^ 64" "length content < 2 ^ 32" "Suc (length name) < 2 ^ 32"
    "NUL \<notin> set name" "name \<noteq> CPIO_FOOTER_MAGIC" "bytes_at mem a CPIO_HEADER_MAGIC"
    "bytes_at mem (a + C_FILESIZE) (hex8 uc (length content))" "bytes_at mem (a + C_NAMESIZE) (hex8 uc' (Suc (length name)))"
    "bytes_at mem (a + CPIO_HEADER_SIZE) (name @ [NUL])" unfolding cpio_at.simps by blast
  have m: "cpio_strncmp (peek mem (of_nat a)) (lit CPIO_HEADER_MAGIC) 6 = 0" using c(6) by (rule magic_at)
  have f: "cpio_strncmp (peek mem (of_nat (a + CPIO_HEADER_SIZE))) (lit CPIO_FOOTER_MAGIC) 11 \<noteq> 0"
    using cpio_strncmp_holds [OF holds_peek [OF c(9,4)] holds_lit [OF footer_not_NUL], of 11] c(5) by simp
  have s: "parse_hex_str mem (of_nat (a + C_FILESIZE)) 8 = of_nat (length content)"
    by (rule parse_hex_hex8 [OF c(7,2)])
  have n: "parse_hex_str mem (of_nat (a + C_NAMESIZE)) 8 = of_nat (Suc (length name))"
    by (rule parse_hex_hex8 [OF c(8,3)])
  have b1: "file_data a name + length content + 3 < 2 ^ 64" using c(1) round4_le by (simp add: file_next_def)
  have "round4 (a + CPIO_HEADER_SIZE + Suc (length name)) < 2 ^ 64" using b1 by (simp add: file_data_def)
  then have "a + CPIO_HEADER_SIZE + Suc (length name) + 3 < 2 ^ 64" by (rule round4_le)
  from align_up_eq [OF this]
  have d: "align_up (of_nat (a + CPIO_HEADER_SIZE + Suc (length name))) 4 = of_nat (file_data a name)"
    by (simp add: file_data_def)
  have x: "align_up (of_nat (file_data a name + length content)) 4 = of_nat (file_next a name content)"
    using align_up_eq [OF b1] by (simp add: file_next_def)
  show ?thesis
    unfolding cpio_parse_header_def Let_def of_nat_add [symmetric] using m f s n d x by simp
qed

text \<open>Where the data of the first file of a name is.\<close>

fun file_addr :: "nat \<Rightarrow> (string \<times> string) list \<Rightarrow> string \<Rightarrow> nat" where
  "file_addr a [] name = 0"
| "file_addr a ((n, content) # files) name =
     (if n = name then file_data a n else file_addr (file_next a n content) files name)"

lemma file_addr_bytes:
  "cpio_at mem a files \<Longrightarrow> map_of files name = Some content \<Longrightarrow>
    bytes_at mem (file_addr a files name) content \<and> length content < 2 ^ 32"
  by (induction files arbitrary: a) (auto split: if_splits)

lemma cpio_get_file_found:
  assumes "cpio_at mem a files" "holds name u" "length u < 2 ^ 64 - 1" "map_of files u = Some content" "length files < fuel"
  shows "cpio_get_file fuel mem (of_nat a) name sz = Inr (of_nat (file_addr a files u), of_nat (length content))"
  using assms(1,4,5)
proof (induction files arbitrary: a fuel sz)
  case (Cons f files)
  obtain n c where f: "f = (n, c)" by (cases f)
  obtain g where g: "fuel = Suc g" "length files < g" using Cons.prems(3) by (cases fuel) auto
  have p: "cpio_parse_header mem (of_nat a) = Entry (of_nat (a + CPIO_HEADER_SIZE)) (of_nat (length c))
    (of_nat (file_data a n)) (of_nat (file_next a n c))"
    using cpio_parse_entry Cons.prems(1) f by blast
  have "holds (peek mem (of_nat (a + CPIO_HEADER_SIZE))) n" using Cons.prems(1) f by (intro holds_peek) auto
  from cpio_strncmp_holds [OF this assms(2,3)]
  have cmp: "cpio_strncmp (peek mem (of_nat (a + CPIO_HEADER_SIZE))) name (2 ^ 64 - 1) = 0 \<longleftrightarrow> n = u" .
  show ?case
  proof (cases "n = u")
    case True
    then show ?thesis using p cmp f g Cons.prems(2) by simp
  next
    case False
    have "cpio_at mem (file_next a n c) files" using Cons.prems(1) f by simp
    from Cons.IH [OF this, of g "of_nat (length c)"] show ?thesis using p cmp f g Cons.prems(2) False by simp
  qed
qed simp

lemma cpio_get_file_missing:
  assumes "cpio_at mem a files" "holds name u" "length u < 2 ^ 64 - 1" "map_of files u = None" "length files < fuel"
  shows "\<exists>sz'. cpio_get_file fuel mem (of_nat a) name sz = Inr (0, sz')"
  using assms(1,4,5)
proof (induction files arbitrary: a fuel sz)
  case Nil
  then obtain g where "fuel = Suc g" by (cases fuel) auto
  with cpio_parse_eof [OF Nil.prems(1)] show ?case by simp
next
  case (Cons f files)
  obtain n c where f: "f = (n, c)" by (cases f)
  obtain g where g: "fuel = Suc g" "length files < g" using Cons.prems(3) by (cases fuel) auto
  have p: "cpio_parse_header mem (of_nat a) = Entry (of_nat (a + CPIO_HEADER_SIZE)) (of_nat (length c))
    (of_nat (file_data a n)) (of_nat (file_next a n c))"
    using cpio_parse_entry Cons.prems(1) f by blast
  have "holds (peek mem (of_nat (a + CPIO_HEADER_SIZE))) n" using Cons.prems(1) f by (intro holds_peek) auto
  from cpio_strncmp_holds [OF this assms(2,3)] Cons.prems(2) f
  have cmp: "cpio_strncmp (peek mem (of_nat (a + CPIO_HEADER_SIZE))) name (2 ^ 64 - 1) \<noteq> 0" by auto
  have "cpio_at mem (file_next a n c) files" using Cons.prems(1) f by simp
  from Cons.IH [OF this, of g "of_nat (length c)"] show ?case using p cmp f g Cons.prems(2) by (auto split: if_splits)
qed

lemma cpio_ls_names:
  assumes "cpio_at mem a files" "length files < fuel"
  shows "\<exists>ps. cpio_ls fuel mem (of_nat a) = Inr ps \<and> length ps = length files \<and>
    (\<forall>i<length files. holds (peek mem (ps ! i)) (fst (files ! i)))"
  using assms
proof (induction files arbitrary: a fuel)
  case Nil
  then obtain g where "fuel = Suc g" by (cases fuel) auto
  with cpio_parse_eof [OF Nil.prems(1)] show ?case by simp
next
  case (Cons f files)
  obtain n c where f: "f = (n, c)" by (cases f)
  obtain g where g: "fuel = Suc g" "length files < g" using Cons.prems(2) by (cases fuel) auto
  have h: "holds (peek mem (of_nat (a + CPIO_HEADER_SIZE))) n" using Cons.prems(1) f by (intro holds_peek) auto
  have "cpio_at mem (file_next a n c) files" using Cons.prems(1) f by simp
  from Cons.IH [OF this g(2)] obtain ps where ps: "cpio_ls g mem (of_nat (file_next a n c)) = Inr ps"
    "length ps = length files" "\<forall>i<length files. holds (peek mem (ps ! i)) (fst (files ! i))" by blast
  have "cpio_ls fuel mem (of_nat a) = Inr (of_nat (a + CPIO_HEADER_SIZE) # ps)"
    using cpio_parse_entry [of mem a n c files] Cons.prems(1) f g ps(1) by simp
  moreover have "holds (peek mem ((of_nat (a + CPIO_HEADER_SIZE) # ps) ! i)) (fst ((f # files) ! i))"
    if "i < Suc (length files)" for i
    using that ps(3) h f by (cases i) auto
  ultimately show ?case using ps(2) by auto
qed

text \<open>The copy loop, when source and target do not meet.\<close>

lemma copy_loop_other:
  assumes "\<forall>i<n. t + i < 2 ^ 64 \<and> t + i \<noteq> x" "x < 2 ^ 64"
  shows "copy_loop n (of_nat t) src mem (of_nat x) = mem (of_nat x)"
  using assms(1)
proof (induction n arbitrary: t src mem)
  case (Suc n)
  have t: "t < 2 ^ 64" "t \<noteq> x" using Suc.prems by (auto dest: spec [of _ 0])
  have "t + 1 + i < 2 ^ 64 \<and> t + 1 + i \<noteq> x" if "i < n" for i
    using Suc.prems that by (metis Suc_less_eq add.assoc plus_1_eq_Suc)
  then have "copy_loop n (of_nat (t + 1)) (src + 1) (mem(of_nat t := mem src)) (of_nat x) =
      (mem(of_nat t := mem src)) (of_nat x)" by (intro Suc.IH) auto
  moreover have "(of_nat t :: u64) \<noteq> of_nat x"
    using t assms(2) by (simp add: word_of_nat_eq_iff take_bit_nat_eq_self)
  ultimately show ?case by (simp add: add.commute)
qed simp

lemma copy_loop_bytes:
  assumes "bytes_at mem src bs" "t + length bs \<le> 2 ^ 64" "src + length bs \<le> 2 ^ 64"
    "t + length bs \<le> src \<or> src + length bs \<le> t"
  shows "bytes_at (copy_loop (length bs) (of_nat t) (of_nat src) mem) t bs"
  using assms
proof (induction bs arbitrary: t src mem)
  case (Cons b bs)
  let ?m = "mem(of_nat t := mem (of_nat src))"
  have b: "mem (of_nat src) = b" "bytes_at mem (src + 1) bs"
    using Cons.prems(1) bytes_at_append [of mem src "[b]" bs] by (simp_all add: bytes_at_def)
  have src: "bytes_at ?m (src + 1) bs"
    unfolding bytes_at_nth
  proof (intro allI impI)
    fix i assume i: "i < length bs"
    have "(of_nat (src + 1 + i) :: u64) \<noteq> of_nat t"
      using Cons.prems(2-4) i by (auto simp: word_of_nat_eq_iff take_bit_nat_eq_self simp del: of_nat_add of_nat_Suc)
    then show "?m (of_nat (src + 1 + i)) = bs ! i" using b(2) i by (simp add: bytes_at_nth)
  qed
  have IH: "bytes_at (copy_loop (length bs) (of_nat (t + 1)) (of_nat (src + 1)) ?m) (t + 1) bs"
    by (rule Cons.IH [OF src]) (use Cons.prems(2-4) in auto)
  have "copy_loop (length bs) (of_nat (t + 1)) (of_nat (src + 1)) ?m (of_nat t) = ?m (of_nat t)"
    using Cons.prems(2) by (intro copy_loop_other) auto
  with b(1) have "bytes_at (copy_loop (length bs) (of_nat (t + 1)) (of_nat (src + 1)) ?m) t [b]"
    by (simp add: bytes_at_def)
  with IH bytes_at_append [of _ t "[b]" bs]
  have "bytes_at (copy_loop (length bs) (of_nat (t + 1)) (of_nat (src + 1)) ?m) t ([b] @ bs)" by simp
  then show ?case by (simp add: add.commute)
qed (simp add: bytes_at_def)

section \<open>Properties of the archive reader\<close>

text \<open>
  C19. In a well-formed archive the lookup of a file returns after at most one header per file
  and one for the trailer: the address and the size of the contents of the first file of that
  name, or \<open>NULL\<close> when the archive has no such file.
\<close>

theorem cpio_get_file_correct:
  assumes "cpio_at mem a files" "holds name u" "length u < 2 ^ 64 - 1" "length files < fuel"
  shows "case map_of files u of
      Some content \<Rightarrow> (\<exists>d. cpio_get_file fuel mem (of_nat a) name sz = Inr (of_nat d, of_nat (length content)) \<and>
         bytes_at mem d content)
    | None \<Rightarrow> (\<exists>sz'. cpio_get_file fuel mem (of_nat a) name sz = Inr (0, sz'))"
proof (cases "map_of files u")
  case None
  with cpio_get_file_missing [OF assms(1-3) None assms(4)] show ?thesis by simp
next
  case (Some content)
  with cpio_get_file_found [OF assms(1-3) Some assms(4)] file_addr_bytes [OF assms(1) Some] show ?thesis by auto
qed

text \<open>An archive with one file.\<close>

definition sample_image :: string where
  "sample_image = CPIO_HEADER_MAGIC @ replicate 48 CHR ''0'' @ hex8 False 2 @ replicate 32 CHR ''0'' @ hex8 False 2 @
     replicate 8 CHR ''0'' @ ''f'' @ replicate 1 NUL @ ''hi'' @ replicate 2 NUL @
     CPIO_HEADER_MAGIC @ replicate 104 CHR ''0'' @ CPIO_FOOTER_MAGIC @ [NUL]"

definition sample_mem :: memory where
  "sample_mem p = lit sample_image (unat p)"

lemma hex8_length [simp]: "length (hex8 uc n) = 8"
proof -
  have "length (hex_digits k n) = k" for k by (induction k) auto
  then show ?thesis by (simp add: hex8_def)
qed

lemma sample_bytes: "bytes_at sample_mem 0 sample_image"
proof -
  have "length sample_image < 2 ^ 64" by (simp add: sample_image_def)
  then show ?thesis
    by (auto simp: bytes_at_nth sample_mem_def lit_def unat_of_nat)
qed

lemma sample_at: "cpio_at sample_mem 0 [(''f'', ''hi'')]"
proof -
  have a: "file_data 0 ''f'' = 112" "file_next 0 ''f'' ''hi'' = 116" by (simp_all add: file_data_def file_next_def round4_def)
  have s: "Suc (length ''f'') = 2" "length ''hi'' = 2" by simp_all
  from sample_bytes show ?thesis
    unfolding sample_image_def bytes_at_append cpio_at.simps a s by auto
qed

theorem cpio_get_file_correct_witness:
  "\<exists>d. cpio_get_file 2 sample_mem 0 (lit ''f'') 0 = Inr (of_nat d, 2) \<and> bytes_at sample_mem d ''hi''"
  using cpio_get_file_correct [OF sample_at, of "lit ''f''" "''f''" 2 0] holds_lit [of "''f''"] by auto

text \<open>
  \<open>cpio_ls\<close> of a well-formed archive returns and prints the names of its files, all of
  them and in order.
\<close>

theorem cpio_ls_correct:
  assumes "cpio_at mem a files" "length files < fuel"
  shows "\<exists>ps. cpio_ls fuel mem (of_nat a) = Inr ps \<and> length ps = length files \<and>
    (\<forall>i<length files. holds (peek mem (ps ! i)) (fst (files ! i)))"
  by (rule cpio_ls_names [OF assms])

theorem cpio_ls_correct_witness:
  "\<exists>p. cpio_ls 2 sample_mem 0 = Inr [p] \<and> holds (peek sample_mem p) ''f''"
  using cpio_ls_correct [OF sample_at, of 2] by (auto simp: length_Suc_conv)



end
