(* ===== verification/Timer.thy ===== *)
theory Timer
  imports Slab Strings
begin

text \<open>
  Timer multiplexing, \<open>src/timer.c\<close> with the register writes of \<open>src/timer.S\<close>. A
  \<open>timer_event_t *\<close> is the address \<open>kmalloc\<close> returned for it. The counter and its frequency are
  inputs of the operations that read them. Calling an event's callback, which only prints, is
  recorded in \<open>fired\<close>. Walks along \<open>timer_list\<close> run with a bound of one step per byte of managed
  memory, more than there can be events.
\<close>

section \<open>State\<close>

datatype timer_node = Null_Timer | Timer_List | Event_Node u64

record timer_event =
  registerTime :: u64
  prevUpdatedTime :: u64
  duration :: u64
  remainingTime :: u64
  msg_args :: cbuf

record timer_state =
  tm_mm :: mm_state
  events :: "u64 \<Rightarrow> timer_event"
  tlinks :: "timer_node list_heap"
  isTimerMultiplexingEventIRQ :: bool
  cntp_ctl :: u64
  cntkctl :: u64
  cntp_tval :: u64
  core0_timer_irq_ctrl :: u64
  fired :: "u64 list"

definition WALK_BOUND :: nat where
  "WALK_BOUND = 2 ^ 24"

text \<open>The cast of a list node to the event it is embedded in.\<close>

fun event_of :: "timer_node \<Rightarrow> u64 result" where
  "event_of (Event_Node e) = Inr e"
| "event_of Null_Timer = Inl Null_Deref"
| "event_of Timer_List = Inl Bad_Cast"

section \<open>Operations\<close>

definition get_system_time :: "u64 \<Rightarrow> u64 \<Rightarrow> u64" where
  "get_system_time cnt_freq cnt_tpct = cnt_tpct div cnt_freq"

definition core_timer_enable :: "u64 \<Rightarrow> timer_state \<Rightarrow> timer_state" where
  "core_timer_enable freq s =
     s\<lparr>cntp_ctl := 1, cntkctl := cntkctl s OR 1, cntp_tval := signed_drop_bit 5 freq,
       core0_timer_irq_ctrl := 2\<rparr>"

definition core_timer_disable :: "timer_state \<Rightarrow> timer_state" where
  "core_timer_disable s =
     s\<lparr>cntp_ctl := cntp_ctl s AND (1 XOR 1), core0_timer_irq_ctrl := core0_timer_irq_ctrl s AND (2 XOR 2)\<rparr>"

definition core_timer_handler :: "u64 \<Rightarrow> timer_state \<Rightarrow> timer_state" where
  "core_timer_handler freq s = s\<lparr>cntp_tval := signed_drop_bit 5 freq\<rparr>"

text \<open>The message loop of \<open>InitalizeNewTimerEvent\<close>; \<open>args\<close> has room for thirty bytes.\<close>

function copy_args :: "cbuf \<Rightarrow> nat \<Rightarrow> cbuf \<Rightarrow> nat \<Rightarrow> cbuf result" where
  "copy_args src n dst i =
     (if i < n then bind_result (rd src i) (\<lambda>c. bind_result (wr dst i c) (\<lambda>d. copy_args src n d (i + 1)))
      else wr dst i NUL)"
  by pat_completeness auto
termination
  by (relation "measure (\<lambda>(src, n, dst, i). n - i)") auto

declare copy_args.simps [simp del]

definition InitalizeNewTimerEvent :: "u64 \<Rightarrow> cbuf \<Rightarrow> u64 \<Rightarrow> u64 \<Rightarrow> timer_state \<Rightarrow> timer_state result" where
  "InitalizeNewTimerEvent e args dur register_time s =
     (let s1 = s\<lparr>tlinks := (tlinks s)(Event_Node e := \<lparr>nxt = Null_Timer, prv = Null_Timer\<rparr>)\<rparr>
      in bind_result (strlen args) (\<lambda>n.
         bind_result (copy_args args n (msg_args (events s e)) 0) (\<lambda>msg.
           Inr (s1\<lparr>events := (events s)(e := \<lparr>registerTime = register_time, prevUpdatedTime = register_time,
             duration = dur, remainingTime = dur, msg_args = msg\<rparr>)\<rparr>))))"

definition update_event :: "u64 \<Rightarrow> timer_event \<Rightarrow> timer_event" where
  "update_event system_time te =
     (let temp = system_time - prevUpdatedTime te
      in te\<lparr>remainingTime := remainingTime te - temp, prevUpdatedTime := system_time\<rparr>)"

fun update_nodes :: "u64 \<Rightarrow> timer_node list \<Rightarrow> timer_state \<Rightarrow> timer_state result" where
  "update_nodes t [] s = Inr s"
| "update_nodes t (n # ns) s =
     bind_result (event_of n) (\<lambda>e.
       update_nodes t ns (s\<lparr>events := (events s)(e := update_event t (events s e))\<rparr>))"

definition UpdateTimerEvents :: "u64 \<Rightarrow> timer_state \<Rightarrow> timer_state result" where
  "UpdateTimerEvents system_time s =
     (case list_for_each WALK_BOUND (tlinks s) (nxt (tlinks s Timer_List)) Timer_List of
        None \<Rightarrow> Inl No_Return
      | Some nodes \<Rightarrow> update_nodes system_time nodes s)"

text \<open>The search of \<open>AddNewTimerEvents\<close>: the first event with more time left, if there is one.\<close>

fun find_greater :: "nat \<Rightarrow> u64 \<Rightarrow> timer_node \<Rightarrow> timer_state \<Rightarrow> timer_node option result" where
  "find_greater 0 r pos s = Inl No_Return"
| "find_greater (Suc fuel) r pos s =
     (if pos = Timer_List then Inr None
      else bind_result (event_of pos) (\<lambda>e.
        if r < remainingTime (events s e) then Inr (Some pos)
        else find_greater fuel r (nxt (tlinks s pos)) s))"

definition AddNewTimerEvents :: "u64 \<Rightarrow> timer_state \<Rightarrow> timer_state result" where
  "AddNewTimerEvents e s =
     (if list_empty Timer_List (tlinks s) then
        Inr (s\<lparr>tlinks := list_add (Event_Node e) Timer_List (tlinks s)\<rparr>)
      else
        bind_result (find_greater (Suc WALK_BOUND) (remainingTime (events s e)) (nxt (tlinks s Timer_List)) s) (\<lambda>r.
          let s1 = (case r of
                      None \<Rightarrow> s
                    | Some cur \<Rightarrow> s\<lparr>tlinks := list_add (Event_Node e) (prv (tlinks s cur)) (tlinks s)\<rparr>)
          in Inr (if prv (tlinks s1 (Event_Node e)) = Null_Timer
                  then s1\<lparr>tlinks := list_add_tail (Event_Node e) Timer_List (tlinks s1)\<rparr>
                  else s1)))"

definition setNextTimerEventInterrupt :: "u64 \<Rightarrow> timer_state \<Rightarrow> timer_state result" where
  "setNextTimerEventInterrupt freq s =
     bind_result (event_of (nxt (tlinks s Timer_List))) (\<lambda>e.
       let next_timeout_duration = remainingTime (events s e);
           s1 = core_timer_enable freq s
       in Inr (s1\<lparr>cntp_tval := freq * next_timeout_duration\<rparr>))"

abbreviation SIZEOF_TIMER_EVENT :: int where "SIZEOF_TIMER_EVENT \<equiv> 88"

text \<open>A null pointer from \<open>kmalloc\<close> is written through.\<close>

definition add_timer :: "u64 \<Rightarrow> u64 \<Rightarrow> cbuf \<Rightarrow> u64 \<Rightarrow> timer_state \<Rightarrow> timer_state result" where
  "add_timer freq cnt args dur s =
     bind_result (kmalloc SIZEOF_TIMER_EVENT (tm_mm s)) (\<lambda>(m, e).
       if e = 0 then Inl Null_Deref
       else
         let current_system_time = get_system_time freq cnt
         in bind_result (InitalizeNewTimerEvent e args dur current_system_time (s\<lparr>tm_mm := m\<rparr>)) (\<lambda>s1.
            bind_result (UpdateTimerEvents current_system_time (s1\<lparr>isTimerMultiplexingEventIRQ := True\<rparr>)) (\<lambda>s2.
            bind_result (AddNewTimerEvents e s2) (setNextTimerEventInterrupt freq))))"

definition timerEvents_irq_handler :: "u64 \<Rightarrow> u64 \<Rightarrow> timer_state \<Rightarrow> timer_state result" where
  "timerEvents_irq_handler freq cnt s =
     bind_result (UpdateTimerEvents (get_system_time freq cnt) s) (\<lambda>s1.
     bind_result (event_of (nxt (tlinks s1 Timer_List))) (\<lambda>e.
       let s2 = s1\<lparr>fired := fired s1 @ [e]\<rparr>;
           s3 = s2\<lparr>tlinks := list_del (nxt (tlinks s2 Timer_List)) (tlinks s2)\<rparr>
       in if \<not> list_empty Timer_List (tlinks s3) then setNextTimerEventInterrupt freq s3
          else Inr ((core_timer_disable s3)\<lparr>isTimerMultiplexingEventIRQ := False\<rparr>)))"

end
