(* ===== verification/Timer_Props.thy ===== *)
theory Timer_Props
  imports Timer Kmalloc_Props
begin

text \<open>
  The timer list holds the pending events in the order of their deadlines, as long as no
  update comes later than the first deadline. What happens after a late update is shown too.
\<close>

section \<open>The invariant\<close>

definition deadline :: "timer_state \<Rightarrow> u64 \<Rightarrow> nat" where
  "deadline s e = unat (prevUpdatedTime (events s e)) + unat (remainingTime (events s e))"

definition expires :: "timer_state \<Rightarrow> u64 \<Rightarrow> nat" where
  "expires s e = unat (registerTime (events s e)) + unat (duration (events s e))"

definition timer_list_ok :: "timer_state \<Rightarrow> u64 list \<Rightarrow> bool" where
  "timer_list_ok s es \<longleftrightarrow> dlist (tlinks s) Timer_List (map Event_Node es) \<and> length es \<le> WALK_BOUND \<and>
     (\<forall>e. length (msg_args (events s e)) = 30)"

text \<open>All pending events were brought up to date at the same time \<open>u\<close>, and are sorted.\<close>

definition timer_inv :: "timer_state \<Rightarrow> u64 list \<Rightarrow> u64 \<Rightarrow> bool" where
  "timer_inv s es u \<longleftrightarrow> timer_list_ok s es \<and>
     (\<forall>e\<in>set es. prevUpdatedTime (events s e) = u \<and> deadline s e = expires s e) \<and>
     sorted (map (expires s) es)"

definition insert_by :: "('a \<Rightarrow> nat) \<Rightarrow> 'a \<Rightarrow> 'a list \<Rightarrow> 'a list" where
  "insert_by f x xs = takeWhile (\<lambda>y. f y \<le> f x) xs @ x # dropWhile (\<lambda>y. f y \<le> f x) xs"

lemma dropWhile_sorted_gt:
  fixes f :: "'a \<Rightarrow> nat"
  shows "sorted (map f xs) \<Longrightarrow> y \<in> set (dropWhile (\<lambda>y. f y \<le> k) xs) \<Longrightarrow> k < f y"
proof (induction xs)
  case (Cons a xs)
  then show ?case by (cases "f a \<le> k") force+
qed simp

lemma sorted_insert_between:
  fixes f :: "'a \<Rightarrow> nat"
  assumes "sorted (map f (a @ b))" "\<forall>y\<in>set a. f y \<le> f x" "\<forall>y\<in>set b. f x \<le> f y"
  shows "sorted (map f (a @ x # b))"
  using assms by (auto simp: sorted_append)

lemma insert_by_sorted:
  assumes "sorted (map f xs)"
  shows "sorted (map f (insert_by f x xs))"
  unfolding insert_by_def
proof (rule sorted_insert_between)
  show "\<forall>y\<in>set (dropWhile (\<lambda>y. f y \<le> f x) xs). f x \<le> f y"
    using dropWhile_sorted_gt [OF assms] by (blast intro: less_imp_le)
qed (use assms in \<open>auto dest: set_takeWhileD\<close>)

lemma insert_by_set [simp]: "set (insert_by f x xs) = insert x (set xs)"
proof -
  have "set (takeWhile P xs) \<union> set (dropWhile P xs) = set xs" for P
    by (metis set_append takeWhile_dropWhile_id)
  then show ?thesis by (simp add: insert_by_def)
qed

lemma insert_by_length [simp]: "length (insert_by f x xs) = Suc (length xs)"
proof -
  have "length (takeWhile P xs) + length (dropWhile P xs) = length xs" for P
    by (metis length_append takeWhile_dropWhile_id)
  then show ?thesis by (simp add: insert_by_def)
qed

lemma insert_by_cong: "(\<And>y. y \<in> insert x (set xs) \<Longrightarrow> f y = g y) \<Longrightarrow> insert_by f x xs = insert_by g x xs"
proof -
  assume fg: "\<And>y. y \<in> insert x (set xs) \<Longrightarrow> f y = g y"
  have "takeWhile (\<lambda>y. f y \<le> f x) xs = takeWhile (\<lambda>y. g y \<le> g x) xs"
    "dropWhile (\<lambda>y. f y \<le> f x) xs = dropWhile (\<lambda>y. g y \<le> g x) xs"
    using fg by (auto intro: takeWhile_cong dropWhile_cong)
  then show ?thesis by (simp add: insert_by_def)
qed

lemma expires_cong: "events s' = events s \<Longrightarrow> expires s' = expires s"
  by (simp add: fun_eq_iff expires_def)

lemma deadline_cong: "events s' = events s \<Longrightarrow> deadline s' = deadline s"
  by (simp add: fun_eq_iff deadline_def)

lemma timer_inv_cong:
  assumes "tlinks s' = tlinks s" "events s' = events s"
  shows "timer_inv s' es u \<longleftrightarrow> timer_inv s es u"
  using assms by (simp add: timer_inv_def timer_list_ok_def expires_cong [OF assms(2)] deadline_cong [OF assms(2)])

section \<open>Updating\<close>

lemma update_nodes_eq:
  "distinct es \<Longrightarrow> update_nodes t (map Event_Node es) s =
     Inr (s\<lparr>events := \<lambda>e. if e \<in> set es then update_event t (events s e) else events s e\<rparr>)"
proof (induction es arbitrary: s)
  case (Cons a es)
  let ?s = "s\<lparr>events := (events s)(a := update_event t (events s a))\<rparr>"
  have "(\<lambda>e. if e \<in> set es then update_event t (events ?s e) else events ?s e) =
      (\<lambda>e. if e \<in> set (a # es) then update_event t (events s e) else events s e)"
    using Cons.prems by (auto simp: fun_eq_iff)
  with Cons.IH [of ?s] Cons.prems show ?case by simp
qed simp

lemma UpdateTimerEvents_eq:
  assumes "timer_list_ok s es"
  shows "UpdateTimerEvents t s =
    Inr (s\<lparr>events := \<lambda>e. if e \<in> set es then update_event t (events s e) else events s e\<rparr>)"
proof -
  have d: "dlist (tlinks s) Timer_List (map Event_Node es)" using assms by (simp add: timer_list_ok_def)
  then have "distinct es" by (auto simp: dlist_def distinct_map)
  moreover have "list_for_each WALK_BOUND (tlinks s) (nxt (tlinks s Timer_List)) Timer_List = Some (map Event_Node es)"
    using assms by (intro list_for_each_dlist [OF d]) (simp add: timer_list_ok_def)
  ultimately show ?thesis by (simp add: UpdateTimerEvents_def update_nodes_eq)
qed

text \<open>An update that is not late moves time from \<open>remainingTime\<close> to \<open>prevUpdatedTime\<close>.\<close>

lemma update_event_on_time:
  assumes "prevUpdatedTime te \<le> t" "unat t \<le> unat (prevUpdatedTime te) + unat (remainingTime te)"
  shows "unat (prevUpdatedTime (update_event t te)) + unat (remainingTime (update_event t te)) =
    unat (prevUpdatedTime te) + unat (remainingTime te)"
proof -
  have le: "unat (prevUpdatedTime te) \<le> unat t" using assms(1) by (simp add: word_le_nat_alt)
  have d: "unat (t - prevUpdatedTime te) = unat t - unat (prevUpdatedTime te)"
    using assms(1) by (simp add: unat_sub)
  then have "t - prevUpdatedTime te \<le> remainingTime te" using assms(2) by (simp add: word_le_nat_alt)
  then have "unat (remainingTime te - (t - prevUpdatedTime te)) = unat (remainingTime te) - (unat t - unat (prevUpdatedTime te))"
    using d by (simp add: unat_sub)
  then show ?thesis using le assms(2) by (simp add: update_event_def Let_def)
qed

lemma update_inv:
  assumes i: "timer_inv s es u" and t: "u \<le> t" "\<forall>e\<in>set es. unat t \<le> expires s e"
  defines "s' \<equiv> s\<lparr>events := \<lambda>e. if e \<in> set es then update_event t (events s e) else events s e\<rparr>"
  shows "UpdateTimerEvents t s = Inr s'" "timer_inv s' es t" "expires s' = expires s"
proof -
  have ok: "timer_list_ok s es" using i by (simp add: timer_inv_def)
  show "UpdateTimerEvents t s = Inr s'" using UpdateTimerEvents_eq [OF ok] by (simp add: s'_def)
  show ex: "expires s' = expires s" by (auto simp: fun_eq_iff expires_def s'_def update_event_def Let_def)
  have "deadline s' e = expires s' e \<and> prevUpdatedTime (events s' e) = t" if e: "e \<in> set es" for e
  proof -
    have p: "prevUpdatedTime (events s e) = u" "deadline s e = expires s e" using i e by (auto simp: timer_inv_def)
    have "deadline s' e = deadline s e"
      using update_event_on_time [of "events s e" t] p t e by (simp add: deadline_def s'_def)
    then show ?thesis using p(2) ex e by (simp add: s'_def update_event_def Let_def)
  qed
  moreover have "timer_list_ok s' es" using ok by (simp add: timer_list_ok_def s'_def update_event_def Let_def)
  moreover have "sorted (map (expires s') es)" using i ex by (simp add: timer_inv_def)
  ultimately show "timer_inv s' es t" by (simp add: timer_inv_def)
qed

section \<open>Inserting\<close>

declare find_greater.simps(2) [simp del]

lemma find_greater_seg:
  assumes "dseg (tlinks s) a (map Event_Node es) Timer_List" "length es < fuel"
  shows "find_greater fuel r (nxt (tlinks s a)) s =
    Inr (case dropWhile (\<lambda>x. remainingTime (events s x) \<le> r) es of [] \<Rightarrow> None | x # _ \<Rightarrow> Some (Event_Node x))"
  using assms
proof (induction es arbitrary: a fuel)
  case Nil
  then obtain g where "fuel = Suc g" by (cases fuel) auto
  with Nil show ?case by (simp add: find_greater.simps(2))
next
  case (Cons x es)
  obtain g where g: "fuel = Suc g" "length es < g" using Cons.prems(2) by (cases fuel) auto
  have n: "nxt (tlinks s a) = Event_Node x" "dseg (tlinks s) (Event_Node x) (map Event_Node es) Timer_List"
    using Cons.prems(1) by auto
  show ?case using Cons.IH [OF n(2) g(2)] g n(1) by (auto simp: not_less find_greater.simps(2))
qed

lemma AddNewTimerEvents_eq:
  assumes d: "dlist (tlinks s) Timer_List (map Event_Node es)" and e: "e \<notin> set es"
    and l: "length es \<le> WALK_BOUND" and z: "prv (tlinks s (Event_Node e)) = Null_Timer"
  shows "\<exists>h. AddNewTimerEvents e s = Inr (s\<lparr>tlinks := h\<rparr>) \<and>
    dlist h Timer_List (map Event_Node (insert_by (\<lambda>x. unat (remainingTime (events s x))) e es))"
proof -
  let ?r = "remainingTime (events s e)"
  let ?pre = "takeWhile (\<lambda>x. remainingTime (events s x) \<le> ?r) es"
  let ?post = "dropWhile (\<lambda>x. remainingTime (events s x) \<le> ?r) es"
  have ins: "insert_by (\<lambda>x. unat (remainingTime (events s x))) e es = ?pre @ e # ?post"
    by (simp add: insert_by_def word_le_nat_alt)
  have n: "Event_Node e \<notin> set (Timer_List # map Event_Node ?pre @ map Event_Node ?post)"
    using e by (auto dest: set_takeWhileD set_dropWhileD)
  have split: "dlist (tlinks s) Timer_List (map Event_Node ?pre @ map Event_Node ?post)"
    using d by (metis map_append takeWhile_dropWhile_id)
  have seg: "dseg (tlinks s) Timer_List (map Event_Node es) Timer_List" using d by (simp add: dlist_def)
  have fg: "find_greater (Suc WALK_BOUND) ?r (nxt (tlinks s Timer_List)) s =
      Inr (case ?post of [] \<Rightarrow> None | x # _ \<Rightarrow> Some (Event_Node x))"
    using find_greater_seg [OF seg, of "Suc WALK_BOUND" ?r] l by simp
  show ?thesis
  proof (cases "es = []")
    case True
    then have "list_empty Timer_List (tlinks s)" using dlist_list_empty [OF d] by simp
    moreover have "dlist (list_add (Event_Node e) Timer_List (tlinks s)) Timer_List [Event_Node e]"
      using dlist_add [OF d] True by simp
    ultimately show ?thesis using True by (auto simp: AddNewTimerEvents_def insert_by_def)
  next
    case False
    then have ne: "\<not> list_empty Timer_List (tlinks s)" using dlist_list_empty [OF d] by simp
    show ?thesis
    proof (cases ?post)
      case Nil
      then have r: "AddNewTimerEvents e s = Inr (s\<lparr>tlinks := list_add_tail (Event_Node e) Timer_List (tlinks s)\<rparr>)"
        using ne fg [unfolded Nil] z by (simp add: AddNewTimerEvents_def Let_def)
      have "dlist (list_add_tail (Event_Node e) Timer_List (tlinks s)) Timer_List (map Event_Node ?pre @ [Event_Node e])"
        using dlist_add_tail [of "tlinks s" Timer_List "map Event_Node ?pre" "Event_Node e"] split n Nil by simp
      then show ?thesis using r ins Nil by auto
    next
      case (Cons x post)
      let ?a = "last (Timer_List # map Event_Node ?pre)"
      have "dseg (tlinks s) Timer_List (map Event_Node ?pre @ Event_Node x # map Event_Node post) Timer_List"
        using split Cons by (simp add: dlist_def)
      then have "dseg (tlinks s) Timer_List (map Event_Node ?pre) (Event_Node x)" by (simp add: dseg_append)
      then have a: "prv (tlinks s (Event_Node x)) = ?a" by (rule dseg_last)
      let ?h = "list_add (Event_Node e) ?a (tlinks s)"
      have dl: "dlist ?h Timer_List (map Event_Node ?pre @ Event_Node e # map Event_Node ?post)"
        by (rule dlist_insert_after [OF split n refl])
      then have "dseg ?h Timer_List (map Event_Node ?pre) (Event_Node e)" by (simp add: dlist_def dseg_append)
      then have "prv (?h (Event_Node e)) = ?a" by (rule dseg_last)
      moreover have "?a \<noteq> Null_Timer" by (cases ?pre rule: rev_cases) auto
      ultimately have "AddNewTimerEvents e s = Inr (s\<lparr>tlinks := ?h\<rparr>)"
        using ne fg [unfolded Cons] a by (simp add: AddNewTimerEvents_def Let_def)
      then show ?thesis using dl ins by auto
    qed
  qed
qed

lemma copy_args_eq:
  assumes "cstr args m" "i \<le> length m" "length m < length dst"
  shows "\<exists>d. copy_args args (length m) dst i = Inr d \<and> length d = length dst"
  using assms(2,3)
proof (induction "length m - i" arbitrary: i dst)
  case 0
  then show ?case by (subst copy_args.simps) (simp add: wr_def)
next
  case (Suc k)
  then have i: "i < length m" by simp
  have "k = length m - (i + 1)" using Suc.hyps(2) by simp
  then obtain d where "copy_args args (length m) (dst[i := m ! i]) (i + 1) = Inr d" "length d = length dst"
    using Suc.hyps(1) [of "i + 1" "dst[i := m ! i]"] Suc.prems i by auto
  with cstr_nth [OF assms(1) i] i Suc.prems show ?case by (subst copy_args.simps) (simp add: rd_def wr_def)
qed

section \<open>Programming the next interrupt\<close>

definition next_interrupt :: "u64 \<Rightarrow> u64 \<Rightarrow> timer_state \<Rightarrow> u64 list \<Rightarrow> bool" where
  "next_interrupt freq t s es \<longleftrightarrow> cntp_ctl s = 1 \<and> core0_timer_irq_ctrl s = 2 \<and>
     (\<exists>d. cntp_tval s = freq * d \<and> unat t + unat d = Min (expires s ` set es))"

lemma sorted_Min_hd: "sorted (map f (x # xs)) \<Longrightarrow> Min (f ` set (x # xs)) = (f x :: nat)"
  by (rule Min_eqI) auto

lemma set_next_correct:
  assumes i: "timer_inv s es t" and ne: "es \<noteq> []"
  shows "\<exists>s'. setNextTimerEventInterrupt freq s = Inr s' \<and> timer_inv s' es t \<and> next_interrupt freq t s' es \<and>
    events s' = events s \<and> fired s' = fired s \<and> tm_mm s' = tm_mm s \<and>
    isTimerMultiplexingEventIRQ s' = isTimerMultiplexingEventIRQ s"
proof -
  obtain x xs where es: "es = x # xs" using ne by (cases es) auto
  have n: "nxt (tlinks s Timer_List) = Event_Node x"
    using i es by (auto simp: timer_inv_def timer_list_ok_def dlist_def)
  let ?s = "(core_timer_enable freq s)\<lparr>cntp_tval := freq * remainingTime (events s x)\<rparr>"
  have r: "setNextTimerEventInterrupt freq s = Inr ?s" using n by (simp add: setNextTimerEventInterrupt_def Let_def)
  have same: "expires ?s = expires s" "deadline ?s = deadline s" "events ?s = events s"
    by (simp_all add: fun_eq_iff expires_def deadline_def core_timer_enable_def)
  have "timer_inv ?s es t" using i same by (simp add: timer_inv_def timer_list_ok_def core_timer_enable_def)
  moreover have "Min (expires s ` set es) = expires s x"
    using i sorted_Min_hd [of "expires s" x xs] es by (simp add: timer_inv_def)
  moreover have "unat t + unat (remainingTime (events s x)) = expires s x"
    using i es by (auto simp: timer_inv_def deadline_def)
  ultimately show ?thesis
    using r same by (auto simp: next_interrupt_def core_timer_enable_def)
qed

section \<open>Adding an event\<close>

lemma Initalize_eq:
  assumes "cstr args m" "length m < 30" "length (msg_args (events s e)) = 30"
  shows "\<exists>te. InitalizeNewTimerEvent e args dur t s =
      Inr (s\<lparr>tlinks := (tlinks s)(Event_Node e := \<lparr>nxt = Null_Timer, prv = Null_Timer\<rparr>),
             events := (events s)(e := te)\<rparr>) \<and>
    registerTime te = t \<and> prevUpdatedTime te = t \<and> duration te = dur \<and> remainingTime te = dur \<and> length (msg_args te) = 30"
proof -
  obtain d where "copy_args args (length m) (msg_args (events s e)) 0 = Inr d" "length d = 30"
    using copy_args_eq [OF assms(1), of 0 "msg_args (events s e)"] assms(2,3) by auto
  moreover have "strlen args = Inr (length m)" using assms(1) by (rule strlen_cstr)
  ultimately show ?thesis
    by (intro exI [of _ "\<lparr>registerTime = t, prevUpdatedTime = t, duration = dur, remainingTime = dur, msg_args = d\<rparr>"])
      (simp add: InitalizeNewTimerEvent_def Let_def)
qed

text \<open>A fresh node that is linked nowhere does not disturb the list.\<close>

lemma timer_inv_fresh:
  assumes "timer_inv s es u" "e \<notin> set es" "length (msg_args te) = 30"
  shows "timer_inv (s\<lparr>tlinks := (tlinks s)(Event_Node e := l), events := (events s)(e := te)\<rparr>) es u"
proof -
  let ?s = "s\<lparr>tlinks := (tlinks s)(Event_Node e := l), events := (events s)(e := te)\<rparr>"
  have "dlist (tlinks s) Timer_List (map Event_Node es)" using assms(1) by (simp add: timer_inv_def timer_list_ok_def)
  then have "dlist ((tlinks s)(Event_Node e := l)) Timer_List (map Event_Node es)"
    by (rule dlist_frame) (use assms(2) in auto)
  then have ok: "timer_list_ok ?s es" using assms by (simp add: timer_inv_def timer_list_ok_def)
  have same: "expires ?s x = expires s x" "deadline ?s x = deadline s x" "events ?s x = events s x" if "x \<in> set es" for x
    using that assms(2) by (auto simp: expires_def deadline_def)
  then have "map (expires ?s) es = map (expires s) es" by simp
  then have "sorted (map (expires ?s) es)" using assms(1) by (simp only: timer_inv_def)
  then show ?thesis using assms(1) ok same by (auto simp: timer_inv_def)
qed

text \<open>Once every event is brought up to date at the same time, the order of the time left is the order of expiry.\<close>

lemma insert_by_remaining:
  assumes "\<forall>x\<in>insert e (set es). prevUpdatedTime (events s x) = t \<and> deadline s x = expires s x"
  shows "insert_by (\<lambda>x. unat (remainingTime (events s x))) e es = insert_by (expires s) e es"
proof -
  have "unat (remainingTime (events s x)) + unat t = expires s x" if "x \<in> insert e (set es)" for x
    using assms that by (force simp: deadline_def)
  then have le: "unat (remainingTime (events s x)) \<le> unat (remainingTime (events s e)) \<longleftrightarrow> expires s x \<le> expires s e"
    if "x \<in> set es" for x
    using that by (metis add_le_cancel_right insertI1 insertI2)
  then show ?thesis unfolding insert_by_def by (simp cong: takeWhile_cong dropWhile_cong)
qed

lemma add_new_inv:
  assumes i: "timer_inv s es t" and e: "e \<notin> set es" "length es < WALK_BOUND"
    and n: "prevUpdatedTime (events s e) = t" "deadline s e = expires s e" "prv (tlinks s (Event_Node e)) = Null_Timer"
  shows "\<exists>h. AddNewTimerEvents e s = Inr (s\<lparr>tlinks := h\<rparr>) \<and> timer_inv (s\<lparr>tlinks := h\<rparr>) (insert_by (expires s) e es) t"
proof -
  have a: "\<forall>x\<in>insert e (set es). prevUpdatedTime (events s x) = t \<and> deadline s x = expires s x"
    and ok: "timer_list_ok s es" and so: "sorted (map (expires s) es)"
    using i n by (auto simp: timer_inv_def)
  obtain h where h: "AddNewTimerEvents e s = Inr (s\<lparr>tlinks := h\<rparr>)"
    "dlist h Timer_List (map Event_Node (insert_by (expires s) e es))"
    using AddNewTimerEvents_eq [of s es e] ok e n(3) insert_by_remaining [OF a] by (auto simp: timer_list_ok_def)
  have same: "expires (s\<lparr>tlinks := h\<rparr>) = expires s" "deadline (s\<lparr>tlinks := h\<rparr>) = deadline s"
    by (simp_all add: fun_eq_iff expires_def deadline_def)
  have "timer_inv (s\<lparr>tlinks := h\<rparr>) (insert_by (expires s) e es) t"
    using h(2) ok e(2) a insert_by_sorted [OF so, of e] by (simp add: timer_inv_def timer_list_ok_def same)
  with h(1) show ?thesis by blast
qed

section \<open>Properties\<close>


text \<open>The state after start-up: an empty list, no timer running, \<open>kmalloc\<close> initialised.\<close>

definition timer_start :: timer_state where
  "timer_start = \<lparr>tm_mm = mm_init bss_mm,
     events = (\<lambda>_. \<lparr>registerTime = 0, prevUpdatedTime = 0, duration = 0, remainingTime = 0, msg_args = replicate 30 NUL\<rparr>),
     tlinks = INIT_LIST_HEAD Timer_List (\<lambda>_. \<lparr>nxt = Null_Timer, prv = Null_Timer\<rparr>),
     isTimerMultiplexingEventIRQ = False, cntp_ctl = 0, cntkctl = 0, cntp_tval = 0, core0_timer_irq_ctrl = 0, fired = []\<rparr>"

lemma timer_start_inv: "timer_inv timer_start [] 0"
  by (simp add: timer_inv_def timer_list_ok_def timer_start_def dlist_INIT)

lemma cstr_ding: "cstr (''ding'' @ [NUL]) ''ding''"
  by (simp add: cstr_def)


section \<open>The interrupt handler\<close>

lemma irq_step:
  assumes i: "timer_inv s (e # es) u" and t: "t = get_system_time freq cnt" "u \<le> t"
    "\<forall>x\<in>set (e # es). unat t \<le> expires s x"
  shows "\<exists>s'. timerEvents_irq_handler freq cnt s = Inr s' \<and> timer_inv s' es t \<and> expires s' = expires s \<and>
    fired s' = fired s @ [e] \<and> tm_mm s' = tm_mm s \<and>
    (if es = [] then cntp_ctl s' = 0 \<and> core0_timer_irq_ctrl s' = 0 \<and> \<not> isTimerMultiplexingEventIRQ s'
     else next_interrupt freq t s' es \<and> isTimerMultiplexingEventIRQ s' = isTimerMultiplexingEventIRQ s)"
proof -
  define s1 where "s1 = s\<lparr>events := \<lambda>x. if x \<in> set (e # es) then update_event t (events s x) else events s x\<rparr>"
  have u: "UpdateTimerEvents t s = Inr s1" "timer_inv s1 (e # es) t" "expires s1 = expires s"
    using update_inv [OF i t(2,3)] by (simp_all only: s1_def)
  have d: "dlist (tlinks s1) Timer_List (Event_Node e # map Event_Node es)"
    using u(2) by (simp add: timer_inv_def timer_list_ok_def)
  then have n: "nxt (tlinks s1 Timer_List) = Event_Node e" by (simp add: dlist_def)
  define s3 where "s3 = s1\<lparr>fired := fired s1 @ [e], tlinks := list_del (Event_Node e) (tlinks s1)\<rparr>"
  have d3: "dlist (tlinks s3) Timer_List (map Event_Node es)"
    using dlist_del [of "tlinks s1" Timer_List "[]"] d by (simp add: s3_def)
  have ex3: "expires s3 = expires s1" "deadline s3 = deadline s1" "events s3 = events s1"
    by (simp_all add: s3_def fun_eq_iff expires_def deadline_def)
  have i3: "timer_inv s3 es t" using u(2) d3 by (simp add: timer_inv_def timer_list_ok_def ex3)
  have f3: "fired s3 = fired s @ [e]" "tm_mm s3 = tm_mm s" "isTimerMultiplexingEventIRQ s3 = isTimerMultiplexingEventIRQ s"
    by (simp_all add: s3_def s1_def)
  have run: "timerEvents_irq_handler freq cnt s =
      (if es \<noteq> [] then setNextTimerEventInterrupt freq s3 else Inr ((core_timer_disable s3)\<lparr>isTimerMultiplexingEventIRQ := False\<rparr>))"
    using u(1) n dlist_list_empty [OF d3] by (simp add: timerEvents_irq_handler_def Let_def s3_def flip: t(1))
  show ?thesis
  proof (cases "es = []")
    case True
    let ?s = "(core_timer_disable s3)\<lparr>isTimerMultiplexingEventIRQ := False\<rparr>"
    have "tlinks ?s = tlinks s3" "events ?s = events s3" by (simp_all add: core_timer_disable_def)
    then have "timer_inv ?s es t" "expires ?s = expires s3" using i3 timer_inv_cong expires_cong by blast+
    then show ?thesis using run True f3 ex3 u(3) by (simp add: core_timer_disable_def)
  next
    case False
    from set_next_correct [OF i3 False, of freq] obtain s' where
      "setNextTimerEventInterrupt freq s3 = Inr s'" "timer_inv s' es t" "next_interrupt freq t s' es" "events s' = events s3"
      "fired s' = fired s3" "tm_mm s' = tm_mm s3" "isTimerMultiplexingEventIRQ s' = isTimerMultiplexingEventIRQ s3" by blast
    then show ?thesis using run False f3 ex3 u(3) expires_cong [of s' s3] by simp
  qed
qed

text \<open>The interrupts of a row of counter values.\<close>

fun run_irqs :: "u64 \<Rightarrow> u64 list \<Rightarrow> timer_state \<Rightarrow> timer_state result" where
  "run_irqs freq [] s = Inr s"
| "run_irqs freq (cnt # cnts) s = bind_result (timerEvents_irq_handler freq cnt s) (run_irqs freq cnts)"

text \<open>
  C23. The timer interrupts fire the pending events in the order of expiry: if the handler runs
  once per event, at times that do not go back and are not later than the expiry of the events
  still pending, every event is fired, each once and in the order of the list, which is sorted
  by expiry; then the list is empty and the timer is switched off.
\<close>

theorem run_irqs_correct:
  assumes "timer_inv s es u" "length cnts = length es" "es \<noteq> []"
    "sorted (map (get_system_time freq) cnts)" "\<forall>c\<in>set cnts. u \<le> get_system_time freq c"
    "\<forall>i<length es. unat (get_system_time freq (cnts ! i)) \<le> expires s (es ! i)"
  shows "\<exists>s'. run_irqs freq cnts s = Inr s' \<and> fired s' = fired s @ es \<and> list_empty Timer_List (tlinks s') \<and>
    cntp_ctl s' = 0 \<and> \<not> isTimerMultiplexingEventIRQ s' \<and> sorted (map (expires s) es)"
  using assms
proof (induction es arbitrary: s u cnts)
  case (Cons e es)
  obtain c cs where c: "cnts = c # cs" using Cons.prems(2) by (cases cnts) auto
  let ?t = "get_system_time freq c"
  have so: "sorted (map (expires s) (e # es))" using Cons.prems(1) by (simp add: timer_inv_def)
  have "unat ?t \<le> expires s e" using Cons.prems(6) c by force
  then have le: "\<forall>x\<in>set (e # es). unat ?t \<le> expires s x" using so by (auto intro: order_trans)
  have ut: "u \<le> ?t" using Cons.prems(5) c by simp
  obtain s1 where s1: "timerEvents_irq_handler freq c s = Inr s1" "timer_inv s1 es ?t" "expires s1 = expires s"
    "fired s1 = fired s @ [e]" "es = [] \<longrightarrow> cntp_ctl s1 = 0 \<and> \<not> isTimerMultiplexingEventIRQ s1"
    using irq_step [OF Cons.prems(1) refl ut le] by (auto split: if_splits)
  show ?case
  proof (cases "es = []")
    case True
    moreover have "dlist (tlinks s1) Timer_List (map Event_Node es)" using s1(2) by (simp add: timer_inv_def timer_list_ok_def)
    ultimately show ?thesis using s1 c Cons.prems(2) by (simp add: dlist_list_empty)
  next
    case False
    have "\<forall>i<length es. unat (get_system_time freq (cs ! i)) \<le> expires s1 (es ! i)"
      using Cons.prems(6) c s1(3) by force
    then have "\<exists>s'. run_irqs freq cs s1 = Inr s' \<and> fired s' = fired s1 @ es \<and> list_empty Timer_List (tlinks s') \<and>
        cntp_ctl s' = 0 \<and> \<not> isTimerMultiplexingEventIRQ s' \<and> sorted (map (expires s1) es)"
      using Cons.IH [OF s1(2) _ False, of cs] Cons.prems(2,4,5) c by simp
    then show ?thesis using s1(1,4) c so by auto
  qed
qed simp

text \<open>Two events that expire at 5 and 7, registered and last updated at 2.\<close>

definition timer_two :: timer_state where
  "timer_two = timer_start\<lparr>
     events := (events timer_start)(
       1 := \<lparr>registerTime = 2, prevUpdatedTime = 2, duration = 3, remainingTime = 3, msg_args = replicate 30 NUL\<rparr>,
       2 := \<lparr>registerTime = 2, prevUpdatedTime = 2, duration = 5, remainingTime = 5, msg_args = replicate 30 NUL\<rparr>),
     tlinks := list_add_tail (Event_Node 2) Timer_List (list_add_tail (Event_Node 1) Timer_List (tlinks timer_start))\<rparr>"

lemma timer_two_list:
  "dlist (list_add_tail (Event_Node 2) Timer_List (list_add_tail (Event_Node 1) Timer_List (tlinks timer_start)))
     Timer_List [Event_Node 1, Event_Node 2]"
proof -
  have "dlist (tlinks timer_start) Timer_List []" by (simp add: timer_start_def dlist_INIT)
  then have "dlist (list_add_tail (Event_Node 1) Timer_List (tlinks timer_start)) Timer_List [Event_Node 1]"
    using dlist_add_tail by fastforce
  then show ?thesis using dlist_add_tail by fastforce
qed

lemma timer_two_inv: "timer_inv timer_two [1, 2] 2"
  using timer_two_list
  by (simp add: timer_inv_def timer_list_ok_def timer_two_def WALK_BOUND_def deadline_def expires_def)
    (simp add: timer_start_def)

theorem run_irqs_correct_witness:
  "\<exists>s'. run_irqs 10 [50, 70] timer_two = Inr s' \<and> fired s' = [1, 2] \<and> list_empty Timer_List (tlinks s') \<and> cntp_ctl s' = 0"
proof -
  have "unat (get_system_time 10 50) \<le> expires timer_two 1" "unat (get_system_time 10 70) \<le> expires timer_two 2"
    by (simp_all add: get_system_time_def expires_def timer_two_def)
  then have "\<forall>i<length [1, 2::u64]. unat (get_system_time 10 ([50, 70] ! i)) \<le> expires timer_two ([1, 2] ! i)"
    by (simp add: All_less_Suc2)
  moreover have "fired timer_two = []" by (simp add: timer_two_def timer_start_def)
  ultimately show ?thesis
    using run_irqs_correct [OF timer_two_inv, of "[50, 70]" 10] by (auto simp: get_system_time_def)
qed

section \<open>Late updates\<close>

lemma wrap_sub: "int a = int b - int c + 2 ^ 64 \<Longrightarrow> b < c \<Longrightarrow> a = 2 ^ 64 - (c - b)"
  by simp

lemma update_event_late:
  assumes "prevUpdatedTime te \<le> t" "unat (prevUpdatedTime te) + unat (remainingTime te) < unat t"
  shows "unat (remainingTime (update_event t te)) =
    2 ^ 64 - (unat t - (unat (prevUpdatedTime te) + unat (remainingTime te)))"
proof -
  let ?r = "remainingTime te" and ?d = "t - prevUpdatedTime te"
  have d: "unat ?d = unat t - unat (prevUpdatedTime te)" using assms(1) by (simp add: unat_sub)
  then have lt: "unat ?r < unat ?d" using assms(2) by simp
  have "uint (?r - ?d) = uint ?r - uint ?d + 2 ^ 64"
    using uint_sub_if' [of ?r ?d] lt by (simp add: not_le flip: word_less_nat_alt word_less_def)
  then have "int (unat (?r - ?d)) = int (unat ?r) - int (unat ?d) + 2 ^ 64" by simp
  then have "unat (?r - ?d) = 2 ^ 64 - (unat ?d - unat ?r)" using lt by (rule wrap_sub)
  then show ?thesis using d assms by (simp add: update_event_def Let_def)
qed

text \<open>
  A late update loses an event: the time left is unsigned, so an event that is overdue by
  \<open>n\<close> seconds when another timer is added gets \<open>2 ^ 64 - n\<close> seconds left. The new event is
  put in front of it and the timer is programmed for the new event.
\<close>

theorem overdue_event_lost:
  assumes i: "timer_inv s [x] u" and km: "kmalloc 88 (tm_mm s) = Inr (m, e)" "e \<noteq> 0" "e \<noteq> x"
    and msg: "cstr args str" "length str < 30"
    and t: "t = get_system_time freq cnt" "u \<le> t" "expires s x < unat t"
    and dur: "unat dur < 2 ^ 64 - (unat t - expires s x)"
  shows "\<exists>s'. add_timer freq cnt args dur s = Inr s' \<and> dlist (tlinks s') Timer_List [Event_Node e, Event_Node x] \<and>
    unat (remainingTime (events s' x)) = 2 ^ 64 - (unat t - expires s x) \<and> cntp_tval s' = freq * dur"
proof -
  let ?s = "s\<lparr>tm_mm := m\<rparr>"
  have i0: "timer_inv ?s [x] u" using i by (simp add: timer_inv_cong [of ?s s])
  obtain te where init: "InitalizeNewTimerEvent e args dur t ?s =
      Inr (?s\<lparr>tlinks := (tlinks ?s)(Event_Node e := \<lparr>nxt = Null_Timer, prv = Null_Timer\<rparr>), events := (events ?s)(e := te)\<rparr>)"
    and te: "remainingTime te = dur" "length (msg_args te) = 30"
    using Initalize_eq [OF msg, of ?s e dur t] i by (auto simp: timer_inv_def timer_list_ok_def)
  let ?s1 = "?s\<lparr>tlinks := (tlinks ?s)(Event_Node e := \<lparr>nxt = Null_Timer, prv = Null_Timer\<rparr>), events := (events ?s)(e := te),
      isTimerMultiplexingEventIRQ := True\<rparr>"
  have fresh: "e \<notin> set [x]" using km(3) by simp
  have "timer_inv ?s1 [x] u"
    using timer_inv_fresh [OF i0 fresh te(2), of "\<lparr>nxt = Null_Timer, prv = Null_Timer\<rparr>"]
    by (rule timer_inv_cong [THEN iffD2, rotated 2]) simp_all
  then have ok: "timer_list_ok ?s1 [x]" by (simp add: timer_inv_def)
  define s2 where "s2 = ?s1\<lparr>events := \<lambda>y. if y \<in> set [x] then update_event t (events ?s1 y) else events ?s1 y\<rparr>"
  have s2: "UpdateTimerEvents t ?s1 = Inr s2" using UpdateTimerEvents_eq [OF ok, of t] by (simp only: s2_def)
  have p: "prevUpdatedTime (events s x) = u" "deadline s x = expires s x" using i by (simp_all add: timer_inv_def)
  have ev: "events s2 x = update_event t (events s x)" "events s2 e = te" using km(3) by (simp_all add: s2_def)
  have late: "unat (remainingTime (events s2 x)) = 2 ^ 64 - (unat t - expires s x)"
    using update_event_late [of "events s x" t] p t(2,3) by (simp add: ev deadline_def)
  have "dlist (tlinks s2) Timer_List (map Event_Node [x])" using ok by (simp add: timer_list_ok_def s2_def)
  then obtain h where h: "AddNewTimerEvents e s2 = Inr (s2\<lparr>tlinks := h\<rparr>)"
    "dlist h Timer_List (map Event_Node (insert_by (\<lambda>y. unat (remainingTime (events s2 y))) e [x]))"
    using AddNewTimerEvents_eq [of s2 "[x]" e] km(3) by (auto simp: s2_def WALK_BOUND_def)
  have "insert_by (\<lambda>y. unat (remainingTime (events s2 y))) e [x] = [e, x]"
    using late dur by (simp add: insert_by_def ev(2) te(1))
  then have d: "dlist h Timer_List [Event_Node e, Event_Node x]" using h(2) by simp
  let ?s' = "(core_timer_enable freq (s2\<lparr>tlinks := h\<rparr>))\<lparr>cntp_tval := freq * dur\<rparr>"
  have "nxt (h Timer_List) = Event_Node e" using d by (simp add: dlist_def)
  then have "setNextTimerEventInterrupt freq (s2\<lparr>tlinks := h\<rparr>) = Inr ?s'"
    by (simp add: setNextTimerEventInterrupt_def Let_def ev(2) te(1))
  then have "add_timer freq cnt args dur s = Inr ?s'"
    using km init s2 h(1) by (simp add: add_timer_def flip: t(1))
  then show ?thesis using d late by (simp add: core_timer_enable_def)
qed

text \<open>The event of \<open>timer_start\<close> at address 1 that expired at 5, and a timer added at 6.\<close>

definition timer_late :: timer_state where
  "timer_late = timer_start\<lparr>
     events := (events timer_start)(
       1 := \<lparr>registerTime = 2, prevUpdatedTime = 2, duration = 3, remainingTime = 3, msg_args = replicate 30 NUL\<rparr>),
     tlinks := list_add_tail (Event_Node 1) Timer_List (tlinks timer_start)\<rparr>"

lemma timer_late_inv: "timer_inv timer_late [1] 2"
proof -
  have "dlist (tlinks timer_start) Timer_List []" by (simp add: timer_start_def dlist_INIT)
  then have "dlist (list_add_tail (Event_Node 1) Timer_List (tlinks timer_start)) Timer_List [Event_Node 1]"
    using dlist_add_tail by fastforce
  then show ?thesis
    by (simp add: timer_inv_def timer_list_ok_def timer_late_def WALK_BOUND_def deadline_def expires_def)
      (simp add: timer_start_def)
qed

theorem overdue_event_lost_witness:
  "\<exists>e s'. add_timer 10 60 (''ding'' @ [NUL]) 4 timer_late = Inr s' \<and>
     dlist (tlinks s') Timer_List [Event_Node e, Event_Node 1] \<and> unat (remainingTime (events s' 1)) = 2 ^ 64 - 1"
proof -
  obtain m e where k: "kmalloc 88 (mm_init bss_mm) = Inr (m, e)" "e \<noteq> 0" "heap_range 88 e" using first_kmalloc [of 88] by auto
  then have "e \<noteq> 1" by (auto simp: heap_range_def)
  have ex: "expires timer_late 1 = 5" by (simp add: expires_def timer_late_def)
  have mm: "tm_mm timer_late = mm_init bss_mm" by (simp add: timer_late_def timer_start_def)
  have "get_system_time 10 60 = 6" by (simp add: get_system_time_def)
  then show ?thesis
    using overdue_event_lost [OF timer_late_inv, of m e "''ding'' @ [NUL]" "''ding''" 6 10 60 4] k \<open>e \<noteq> 1\<close> ex mm cstr_ding by auto
qed

end
