(* ===== verification/Uart.thy ===== *)
theory Uart
  imports Printf "HOL-Library.Sublist"
begin

text \<open>
  The mini UART driver, \<open>src/uart.c\<close>, with the mailbox call of the same file. Registers are
  32-bit words. What the device will answer to the next reads of the line status, the data and
  the mailbox registers is part of the state, a list that every read shortens; what is written
  to the data register is appended to \<open>io_writes\<close>. A busy-waiting loop that would have to read
  on when the answers have run out is still running (\<open>No_Return\<close>).
\<close>

section \<open>State\<close>

record uart_state =
  AUX_ENABLE :: u32
  AUX_MU_CNTL :: u32
  AUX_MU_IER :: u32
  AUX_MU_LCR :: u32
  AUX_MU_MCR :: u32
  AUX_MU_BAUD :: u32
  AUX_MU_IIR :: u32
  GPFSEL1 :: u32
  GPPUD :: u32
  GPPUDCLK0 :: u32
  ENABLE_IRQS_1 :: u32
  lsr_reads :: "u32 list"
  io_reads :: "u32 list"
  io_writes :: "u32 list"
  mbox_status_reads :: "u32 list"
  mbox_reads :: "u32 list"
  mbox_writes :: "u32 list"
  uart_read_idx :: int
  uart_transmit_idx :: int
  UART_READ_BUFFER :: cbuf
  UART_TRANSMIT_BUFFER :: cbuf

abbreviation MAX_BUFFER_LEN :: int where "MAX_BUFFER_LEN \<equiv> 256"
abbreviation NL :: char where "NL \<equiv> CHR 0x0A"
abbreviation CR :: char where "CR \<equiv> CHR 0x0D"
abbreviation AUX_IRQ :: u32 where "AUX_IRQ \<equiv> 0x20000000"

section \<open>Initialisation and interrupt enable bits\<close>

text \<open>The two delay loops of \<open>uart_init\<close> count a local variable down and are left out.\<close>

definition uart_init :: "uart_state \<Rightarrow> uart_state" where
  "uart_init s =
     s\<lparr>AUX_ENABLE := AUX_ENABLE s OR 1, AUX_MU_CNTL := 0,
       AUX_MU_IER := 0, AUX_MU_LCR := 3, AUX_MU_MCR := 0, AUX_MU_BAUD := 270, AUX_MU_IIR := 6,
       GPFSEL1 := (GPFSEL1 s AND NOT (push_bit 12 7 OR push_bit 15 7)) OR (push_bit 12 2 OR push_bit 15 2),
       GPPUD := 0, GPPUDCLK0 := push_bit 14 1 OR push_bit 15 1, GPPUDCLK0 := 0, AUX_MU_CNTL := 3,
       uart_read_idx := 0, uart_transmit_idx := 0\<rparr>"

definition enable_uart_read_interrupt :: "uart_state \<Rightarrow> uart_state" where
  "enable_uart_read_interrupt s = s\<lparr>AUX_MU_IER := AUX_MU_IER s OR 0x1\<rparr>"

definition enable_uart_transmit_interrupt :: "uart_state \<Rightarrow> uart_state" where
  "enable_uart_transmit_interrupt s = s\<lparr>AUX_MU_IER := AUX_MU_IER s OR 0x2\<rparr>"

definition disable_uart_read_interrupt :: "uart_state \<Rightarrow> uart_state" where
  "disable_uart_read_interrupt s = s\<lparr>AUX_MU_IER := AUX_MU_IER s AND 0x2\<rparr>"

definition disable_uart_transmit_interrupt :: "uart_state \<Rightarrow> uart_state" where
  "disable_uart_transmit_interrupt s = s\<lparr>AUX_MU_IER := AUX_MU_IER s AND 0x1\<rparr>"

section \<open>Sending and receiving\<close>

text \<open>The \<open>do\<close> loops that poll a status register until a bit is set, or until it is clear.\<close>

fun poll_set :: "u32 \<Rightarrow> u32 list \<Rightarrow> u32 list result" where
  "poll_set m [] = Inl No_Return"
| "poll_set m (v # vs) = (if v AND m \<noteq> 0 then Inr vs else poll_set m vs)"

fun poll_clear :: "u32 \<Rightarrow> u32 list \<Rightarrow> u32 list result" where
  "poll_clear m [] = Inl No_Return"
| "poll_clear m (v # vs) = (if v AND m = 0 then Inr vs else poll_clear m vs)"

definition io_write :: "u32 \<Rightarrow> uart_state \<Rightarrow> uart_state result" where
  "io_write c s =
     bind_result (poll_set 0x20 (lsr_reads s)) (\<lambda>vs. Inr (s\<lparr>lsr_reads := vs, io_writes := io_writes s @ [c]\<rparr>))"

definition uart_send :: "u32 \<Rightarrow> uart_state \<Rightarrow> uart_state result" where
  "uart_send c s =
     bind_result (io_write c s) (\<lambda>s1. if c = of_char NL then io_write (of_char CR) s1 else Inr s1)"

definition uart_getc :: "uart_state \<Rightarrow> (uart_state \<times> char) result" where
  "uart_getc s =
     bind_result (poll_set 0x01 (lsr_reads s)) (\<lambda>vs.
       case io_reads s of
         [] \<Rightarrow> Inl No_Return
       | v # ios \<Rightarrow>
           let r = char_of (unat v)
           in Inr (s\<lparr>lsr_reads := vs, io_reads := ios\<rparr>, if r = CR then NL else r))"

definition putc :: "uart_state putcf" where
  "putc c s = uart_send (of_char c) s"

fun uart_puts :: "cbuf \<Rightarrow> uart_state \<Rightarrow> uart_state result" where
  "uart_puts [] s = Inl Out_Of_Bounds"
| "uart_puts (c # cs) s = (if c \<noteq> NUL then bind_result (uart_send (of_char c) s) (uart_puts cs) else Inr s)"

text \<open>\<open>printf\<close> as \<open>init_printf(0, putc)\<close> sets it up; \<open>tfp_format\<close> has a local buffer of twelve bytes.\<close>

definition uart_printf :: "string \<Rightarrow> vararg list \<Rightarrow> uart_state \<Rightarrow> uart_state result" where
  "uart_printf fmt va s = tfp_format putc (replicate 12 NUL) (fmt @ [NUL]) va s"

definition enable_uart_interrupt :: "uart_state \<Rightarrow> uart_state result" where
  "enable_uart_interrupt s =
     uart_printf (''[enable_uart_interrupt]'' @ [NL]) []
       ((enable_uart_read_interrupt (s\<lparr>AUX_MU_IER := 0\<rparr>))\<lparr>ENABLE_IRQS_1 := AUX_IRQ\<rparr>)"

definition uart_read_status :: "u32 \<Rightarrow> u32" where
  "uart_read_status lsr = lsr AND 0x01"

section \<open>The interrupt handler of the shell\<close>

definition read_buffer_put :: "char \<Rightarrow> uart_state \<Rightarrow> uart_state result" where
  "read_buffer_put c s =
     (if uart_read_idx s < 0 then Inl Out_Of_Bounds
      else bind_result (wr (UART_READ_BUFFER s) (nat (uart_read_idx s)) c) (\<lambda>b.
        Inr (s\<lparr>UART_READ_BUFFER := b, uart_read_idx := uart_read_idx s + 1\<rparr>)))"

definition shell_uart_irq_handler :: "u32 \<Rightarrow> uart_state \<Rightarrow> uart_state result" where
  "shell_uart_irq_handler iir s =
     (if iir AND 0x06 = 0x04 then
        bind_result (uart_getc s) (\<lambda>(s1, input_char). read_buffer_put input_char s1)
      else if iir AND 0x06 = 0x02 then
        if uart_transmit_idx s < 1 then Inl Out_Of_Bounds
        else bind_result (rd (UART_TRANSMIT_BUFFER s) (nat (uart_transmit_idx s - 1))) (\<lambda>c.
          bind_result (uart_send (of_char c) s) (\<lambda>s1.
            let s2 = s1\<lparr>uart_transmit_idx := uart_transmit_idx s1 - 1\<rparr>
            in Inr (if uart_transmit_idx s2 = 0 then disable_uart_transmit_interrupt s2 else s2)))
      else Inr s)"

section \<open>The mailbox\<close>

fun mbox_wait :: "u32 \<Rightarrow> u32 list \<Rightarrow> u32 list \<Rightarrow> (u32 list \<times> u32 list) result" where
  "mbox_wait r st [] = bind_result (poll_clear 0x40000000 st) (\<lambda>_. Inl No_Return)"
| "mbox_wait r st (v # vs) =
     bind_result (poll_clear 0x40000000 st) (\<lambda>st'. if r = v then Inr (st', vs) else mbox_wait r st' vs)"

text \<open>\<open>response\<close> is the content of \<open>mbox[1]\<close> when the call has been answered.\<close>

definition mailbox_call :: "8 word \<Rightarrow> u64 \<Rightarrow> u32 \<Rightarrow> uart_state \<Rightarrow> (uart_state \<times> int) result" where
  "mailbox_call ch mbox response s =
     (let r = (ucast mbox AND NOT 0xf) OR (ucast ch AND 0xf) :: u32
      in bind_result (poll_clear 0x80000000 (mbox_status_reads s)) (\<lambda>st.
           bind_result (mbox_wait r st (mbox_reads s)) (\<lambda>(st', vs).
             Inr (s\<lparr>mbox_status_reads := st', mbox_reads := vs, mbox_writes := mbox_writes s @ [r]\<rparr>,
                  if response = 0x80000000 then 1 else 0))))"

end
