(* ===== verification/Kernel_State.thy ===== *)
theory Kernel_State
  imports Timer Uart Cpio
begin

text \<open>
  The state the upper half of the kernel works on: tasks and their register frames
  (\<open>include/sched.h\<close>, \<open>include/fork.h\<close>), wait queues (\<open>include/wait.h\<close>), and the states of the
  components below. A \<open>struct task_struct *\<close> is the address of the structure, 0 for \<open>NULL\<close>;
  \<open>tcb\<close> gives the structure at an address and \<open>ptregs\<close> the register frame at an address.
  \<open>mem\<close> is the memory of user stacks, programs and the ram disk. The structures of the kernel
  are kept apart from it: no address of \<open>mem\<close> that the code writes is inside one of them. The
  interrupt mask is not part of the state; an interrupt is a step of its own. A message the
  kernel prints is recorded in \<open>console\<close> as the format and its arguments,
  a string argument by its address. \<open>ret_from_fork\<close> is the
  address of the assembly routine of that name.
\<close>

section \<open>Tasks\<close>

record cpu_context =
  x19 :: u64
  x20 :: u64
  x21 :: u64
  x22 :: u64
  x23 :: u64
  x24 :: u64
  x25 :: u64
  x26 :: u64
  x27 :: u64
  x28 :: u64
  ctx_fp :: u64
  ctx_sp :: u64
  ctx_pc :: u64

abbreviation TASK_RUNNING :: int where "TASK_RUNNING \<equiv> 0"
abbreviation TASK_WAITING :: int where "TASK_WAITING \<equiv> 1"
abbreviation TASK_ZOMBIE :: int where "TASK_ZOMBIE \<equiv> 2"
abbreviation PF_KTHREAD :: u64 where "PF_KTHREAD \<equiv> 2"
abbreviation NR_TASKS :: int where "NR_TASKS \<equiv> 64"
abbreviation THREAD_SIZE :: u64 where "THREAD_SIZE \<equiv> 4096"
abbreviation SIZEOF_PT_REGS :: u64 where "SIZEOF_PT_REGS \<equiv> 272"

text \<open>\<open>struct task_struct\<close>; its member \<open>run_list\<close> is used nowhere.\<close>

record task_struct =
  cpu_ctx :: cpu_context
  state :: int
  counter :: int
  priority :: int
  preempt_count :: int
  stack :: u64
  flags :: u64
  pid :: int

record pt_regs =
  regs :: "u64 list"
  user_sp :: u64
  user_pc :: u64
  pstate :: u64

definition zero_context :: cpu_context where
  "zero_context = \<lparr>x19 = 0, x20 = 0, x21 = 0, x22 = 0, x23 = 0, x24 = 0, x25 = 0, x26 = 0, x27 = 0, x28 = 0,
     ctx_fp = 0, ctx_sp = 0, ctx_pc = 0\<rparr>"

definition zero_regs :: pt_regs where
  "zero_regs = \<lparr>regs = replicate 31 0, user_sp = 0, user_pc = 0, pstate = 0\<rparr>"

definition INIT_TASK :: task_struct where
  "INIT_TASK = \<lparr>cpu_ctx = zero_context, state = 0, counter = 0, priority = 1, preempt_count = 0, stack = 0,
     flags = PF_KTHREAD, pid = 0\<rparr>"

section \<open>Wait queues\<close>

text \<open>
  The nodes of the wait queue of the serial line: its head, and the entry a waiting task keeps
  on its own kernel stack, named by the task.
\<close>

datatype wait_node = Null_Wait | Wait_Head | Wait_Entry u64

section \<open>The kernel\<close>

record kernel =
  uart :: uart_state
  ktimer :: timer_state
  mem :: memory
  current :: u64
  task :: "int \<Rightarrow> u64"
  nr_tasks :: int
  tcb :: "u64 \<Rightarrow> task_struct"
  ptregs :: "u64 \<Rightarrow> pt_regs"
  cpu :: cpu_context
  ret_from_fork :: u64
  wlinks :: "wait_node list_heap"
  wprivate :: "wait_node \<Rightarrow> u64"
  console :: "(string \<times> vararg list) list"
  kernel_shell_status :: int
  pm_wdog :: u32
  pm_rstc :: u32

definition kprintf :: "string \<Rightarrow> vararg list \<Rightarrow> kernel \<Rightarrow> kernel" where
  "kprintf fmt va k = k\<lparr>console := console k @ [(fmt, va)]\<rparr>"

definition upd_task :: "u64 \<Rightarrow> (task_struct \<Rightarrow> task_struct) \<Rightarrow> kernel \<Rightarrow> kernel" where
  "upd_task p f k = k\<lparr>tcb := (tcb k)(p := f (tcb k p))\<rparr>"

definition upd_regs :: "u64 \<Rightarrow> (pt_regs \<Rightarrow> pt_regs) \<Rightarrow> kernel \<Rightarrow> kernel" where
  "upd_regs a f k = k\<lparr>ptregs := (ptregs k)(a := f (ptregs k a))\<rparr>"

text \<open>Reading and writing the array \<open>task\<close>.\<close>

definition task_at :: "int \<Rightarrow> kernel \<Rightarrow> u64 result" where
  "task_at i k = (if 0 \<le> i \<and> i < NR_TASKS then Inr (task k i) else Inl Out_Of_Bounds)"

definition set_task :: "int \<Rightarrow> u64 \<Rightarrow> kernel \<Rightarrow> kernel result" where
  "set_task i p k = (if 0 \<le> i \<and> i < NR_TASKS then Inr (k\<lparr>task := (task k)(i := p)\<rparr>) else Inl Out_Of_Bounds)"

text \<open>A structure behind a pointer.\<close>

definition deref :: "u64 \<Rightarrow> kernel \<Rightarrow> task_struct result" where
  "deref p k = (if p = 0 then Inl Null_Deref else Inr (tcb k p))"

abbreviation kmm :: "kernel \<Rightarrow> mm_state" where
  "kmm k \<equiv> tm_mm (ktimer k)"

definition set_mm :: "mm_state \<Rightarrow> kernel \<Rightarrow> kernel" where
  "set_mm m k = k\<lparr>ktimer := (ktimer k)\<lparr>tm_mm := m\<rparr>\<rparr>"

definition k_malloc :: "int \<Rightarrow> kernel \<Rightarrow> (kernel \<times> u64) result" where
  "k_malloc sz k = bind_result (kmalloc sz (kmm k)) (\<lambda>(m, a). Inr (set_mm m k, a))"

definition k_free :: "u64 \<Rightarrow> kernel \<Rightarrow> kernel result" where
  "k_free a k = bind_result (kfree a (kmm k)) (\<lambda>m. Inr (set_mm m k))"

section \<open>Field equations\<close>

lemma upd_task_simps [simp]:
  "tcb (upd_task p f k) = (tcb k)(p := f (tcb k p))"
  "kernel_shell_status (upd_task p f k) = kernel_shell_status k" "pm_wdog (upd_task p f k) = pm_wdog k" "pm_rstc (upd_task p f k) = pm_rstc k"
  "current (upd_task p f k) = current k" "ret_from_fork (upd_task p f k) = ret_from_fork k" "task (upd_task p f k) = task k" "nr_tasks (upd_task p f k) = nr_tasks k"
  "ptregs (upd_task p f k) = ptregs k" "cpu (upd_task p f k) = cpu k" "ktimer (upd_task p f k) = ktimer k"
  "mem (upd_task p f k) = mem k" "wlinks (upd_task p f k) = wlinks k" "wprivate (upd_task p f k) = wprivate k"
  "uart (upd_task p f k) = uart k" "console (upd_task p f k) = console k"
  by (simp_all add: upd_task_def)

lemma upd_regs_simps [simp]:
  "ptregs (upd_regs a g k) = (ptregs k)(a := g (ptregs k a))"
  "kernel_shell_status (upd_regs a g k) = kernel_shell_status k" "pm_wdog (upd_regs a g k) = pm_wdog k" "pm_rstc (upd_regs a g k) = pm_rstc k"
  "current (upd_regs a g k) = current k" "ret_from_fork (upd_regs a g k) = ret_from_fork k" "task (upd_regs a g k) = task k" "nr_tasks (upd_regs a g k) = nr_tasks k"
  "tcb (upd_regs a g k) = tcb k" "cpu (upd_regs a g k) = cpu k" "ktimer (upd_regs a g k) = ktimer k"
  "mem (upd_regs a g k) = mem k" "wlinks (upd_regs a g k) = wlinks k" "wprivate (upd_regs a g k) = wprivate k"
  "uart (upd_regs a g k) = uart k" "console (upd_regs a g k) = console k"
  by (simp_all add: upd_regs_def)

lemma set_mm_simps [simp]:
  "ktimer (set_mm m k) = (ktimer k)\<lparr>tm_mm := m\<rparr>"
  "kernel_shell_status (set_mm m k) = kernel_shell_status k" "pm_wdog (set_mm m k) = pm_wdog k" "pm_rstc (set_mm m k) = pm_rstc k"
  "current (set_mm m k) = current k" "ret_from_fork (set_mm m k) = ret_from_fork k" "task (set_mm m k) = task k" "nr_tasks (set_mm m k) = nr_tasks k"
  "tcb (set_mm m k) = tcb k" "cpu (set_mm m k) = cpu k" "ptregs (set_mm m k) = ptregs k"
  "mem (set_mm m k) = mem k" "wlinks (set_mm m k) = wlinks k" "wprivate (set_mm m k) = wprivate k"
  "uart (set_mm m k) = uart k" "console (set_mm m k) = console k"
  by (simp_all add: set_mm_def)

lemma kprintf_simps [simp]:
  "ktimer (kprintf fmt va k) = ktimer k"
  "kernel_shell_status (kprintf fmt va k) = kernel_shell_status k" "pm_wdog (kprintf fmt va k) = pm_wdog k" "pm_rstc (kprintf fmt va k) = pm_rstc k"
  "current (kprintf fmt va k) = current k" "ret_from_fork (kprintf fmt va k) = ret_from_fork k" "task (kprintf fmt va k) = task k" "nr_tasks (kprintf fmt va k) = nr_tasks k"
  "tcb (kprintf fmt va k) = tcb k" "cpu (kprintf fmt va k) = cpu k" "ptregs (kprintf fmt va k) = ptregs k"
  "mem (kprintf fmt va k) = mem k" "wlinks (kprintf fmt va k) = wlinks k" "wprivate (kprintf fmt va k) = wprivate k"
  "uart (kprintf fmt va k) = uart k"
  by (simp_all add: kprintf_def)

end
