(* ===== verification/Timer_Info.thy ===== *)
theory Timer_Info
  imports Kernel_State
begin

text \<open>
  What \<open>src/timer.c\<close> prints about its events. The address of a callback, which the event
  structure of the model does not keep, is an argument.
\<close>

definition print_timestamp :: "u64 \<Rightarrow> u64 \<Rightarrow> kernel \<Rightarrow> kernel" where
  "print_timestamp cnt_freq cnt_tpct k = kprintf (''timestamp: %u'' @ [NL]) [VInt (uint (cnt_tpct div cnt_freq))] k"

definition dumpTimerEvent :: "u64 \<Rightarrow> u64 \<Rightarrow> kernel \<Rightarrow> kernel" where
  "dumpTimerEvent callback e k =
     (let te = events (ktimer k) e
      in kprintf (''args(message): %s'' @ [NL, NL]) [VStr (msg_args te)]
         (kprintf (''callback(address): 0x{%x}'' @ [NL]) [VInt (uint callback)]
         (kprintf (''duration: %u'' @ [NL]) [VInt (uint (duration te))]
         (kprintf (''prevUpdatedTime: %u'' @ [NL]) [VInt (uint (prevUpdatedTime te))]
         (kprintf (''registerTime: %u'' @ [NL]) [VInt (uint (registerTime te))]
         (kprintf (''*remaining time: %u'' @ [NL]) [VInt (uint (remainingTime te))]
         (kprintf (''TimerEvent info: '' @ [NL]) [] k)))))))"

fun dump_events :: "(u64 \<Rightarrow> u64) \<Rightarrow> timer_node list \<Rightarrow> int \<Rightarrow> kernel \<Rightarrow> kernel result" where
  "dump_events callback [] i k = Inr k"
| "dump_events callback (pos # ps) i k =
     bind_result (event_of pos) (\<lambda>e.
       dump_events callback ps (i + 1) (dumpTimerEvent (callback e) e (kprintf (''Timer Event {Order:%d}'' @ [NL]) [VInt i] k)))"

definition dumpTimerEventList :: "(u64 \<Rightarrow> u64) \<Rightarrow> kernel \<Rightarrow> kernel result" where
  "dumpTimerEventList callback k =
     (let k1 = kprintf (''--------Timer event list--------'' @ [NL]) [] k
      in bind_result
           (if \<not> list_empty Timer_List (tlinks (ktimer k1)) then
              case list_for_each WALK_BOUND (tlinks (ktimer k1)) (nxt (tlinks (ktimer k1) Timer_List)) Timer_List of
                None \<Rightarrow> Inl No_Return
              | Some ps \<Rightarrow> dump_events callback ps 0 k1
            else Inr (kprintf (''timer event list is empty.'' @ [NL]) [] k1))
           (\<lambda>k2. Inr (kprintf (''--------End Timer evnet list--------'' @ [NL]) [] k2)))"

text \<open>The callback of the shell's timeouts.\<close>

definition print_timeoutEventInfo :: "u64 \<Rightarrow> u64 \<Rightarrow> u64 \<Rightarrow> kernel \<Rightarrow> kernel" where
  "print_timeoutEventInfo cnt_freq cnt_tpct e k =
     (let te = events (ktimer k) e;
          k1 = kprintf (NL # ''---Timeout event Info---'' @ [NL]) [] k;
          k2 = kprintf (''Message: %s'' @ [NL]) [VStr (msg_args te)] k1;
          k3 = kprintf (''Duration Time: %u'' @ [NL]) [VInt (uint (duration te))] k2;
          k4 = kprintf (''Register Time: %u'' @ [NL]) [VInt (uint (registerTime te))] k3
      in kprintf (''---End Info---'' @ [NL]) [] (print_timestamp cnt_freq cnt_tpct k4))"

end
