(* ===== verification/Output.thy ===== *)
theory Output
  imports Printf
begin

text \<open>
  The contract between \<open>printf\<close> and the function it sends its characters to. \<open>output_device\<close>
  is what an output function promises; inside it, formatted output sends the text the
  formatter produces, each character as the device encodes it. The device of \<open>tfp_sprintf\<close>
  fulfils it here, the serial line in the theory of the driver.
\<close>

lemma collect_apply: "collect c out = Inr (out @ [c])"
  by (simp add: collect_def)

lemma format_stop: "tfp_format putf bf (NUL # p) va s = Inr s"
  by (subst tfp_format.simps) simp

lemma format_plain:
  "ch \<noteq> NUL \<Longrightarrow> ch \<noteq> CHR ''%'' \<Longrightarrow> tfp_format putf bf (ch # p) va s = bind_result (putf ch s) (tfp_format putf bf p va)"
  by (subst tfp_format.simps) simp

lemma format_conv:
  "tfp_format putf bf (CHR ''%'' # p) va s =
     bind_result (fmt_spec p) (\<lambda>(c, fmt2, lz, w).
       if c = NUL then Inr s
       else bind_result (fmt_conv putf c lz w bf va s) (\<lambda>(bf', va', s'). tfp_format putf bf' fmt2 va' s'))"
  by (subst tfp_format.simps) simp

lemma format_Nil: "tfp_format putf bf [] va s = Inl Out_Of_Bounds"
  by (subst tfp_format.simps) simp

lemmas format_unfold = format_stop format_plain format_conv format_Nil

lemma collect_text: "putchw_text collect bf out = Inr o' \<Longrightarrow> \<exists>t. o' = out @ t"
proof (induction bf arbitrary: out)
  case (Cons c bf)
  show ?case
  proof (cases "c = NUL")
    case False
    then have "bind_result (collect c out) (putchw_text collect bf) = Inr o'" using Cons.prems by simp
    then have "putchw_text collect bf (out @ [c]) = Inr o'" by (simp only: collect_apply bind_result_simps)
    from Cons.IH [OF this] show ?thesis by auto
  qed (use Cons.prems in simp)
qed simp

lemma collect_putchw:
  assumes "putchw collect w z bf out = Inr o'"
  shows "\<exists>t. o' = out @ t"
proof -
  from assms obtain n where "putchw_text collect bf (out @ replicate n (if z then CHR ''0'' else CHR '' '')) = Inr o'"
    by (auto simp: putchw_def bind_result_Inr_iff putchw_fill_collect)
  from collect_text [OF this] show ?thesis by auto
qed

lemma collect_conv:
  assumes "fmt_conv collect ch lz w bf va out = Inr (bf', va', o')"
  shows "\<exists>t. o' = out @ t"
  using assms
  by (auto simp: fmt_conv_def fmt_number_def bind_result_Inr_iff collect_apply split: if_splits dest: collect_putchw)

lemma collect_format: "tfp_format collect bf fmt va out = Inr o' \<Longrightarrow> \<exists>t. o' = out @ t"
proof (induction "length fmt" arbitrary: bf fmt va out rule: less_induct)
  case less
  obtain ch p where f: "fmt = ch # p" using less.prems by (cases fmt) (auto simp: format_unfold)
  consider (stop) "ch = NUL" | (plain) "ch \<noteq> NUL" "ch \<noteq> CHR ''%''" | (conv) "ch = CHR ''%''" by blast
  then show ?case
  proof cases
    case stop
    then show ?thesis using less.prems f by (simp add: format_unfold)
  next
    case plain
    then have "tfp_format collect bf p va (out @ [ch]) = Inr o'"
      using less.prems f by (simp add: format_unfold collect_apply)
    with less.hyps [of p] f show ?thesis by fastforce
  next
    case conv
    then obtain c q lz w where s: "fmt_spec p = Inr (c, q, lz, w)"
      using less.prems f by (auto simp: format_unfold bind_result_Inr_iff)
    show ?thesis
    proof (cases "c = NUL")
      case True
      then show ?thesis using less.prems f conv s by (simp add: format_unfold)
    next
      case False
      then obtain bf' va' o1 where c: "fmt_conv collect c lz w bf va out = Inr (bf', va', o1)"
        "tfp_format collect bf' q va' o1 = Inr o'"
        using less.prems f conv s by (auto simp: format_unfold bind_result_Inr_iff)
      have "length q < length fmt" using fmt_spec_length [OF s] f by simp
      with less.hyps [OF _ c(2)] collect_conv [OF c(1)] show ?thesis by fastforce
    qed
  qed
qed

locale output_device =
  fixes putf :: "'s putcf" and room :: "'s \<Rightarrow> nat" and sent :: "'s \<Rightarrow> string" and enc :: "char \<Rightarrow> string"
  assumes put_ok: "length (enc c) \<le> room s \<Longrightarrow>
    \<exists>s'. putf c s = Inr s' \<and> sent s' = sent s @ enc c \<and> room s = room s' + length (enc c)"
begin

definition encs :: "string \<Rightarrow> string" where
  "encs t = concat (map enc t)"

definition prints :: "'s \<Rightarrow> string \<Rightarrow> 's \<Rightarrow> bool" where
  "prints s t s' \<longleftrightarrow> sent s' = sent s @ encs t \<and> room s = room s' + length (encs t)"

lemma encs_simps [simp]: "encs [] = []" "encs (c # t) = enc c @ encs t" "encs (t @ u) = encs t @ encs u"
  by (simp_all add: encs_def)

lemma prints_refl [simp]: "prints s [] s"
  by (simp add: prints_def)

lemma prints_trans: "prints s t s1 \<Longrightarrow> prints s1 u s2 \<Longrightarrow> prints s (t @ u) s2"
  by (simp add: prints_def)

lemma prints_room: "prints s t s1 \<Longrightarrow> length (encs (t @ u)) \<le> room s \<Longrightarrow> length (encs u) \<le> room s1"
  by (simp add: prints_def)

lemma put_prints:
  assumes "length (encs [c]) \<le> room s"
  shows "\<exists>s'. putf c s = Inr s' \<and> prints s [c] s'"
  using put_ok [of c s] assms by (simp add: prints_def)

lemma fill_prints:
  "length (encs (replicate n c)) \<le> room s \<Longrightarrow> \<exists>s'. putchw_fill putf (int n) c s = Inr s' \<and> prints s (replicate n c) s'"
proof (induction n arbitrary: s)
  case 0
  then show ?case by (subst putchw_fill.simps) simp
next
  case (Suc n)
  have "length (encs [c]) \<le> room s" using Suc.prems by simp
  then obtain s1 where s1: "putf c s = Inr s1" "prints s [c] s1" using put_prints by blast
  have "length (encs (replicate n c)) \<le> room s1" using prints_room [OF s1(2), of "replicate n c"] Suc.prems by simp
  from Suc.IH [OF this] obtain s2 where s2: "putchw_fill putf (int n) c s1 = Inr s2" "prints s1 (replicate n c) s2" by blast
  have "putchw_fill putf (int (Suc n)) c s = Inr s2" using s1(1) s2(1) by (subst putchw_fill.simps) simp
  with prints_trans [OF s1(2) s2(2)] show ?case by auto
qed

lemma text_prints:
  "putchw_text collect bf out = Inr (out @ t) \<Longrightarrow> length (encs t) \<le> room s \<Longrightarrow>
    \<exists>s'. putchw_text putf bf s = Inr s' \<and> prints s t s'"
proof (induction bf arbitrary: out t s)
  case (Cons c bf)
  show ?case
  proof (cases "c = NUL")
    case False
    then have "bind_result (collect c out) (putchw_text collect bf) = Inr (out @ t)" using Cons.prems(1) by simp
    then have r: "putchw_text collect bf (out @ [c]) = Inr (out @ t)" by (simp only: collect_apply bind_result_simps)
    then obtain u where t: "t = c # u" using collect_text by fastforce
    then obtain s1 where s1: "putf c s = Inr s1" "prints s [c] s1" using put_prints [of c s] Cons.prems(2) by auto
    have "length (encs u) \<le> room s1" using prints_room [OF s1(2), of u] Cons.prems(2) t by simp
    with Cons.IH [of "out @ [c]" u s1] r t obtain s2 where "putchw_text putf bf s1 = Inr s2" "prints s1 u s2" by auto
    with s1 prints_trans [OF s1(2)] False t show ?thesis by fastforce
  qed (use Cons.prems in simp)
qed simp

lemma putchw_prints:
  assumes "putchw collect w z bf out = Inr (out @ t)" "length (encs t) \<le> room s"
  shows "\<exists>s'. putchw putf w z bf s = Inr s' \<and> prints s t s'"
proof -
  let ?c = "if z then CHR ''0'' else CHR '' ''"
  from assms(1) obtain n where n: "putchw_width w bf = Inr n" "putchw_text collect bf (out @ replicate (nat n) ?c) = Inr (out @ t)"
    by (auto simp: putchw_def bind_result_Inr_iff putchw_fill_collect)
  then obtain u where t: "t = replicate (nat n) ?c @ u" using collect_text by fastforce
  then obtain s1 where "putchw_fill putf (int (nat n)) ?c s = Inr s1" and p1: "prints s (replicate (nat n) ?c) s1"
    using fill_prints [of "nat n" ?c s] assms(2) by auto
  moreover have "putchw_fill putf (int (nat n)) ?c s = putchw_fill putf n ?c s"
    by (cases "0 < n") (simp_all add: putchw_fill.simps [of putf n] putchw_fill.simps [of putf 0])
  ultimately have f1: "putchw_fill putf n ?c s = Inr s1" by simp
  have "length (encs u) \<le> room s1" using prints_room [OF p1] assms(2) t by simp
  with text_prints [of bf "out @ replicate (nat n) ?c" u s1] n(2) t obtain s2 where "putchw_text putf bf s1 = Inr s2" "prints s1 u s2" by auto
  with n(1) f1 prints_trans [OF p1] t show ?thesis by (fastforce simp: putchw_def)
qed

lemma number_prints:
  assumes "fmt_number collect conv lz w bf va out = Inr (bf', va', out @ t)" "length (encs t) \<le> room s"
  shows "\<exists>s'. fmt_number putf conv lz w bf va s = Inr (bf', va', s') \<and> prints s t s'"
  using assms putchw_prints [of w lz bf' out t s]
  by (auto simp: fmt_number_def bind_result_Inr_iff)

lemma conv_prints:
  assumes "fmt_conv collect ch lz w bf va out = Inr (bf', va', out @ t)" "length (encs t) \<le> room s"
  shows "\<exists>s'. fmt_conv putf ch lz w bf va s = Inr (bf', va', s') \<and> prints s t s'"
proof -
  note C = assms(1) [unfolded fmt_conv_def]
  consider (number) "ch \<in> set ''udxX''" | (char) "ch = CHR ''c''" | (strg) "ch = CHR ''s''" | (percent) "ch = CHR ''%''"
    | (other) "ch \<notin> set ''udxXcs%''" by auto
  then show ?thesis
  proof cases
    case number
    then have "ch = CHR ''u'' \<or> ch = CHR ''d'' \<or> ch = CHR ''x'' \<or> ch = CHR ''X''" by simp
    then show ?thesis
      using C by (elim disjE) (simp add: fmt_conv_def, erule number_prints [OF _ assms(2)])+
  next
    case char
    then obtain x where x: "va_int va = Inr (x, va')" "bf' = bf" "t = [char_of x]"
      using C by (auto simp: bind_result_Inr_iff collect_apply)
    with put_prints [of "char_of x" s] assms(2) char show ?thesis by (auto simp: fmt_conv_def)
  next
    case strg
    then obtain u where x: "va_str va = Inr (u, va')" "bf' = bf" "putchw collect w False u out = Inr (out @ t)"
      using C by (auto simp: bind_result_Inr_iff)
    with putchw_prints [OF x(3) assms(2)] strg show ?thesis by (auto simp: fmt_conv_def)
  next
    case percent
    then have "bf' = bf" "va' = va" "t = [ch]" using C by (auto simp: bind_result_Inr_iff collect_apply)
    with put_prints [of ch s] assms(2) percent show ?thesis by (auto simp: fmt_conv_def)
  next
    case other
    then show ?thesis using C by (auto simp: fmt_conv_def)
  qed
qed

lemma format_prints:
  "tfp_format collect bf fmt va out = Inr (out @ t) \<Longrightarrow> length (encs t) \<le> room s \<Longrightarrow>
    \<exists>s'. tfp_format putf bf fmt va s = Inr s' \<and> prints s t s'"
proof (induction "length fmt" arbitrary: bf fmt va out t s rule: less_induct)
  case less
  note C = less.prems(1)
  obtain ch p where f: "fmt = ch # p" using C by (cases fmt) (auto simp: format_unfold)
  consider (stop) "ch = NUL" | (plain) "ch \<noteq> NUL" "ch \<noteq> CHR ''%''" | (conv) "ch = CHR ''%''" by blast
  then show ?case
  proof cases
    case stop
    then show ?thesis using C f by (simp add: format_unfold)
  next
    case plain
    then have c: "tfp_format collect bf p va (out @ [ch]) = Inr (out @ t)" using C f by (simp add: format_unfold collect_apply)
    then obtain u where t: "t = ch # u" using collect_format by fastforce
    then obtain s1 where s1: "putf ch s = Inr s1" "prints s [ch] s1" using put_prints [of ch s] less.prems(2) by auto
    have "length (encs u) \<le> room s1" using prints_room [OF s1(2), of u] less.prems(2) t by simp
    with less.hyps [of p bf va "out @ [ch]" u s1] c t f obtain s2 where
      "tfp_format putf bf p va s1 = Inr s2" "prints s1 u s2" by auto
    with s1 prints_trans [OF s1(2)] plain f t show ?thesis by (fastforce simp: format_unfold)
  next
    case conv
    then obtain c q lz w where sp: "fmt_spec p = Inr (c, q, lz, w)" using C f by (auto simp: format_unfold bind_result_Inr_iff)
    show ?thesis
    proof (cases "c = NUL")
      case True
      then show ?thesis using C f conv sp by (simp add: format_unfold)
    next
      case False
      then obtain bf' va' o1 where c: "fmt_conv collect c lz w bf va out = Inr (bf', va', o1)"
        "tfp_format collect bf' q va' o1 = Inr (out @ t)" using C f conv sp by (auto simp: format_unfold bind_result_Inr_iff)
      obtain v where v: "o1 = out @ v" using collect_conv [OF c(1)] by blast
      then obtain u where t: "t = v @ u" using collect_format [OF c(2)] by auto
      then obtain s1 where s1: "fmt_conv putf c lz w bf va s = Inr (bf', va', s1)" "prints s v s1"
        using conv_prints [of c lz w bf va out bf' va' v s] c(1) v less.prems(2) by auto
      have "length (encs u) \<le> room s1" using prints_room [OF s1(2), of u] less.prems(2) t by simp
      moreover have "length q < length fmt" using fmt_spec_length [OF sp] f by simp
      ultimately obtain s2 where "tfp_format putf bf' q va' s1 = Inr s2" "prints s1 u s2"
        using less.hyps [of q bf' va' o1 u s1] c(2) v t by auto
      with s1 prints_trans [OF s1(2)] conv sp False f t show ?thesis by (fastforce simp: format_unfold)
    qed
  qed
qed

end

text \<open>What an output function leaves alone, formatted output leaves alone.\<close>

locale output_frame =
  fixes putf :: "'s putcf" and keep :: "'s \<Rightarrow> 's \<Rightarrow> bool"
  assumes put_keeps: "putf c s = Inr s' \<Longrightarrow> keep s s'"
    and keep_refl: "keep s s"
    and keep_trans: "keep s s1 \<Longrightarrow> keep s1 s2 \<Longrightarrow> keep s s2"
begin

lemma fill_keeps: "putchw_fill putf n c s = Inr s' \<Longrightarrow> keep s s'"
proof (induction "nat n" arbitrary: n s)
  case 0
  then show ?case using keep_refl by (subst (asm) putchw_fill.simps) simp
next
  case (Suc m)
  then have n: "0 < n" "m = nat (n - 1)" by linarith+
  then obtain s1 where "putf c s = Inr s1" "putchw_fill putf (n - 1) c s1 = Inr s'"
    using Suc.prems by (subst (asm) putchw_fill.simps) (auto simp: bind_result_Inr_iff)
  then show ?case using Suc.hyps(1) [OF n(2)] put_keeps keep_trans by blast
qed

lemma text_keeps: "putchw_text putf bf s = Inr s' \<Longrightarrow> keep s s'"
proof (induction bf arbitrary: s)
  case (Cons c bf)
  show ?case
  proof (cases "c = NUL")
    case True
    then show ?thesis using Cons.prems keep_refl by simp
  next
    case False
    then obtain s1 where "putf c s = Inr s1" "putchw_text putf bf s1 = Inr s'"
      using Cons.prems by (auto simp: bind_result_Inr_iff)
    then show ?thesis using Cons.IH put_keeps keep_trans by blast
  qed
qed simp

lemma putchw_keeps:
  assumes "putchw putf n z bf s = Inr s'"
  shows "keep s s'"
proof -
  from assms obtain m c s1 where "putchw_fill putf m c s = Inr s1" "putchw_text putf bf s1 = Inr s'"
    by (auto simp: putchw_def bind_result_Inr_iff)
  then show ?thesis using fill_keeps text_keeps keep_trans by blast
qed

lemma conv_keeps: "fmt_conv putf ch lz w bf va s = Inr (bf', va', s') \<Longrightarrow> keep s s'"
  using keep_refl
  by (auto simp: fmt_conv_def fmt_number_def bind_result_Inr_iff split: if_splits dest: putchw_keeps put_keeps)

lemma format_keeps: "tfp_format putf bf fmt va s = Inr s' \<Longrightarrow> keep s s'"
proof (induction "length fmt" arbitrary: bf fmt va s rule: less_induct)
  case less
  obtain ch p where f: "fmt = ch # p" using less.prems by (cases fmt) (auto simp: format_unfold)
  consider (stop) "ch = NUL" | (plain) "ch \<noteq> NUL" "ch \<noteq> CHR ''%''" | (conv) "ch = CHR ''%''" by blast
  then show ?case
  proof cases
    case stop
    then show ?thesis using less.prems f keep_refl by (simp add: format_unfold)
  next
    case plain
    then obtain s1 where "putf ch s = Inr s1" "tfp_format putf bf p va s1 = Inr s'"
      using less.prems f by (auto simp: format_unfold bind_result_Inr_iff)
    moreover from this have "keep s1 s'" using less.hyps [of p bf va s1] f by simp
    ultimately show ?thesis using put_keeps keep_trans by blast
  next
    case conv
    then obtain c q lz w where sp: "fmt_spec p = Inr (c, q, lz, w)" using less.prems f by (auto simp: format_unfold bind_result_Inr_iff)
    show ?thesis
    proof (cases "c = NUL")
      case True
      then show ?thesis using less.prems f conv sp keep_refl by (simp add: format_unfold)
    next
      case False
      then obtain bf' va' s1 where c: "fmt_conv putf c lz w bf va s = Inr (bf', va', s1)" "tfp_format putf bf' q va' s1 = Inr s'"
        using less.prems f conv sp by (auto simp: format_unfold bind_result_Inr_iff)
      have "length q < length fmt" using fmt_spec_length [OF sp] f by simp
      then show ?thesis using less.hyps [of q bf' va' s1] c conv_keeps keep_trans by blast
    qed
  qed
qed

end

text \<open>
  An output function that does to a part \<open>abs\<close> of its state what another does to its whole state:
  formatted output through the one is formatted output through the other, errors included.
\<close>

definition map_result :: "('a \<Rightarrow> 'b) \<Rightarrow> 'a result \<Rightarrow> 'b result" where
  "map_result f r = bind_result r (\<lambda>x. Inr (f x))"

lemma map_result_simps [simp]: "map_result f (Inl e) = Inl e" "map_result f (Inr x) = Inr (f x)"
  by (simp_all add: map_result_def)

lemma bind_map_result:
  "map_result f r = r' \<Longrightarrow> (\<And>x. r = Inr x \<Longrightarrow> map_result g (h x) = h' (f x)) \<Longrightarrow> map_result g (bind_result r h) = bind_result r' h'"
  by (cases r) auto

locale output_abstraction =
  fixes putf :: "'s putcf" and putf' :: "'t putcf" and abs :: "'s \<Rightarrow> 't"
  assumes put_abs: "map_result abs (putf c s) = putf' c (abs s)"
begin

lemma fill_abs: "map_result abs (putchw_fill putf n c s) = putchw_fill putf' n c (abs s)"
proof (induction "nat n" arbitrary: n s)
  case 0
  then show ?case by (subst (1 2) putchw_fill.simps) simp
next
  case (Suc m)
  then have n: "0 < n" "m = nat (n - 1)" by linarith+
  show ?case
    using n(1) Suc.hyps(1) [OF n(2)]
    by (subst (1 2) putchw_fill.simps) (simp add: bind_map_result [OF put_abs])
qed

lemma text_abs: "map_result abs (putchw_text putf bf s) = putchw_text putf' bf (abs s)"
  by (induction bf arbitrary: s) (simp_all add: bind_map_result [OF put_abs])

lemma putchw_abs: "map_result abs (putchw putf n z bf s) = putchw putf' n z bf (abs s)"
  unfolding putchw_def
  by (cases "putchw_width n bf") (simp_all add: bind_map_result [OF fill_abs] text_abs)

lemma conv_abs:
  "map_result (map_prod id (map_prod id abs)) (fmt_conv putf ch lz w bf va s) = fmt_conv putf' ch lz w bf va (abs s)"
proof -
  have number: "map_result (map_prod id (map_prod id abs)) (fmt_number putf conv lz w bf va s) = fmt_number putf' conv lz w bf va (abs s)" for conv
    unfolding fmt_number_def
    by (cases "va_int va"; simp split: prod.split; intro allI impI; cases "conv (fst (projr (va_int va))) bf")
      (auto simp: bind_map_result [OF putchw_abs])
  show ?thesis
    unfolding fmt_conv_def
    by (cases "va_int va"; cases "va_str va")
      (auto simp: number bind_map_result [OF putchw_abs] bind_map_result [OF put_abs])
qed

lemma format_abs: "map_result abs (tfp_format putf bf fmt va s) = tfp_format putf' bf fmt va (abs s)"
proof (induction "length fmt" arbitrary: bf fmt va s rule: less_induct)
  case less
  show ?case
  proof (cases fmt)
    case (Cons ch p)
    consider (stop) "ch = NUL" | (plain) "ch \<noteq> NUL" "ch \<noteq> CHR ''%''" | (conv) "ch = CHR ''%''" by blast
    then show ?thesis
    proof cases
      case plain
      then show ?thesis using less.hyps [of p] Cons by (simp add: format_unfold bind_map_result [OF put_abs])
    next
      case conv
      show ?thesis
      proof (cases "fmt_spec p")
        case (Inr r)
        obtain c q lz w where r: "r = (c, q, lz, w)" by (cases r)
        then have "length q < length fmt" using fmt_spec_length [of p c q lz w] Inr Cons by simp
        then show ?thesis using less.hyps [of q] Cons conv Inr r
          by (auto simp: format_unfold intro!: bind_map_result [OF conv_abs])
      qed (use Cons conv in \<open>simp add: format_unfold\<close>)
    qed (use Cons in \<open>simp add: format_unfold\<close>)
  qed (simp add: format_unfold)
qed

end

text \<open>The device of \<open>tfp_sprintf\<close>: the bytes of the array behind the pointer.\<close>

interpretation sprintf_dev: output_device putcp "\<lambda>(s, i). length s - i" "\<lambda>(s, i). take i s" "\<lambda>c. [c]"
proof
  fix c :: char and st :: "cbuf \<times> nat"
  obtain s i where st: "st = (s, i)" by (cases st)
  assume "length [c] \<le> (case st of (s, i) \<Rightarrow> length s - i)"
  then have "i < length s" using st by simp
  then show "\<exists>s'. putcp c st = Inr s' \<and> (case s' of (s, i) \<Rightarrow> take i s) = (case st of (s, i) \<Rightarrow> take i s) @ [c] \<and>
      (case st of (s, i) \<Rightarrow> length s - i) = (case s' of (s, i) \<Rightarrow> length s - i) + length [c]"
    using st by (simp add: putcp_def wr_def take_Suc_conv_app_nth)
qed

end
