(* ===== verification/Uart_Props.thy ===== *)
theory Uart_Props
  imports Uart Output
begin

text \<open>
  The serial line as an output device, and the two buffers the interrupt handler shares with
  the shell.
\<close>

section \<open>The line as an output device\<close>

text \<open>How often the device will still report an empty transmitter, and what it has been sent.\<close>

definition tx_room :: "uart_state \<Rightarrow> nat" where
  "tx_room s = length (filter (\<lambda>v. v AND 0x20 \<noteq> 0) (lsr_reads s))"

definition tx_sent :: "uart_state \<Rightarrow> string" where
  "tx_sent s = map (\<lambda>v. char_of (unat v)) (io_writes s)"

definition crlf :: "char \<Rightarrow> string" where
  "crlf c = (if c = NL then [NL, CR] else [c])"

lemma poll_set_ready:
  assumes "0 < length (filter (\<lambda>v. v AND m \<noteq> 0) vs)"
  shows "\<exists>vs'. poll_set m vs = Inr vs' \<and>
    length (filter (\<lambda>v. v AND m \<noteq> 0) vs) = Suc (length (filter (\<lambda>v. v AND m \<noteq> 0) vs'))"
  using assms by (induction vs) auto

lemma io_write_ready:
  assumes "0 < tx_room s"
  shows "\<exists>vs. io_write c s = Inr (s\<lparr>lsr_reads := vs, io_writes := io_writes s @ [c]\<rparr>) \<and>
    tx_room s = Suc (tx_room (s\<lparr>lsr_reads := vs, io_writes := io_writes s @ [c]\<rparr>))"
  using poll_set_ready [of "0x20" "lsr_reads s"] assms by (auto simp: io_write_def tx_room_def)

lemma unat_of_nat_u32: "unat (of_nat n :: u32) = n mod 2 ^ 32"
  by (simp add: unat_of_nat)

lemma char_of_u32: "char_of (unat (of_char c :: u32)) = c"
proof -
  let ?n = "of_char c :: nat"
  have "?n mod 256 < 256" by simp
  then have "?n < 256" by (simp only: of_char_mod_256)
  then have "?n < 2 ^ 32" by (rule order_less_le_trans) simp
  then have "unat (of_nat ?n :: u32) = ?n" by (simp only: unat_of_nat_u32 mod_less)
  then have "unat (of_char c :: u32) = ?n" by (simp only: of_nat_of_char)
  then show ?thesis by (simp only: char_of_char)
qed

lemma of_char_u32_inject: "(of_char c :: u32) = of_char d \<longleftrightarrow> c = d"
  using char_of_u32 by metis

text \<open>\<open>uart_send\<close> of a character touches nothing but the two streams of the line.\<close>

lemma uart_send_ready:
  assumes "length (crlf c) \<le> tx_room s"
  shows "\<exists>vs w. uart_send (of_char c) s = Inr (s\<lparr>lsr_reads := vs, io_writes := io_writes s @ w\<rparr>) \<and>
    tx_room s = tx_room (s\<lparr>lsr_reads := vs\<rparr>) + length (crlf c) \<and> map (\<lambda>v. char_of (unat v)) w = crlf c"
proof -
  have "0 < tx_room s" using assms by (cases "c = NL") (simp_all add: crlf_def)
  then obtain vs where a: "io_write (of_char c) s = Inr (s\<lparr>lsr_reads := vs, io_writes := io_writes s @ [of_char c]\<rparr>)"
    "tx_room s = Suc (tx_room (s\<lparr>lsr_reads := vs, io_writes := io_writes s @ [of_char c]\<rparr>))"
    using io_write_ready by blast
  show ?thesis
  proof (cases "c = NL")
    case False
    have "uart_send (of_char c) s = Inr (s\<lparr>lsr_reads := vs, io_writes := io_writes s @ [of_char c]\<rparr>)"
      using a(1) False by (simp add: uart_send_def of_char_u32_inject del: of_char_Char)
    then show ?thesis using a(2) False
      by (intro exI [of _ vs] exI [of _ "[of_char c]"]) (simp add: crlf_def char_of_u32 tx_room_def)
  next
    case True
    let ?s = "s\<lparr>lsr_reads := vs, io_writes := io_writes s @ [of_char c]\<rparr>"
    have "0 < tx_room ?s" using a(2) assms True by (simp add: crlf_def)
    then obtain us where b: "io_write (of_char CR) ?s = Inr (?s\<lparr>lsr_reads := us, io_writes := io_writes ?s @ [of_char CR]\<rparr>)"
      "tx_room ?s = Suc (tx_room (?s\<lparr>lsr_reads := us, io_writes := io_writes ?s @ [of_char CR]\<rparr>))"
      using io_write_ready by blast
    have "uart_send (of_char c) s = Inr (s\<lparr>lsr_reads := us, io_writes := io_writes s @ [of_char c, of_char CR]\<rparr>)"
      using a(1) b(1) True by (simp add: uart_send_def)
    then show ?thesis using a(2) b(2) True
      by (intro exI [of _ us] exI [of _ "[of_char c, of_char CR]"]) (simp add: crlf_def char_of_u32 tx_room_def del: of_char_Char)
  qed
qed

interpretation serial: output_device putc tx_room tx_sent crlf
proof
  fix c and s :: uart_state
  assume "length (crlf c) \<le> tx_room s"
  from uart_send_ready [OF this] show "\<exists>s'. putc c s = Inr s' \<and> tx_sent s' = tx_sent s @ crlf c \<and>
      tx_room s = tx_room s' + length (crlf c)"
    by (force simp: putc_def tx_sent_def tx_room_def)
qed

lemma uart_puts_sends:
  assumes "NUL \<notin> set t" "length (concat (map crlf t)) \<le> tx_room s"
  shows "\<exists>s'. uart_puts (t @ [NUL]) s = Inr s' \<and> tx_sent s' = tx_sent s @ concat (map crlf t) \<and>
    tx_room s = tx_room s' + length (concat (map crlf t))"
  using assms
proof (induction t arbitrary: s)
  case (Cons c t)
  then have "length (crlf c) \<le> tx_room s" by simp
  from serial.put_ok [OF this] obtain s1 where s1: "putc c s = Inr s1" "tx_sent s1 = tx_sent s @ crlf c"
    "tx_room s = tx_room s1 + length (crlf c)" by blast
  with Cons obtain s' where "uart_puts (t @ [NUL]) s1 = Inr s'" "tx_sent s' = tx_sent s1 @ concat (map crlf t)"
    "tx_room s1 = tx_room s' + length (concat (map crlf t))" by fastforce
  with s1 Cons.prems(1) show ?case by (auto simp: putc_def)
qed simp

text \<open>Without a terminator \<open>uart_puts\<close> reads on behind the end of the array.\<close>

lemma uart_puts_unterminated: "NUL \<notin> set t \<Longrightarrow> \<exists>e. uart_puts t s = Inl e"
proof (induction t arbitrary: s)
  case (Cons c t)
  then show ?case by (cases "uart_send (of_char c) s") auto
qed simp

text \<open>Sending leaves what will be received alone.\<close>

definition rx_same :: "uart_state \<Rightarrow> uart_state \<Rightarrow> bool" where
  "rx_same s s' \<longleftrightarrow> io_reads s' = io_reads s \<and> set (lsr_reads s') \<subseteq> set (lsr_reads s)"

lemma poll_set_subset: "poll_set m vs = Inr vs' \<Longrightarrow> set vs' \<subseteq> set vs"
  by (induction vs) (auto split: if_splits)

lemma io_write_rx: "io_write c s = Inr s' \<Longrightarrow> rx_same s s'"
  using poll_set_subset [of "0x20" "lsr_reads s"] by (auto simp: io_write_def bind_result_Inr_iff rx_same_def)

interpretation serial_frame: output_frame putc rx_same
proof
  show "rx_same s s" for s by (simp add: rx_same_def)
  show trans: "rx_same s s1 \<Longrightarrow> rx_same s1 s2 \<Longrightarrow> rx_same s s2" for s s1 s2 by (auto simp: rx_same_def)
  show "rx_same s s'" if "putc c s = Inr s'" for c s s'
    using that by (auto simp: putc_def uart_send_def bind_result_Inr_iff split: if_splits dest: io_write_rx intro: trans)
qed

text \<open>What the driver prints when it switches its interrupt on.\<close>

lemma enable_uart_interrupt_ready:
  assumes "25 \<le> tx_room u"
  shows "\<exists>u'. enable_uart_interrupt u = Inr u' \<and> tx_room u = tx_room u' + 25"
proof -
  let ?t = "''[enable_uart_interrupt]'' @ [NL]"
  let ?u = "(enable_uart_read_interrupt (u\<lparr>AUX_MU_IER := 0\<rparr>))\<lparr>ENABLE_IRQS_1 := AUX_IRQ\<rparr>"
  have "tfp_format collect (replicate 12 NUL) (?t @ [NUL]) [] [] = Inr ?t"
    by (simp add: format_unfold collect_apply)
  moreover have l: "length (concat (map crlf ?t)) = 25" by (simp add: crlf_def)
  moreover have r: "tx_room ?u = tx_room u" by (simp add: tx_room_def enable_uart_read_interrupt_def)
  ultimately obtain u' where "uart_printf ?t [] ?u = Inr u'" "tx_room ?u = tx_room u' + 25"
    using serial.format_prints [of "replicate 12 NUL" "?t @ [NUL]" "[]" "[]" ?t ?u] assms
    by (auto simp: uart_printf_def serial.prints_def serial.encs_def)
  then show ?thesis using r by (simp add: enable_uart_interrupt_def)
qed

section \<open>Properties of the line\<close>

text \<open>The driver before \<open>uart_init\<close>, with the answers the device will give.\<close>

definition uart_reset :: "u32 list \<Rightarrow> u32 list \<Rightarrow> uart_state" where
  "uart_reset lsr io = \<lparr>AUX_ENABLE = 0, AUX_MU_CNTL = 0, AUX_MU_IER = 0, AUX_MU_LCR = 0, AUX_MU_MCR = 0, AUX_MU_BAUD = 0,
     AUX_MU_IIR = 0, GPFSEL1 = 0, GPPUD = 0, GPPUDCLK0 = 0, ENABLE_IRQS_1 = 0, lsr_reads = lsr, io_reads = io, io_writes = [],
     mbox_status_reads = [], mbox_reads = [], mbox_writes = [], uart_read_idx = 0, uart_transmit_idx = 0,
     UART_READ_BUFFER = replicate 256 NUL, UART_TRANSMIT_BUFFER = replicate 256 NUL\<rparr>"

text \<open>
  \<open>uart_puts\<close> and \<open>printf\<close> agree: on every text without a conversion, in every state of the
  device, they have the same effect, including a line that never becomes ready.
\<close>

theorem uart_puts_is_printf:
  assumes "NUL \<notin> set t" "CHR ''%'' \<notin> set t"
  shows "uart_puts (t @ [NUL]) s = uart_printf t va s"
proof -
  have "uart_puts (t @ [NUL]) s = tfp_format putc bf (t @ [NUL]) va s" for bf
    using assms
  proof (induction t arbitrary: s)
    case (Cons c t)
    then have "tfp_format putc bf ((c # t) @ [NUL]) va s = bind_result (putc c s) (tfp_format putc bf (t @ [NUL]) va)"
      using format_plain [of c putc bf "t @ [NUL]" va s] by auto
    moreover have "tfp_format putc bf (t @ [NUL]) va = uart_puts (t @ [NUL])"
      using Cons by (simp add: fun_eq_iff)
    moreover have "putc c s = uart_send (of_char c) s" by (simp add: putc_def)
    ultimately show ?case using Cons.prems by auto
  qed (simp add: format_unfold)
  then show ?thesis by (simp add: uart_printf_def)
qed

theorem uart_puts_is_printf_witness: "uart_puts (''# '' @ [NUL]) (uart_reset [0x20] []) = uart_printf ''# '' [] (uart_reset [0x20] [])"
  by (rule uart_puts_is_printf) simp_all

text \<open>
  C26. What the formatter produces is what goes over the line: if the device reports an empty
  transmitter often enough, \<open>printf\<close> returns and has sent the formatted text with a carriage
  return after every newline, and nothing else.
\<close>

theorem uart_printf_sends:
  assumes "tfp_format collect (replicate 12 NUL) (fmt @ [NUL]) va [] = Inr t"
    "length (concat (map crlf t)) \<le> tx_room s"
  shows "\<exists>s'. uart_printf fmt va s = Inr s' \<and> tx_sent s' = tx_sent s @ concat (map crlf t) \<and>
    tx_room s = tx_room s' + length (concat (map crlf t))"
  using serial.format_prints [of "replicate 12 NUL" "fmt @ [NUL]" va "[]" t s] assms
  by (auto simp: uart_printf_def serial.prints_def serial.encs_def)

theorem uart_printf_sends_witness:
  "\<exists>s'. uart_printf (''ok'' @ [NL]) [] (uart_reset [0, 0x20, 0x60, 0x20, 0x20] []) = Inr s' \<and> tx_sent s' = ''ok'' @ [NL, CR]"
proof -
  have "tfp_format collect (replicate 12 NUL) ((''ok'' @ [NL]) @ [NUL]) [] [] = Inr (''ok'' @ [NL])"
    by (simp add: format_unfold collect_apply)
  from uart_printf_sends [OF this, of "uart_reset [0, 0x20, 0x60, 0x20, 0x20] []"] show ?thesis
    by (auto simp: crlf_def tx_room_def uart_reset_def tx_sent_def)
qed

end
