(* ===== verification/Sched.thy ===== *)
theory Sched
  imports Kernel_State
begin

text \<open>
  The scheduler, \<open>src/sched.c\<close>, and the register switch of \<open>src/sched.S\<close>. A function that
  switches tasks ends, for the machine, in the task it switched to. That task was itself
  switched out inside \<open>_schedule\<close> and goes on with the \<open>preempt_enable\<close> behind \<open>switch_to\<close>, or
  is new and starts at \<open>ret_from_fork\<close>, which calls \<open>schedule_tail\<close>; both decrement the counter
  of the task now running, and that is part of the model's step.
\<close>

definition preempt_disable :: "kernel \<Rightarrow> kernel" where
  "preempt_disable k = upd_task (current k) (\<lambda>t. t\<lparr>preempt_count := preempt_count t + 1\<rparr>) k"

definition preempt_enable :: "kernel \<Rightarrow> kernel" where
  "preempt_enable k = upd_task (current k) (\<lambda>t. t\<lparr>preempt_count := preempt_count t - 1\<rparr>) k"

text \<open>The first inner loop of \<open>_schedule\<close>; the variable \<open>c\<close> is an \<open>int\<close>.\<close>

fun pick_best :: "kernel \<Rightarrow> int list \<Rightarrow> int \<Rightarrow> int \<Rightarrow> int \<times> int" where
  "pick_best k [] c next = (c, next)"
| "pick_best k (i # is) c next =
     (let p = task k i
      in if p \<noteq> 0 \<and> state (tcb k p) = TASK_RUNNING \<and> c < counter (tcb k p)
         then pick_best k is (signed_take_bit 31 (counter (tcb k p))) i
         else pick_best k is c next)"

text \<open>The second inner loop: every task gets half of what it has left and its priority.\<close>

definition refill_task :: "task_struct \<Rightarrow> task_struct" where
  "refill_task t = t\<lparr>counter := counter t div 2 + priority t\<rparr>"

definition refill :: "kernel \<Rightarrow> kernel" where
  "refill k = fold (\<lambda>i k. if task k i \<noteq> 0 then upd_task (task k i) refill_task k else k) [0..NR_TASKS - 1] k"

partial_function (option) pick_loop :: "kernel \<Rightarrow> (kernel \<times> int) option" where
  "pick_loop k =
     (case pick_best k [0..NR_TASKS - 1] (-1) 0 of (c, next) \<Rightarrow>
        if c \<noteq> 0 then Some (k, next) else pick_loop (refill k))"

definition cpu_switch_to :: "u64 \<Rightarrow> u64 \<Rightarrow> kernel \<Rightarrow> kernel" where
  "cpu_switch_to prev next k =
     (let k1 = upd_task prev (\<lambda>t. t\<lparr>cpu_ctx := cpu k\<rparr>) k
      in k1\<lparr>cpu := cpu_ctx (tcb k1 next)\<rparr>)"

definition switch_to :: "u64 \<Rightarrow> kernel \<Rightarrow> kernel result" where
  "switch_to next k =
     (if current k = next then Inr k
      else if next = 0 then Inl Null_Deref
      else Inr (cpu_switch_to (current k) next (k\<lparr>current := next\<rparr>)))"

text \<open>The source's \<open>_schedule\<close>.\<close>

definition do_schedule :: "kernel \<Rightarrow> kernel result" where
  "do_schedule k =
     (case pick_loop (preempt_disable k) of
        None \<Rightarrow> Inl No_Return
      | Some (k1, next) \<Rightarrow>
          bind_result (task_at next k1) (\<lambda>p.
          bind_result (switch_to p k1) (\<lambda>k2. Inr (preempt_enable k2))))"

definition schedule :: "kernel \<Rightarrow> kernel result" where
  "schedule k = do_schedule (upd_task (current k) (\<lambda>t. t\<lparr>counter := 0\<rparr>) k)"

definition schedule_tail :: "kernel \<Rightarrow> kernel" where
  "schedule_tail k = preempt_enable k"

definition timer_tick :: "kernel \<Rightarrow> kernel" where
  "timer_tick k = upd_task (current k) (\<lambda>t. t\<lparr>counter := counter t - 1\<rparr>) k"

definition task_preemption :: "kernel \<Rightarrow> kernel result" where
  "task_preemption k =
     (if 0 < counter (tcb k (current k)) \<or> 0 < preempt_count (tcb k (current k)) then Inr k
      else do_schedule (upd_task (current k) (\<lambda>t. t\<lparr>counter := 0\<rparr>) k))"

definition exit_process :: "kernel \<Rightarrow> kernel result" where
  "exit_process k =
     (let k1 = upd_task (current k) (\<lambda>t. t\<lparr>state := TASK_ZOMBIE\<rparr>) (preempt_disable k)
      in bind_result (if stack (tcb k1 (current k1)) \<noteq> 0 then k_free (stack (tcb k1 (current k1))) k1 else Inr k1) (\<lambda>k2.
           schedule (preempt_enable k2)))"

text \<open>\<open>kill_zombies\<close> reads the state of every slot and does nothing with it.\<close>

fun kill_zombies_from :: "int list \<Rightarrow> kernel \<Rightarrow> kernel result" where
  "kill_zombies_from [] k = Inr k"
| "kill_zombies_from (i # is) k = bind_result (deref (task k i) k) (\<lambda>_. kill_zombies_from is k)"

definition kill_zombies :: "kernel \<Rightarrow> kernel result" where
  "kill_zombies k = kill_zombies_from [0..NR_TASKS - 1] k"

definition state_name :: "int \<Rightarrow> string" where
  "state_name st =
     (if st = TASK_RUNNING then ''RUNNING'' else if st = TASK_WAITING then ''WAITING''
      else if st = TASK_ZOMBIE then ''ZOMBIE'' else ''Unknown State'')"

definition dump_task :: "int \<Rightarrow> kernel \<Rightarrow> kernel" where
  "dump_task i k =
     (if task k i = 0 then k
      else kprintf [NL] []
             (kprintf (state_name (state (tcb k (task k i)))) [] (kprintf ''Task %d: '' [VInt (pid (tcb k (task k i)))] k)))"

definition dumpTasksState :: "kernel \<Rightarrow> kernel" where
  "dumpTasksState k = fold dump_task [0..NR_TASKS - 1] (kprintf (''=========Tasks state========='' @ [NL]) [] k)"

end
