(* ===== verification/Sched_Props.thy ===== *)
theory Sched_Props
  imports Sched Uart_Props Timer_Props
begin

text \<open>
  The scheduler always comes back, with the runnable task that has the most time left; it keeps
  the task pool well-formed, and under repeated calls every runnable task gets its turn.
\<close>

section \<open>The task pool\<close>

definition live :: "kernel \<Rightarrow> int set" where
  "live k = {i \<in> {0..<NR_TASKS}. task k i \<noteq> 0}"

lemma live_finite: "finite (live k)"
  by (rule finite_subset [of _ "{0..<NR_TASKS}"]) (auto simp: live_def)

definition live_tasks :: "kernel \<Rightarrow> u64 set" where
  "live_tasks k = task k ` live k"

text \<open>
  Slots hold different tasks, the pid of a task is its slot, \<open>nr_tasks\<close> counts the slots in use,
  priorities are positive and small enough for the \<open>int\<close> of the scheduler loop, and no task has
  more time left than two rounds give.
\<close>

definition pool_ok :: "kernel \<Rightarrow> bool" where
  "pool_ok k \<longleftrightarrow> task k 0 \<noteq> 0 \<and> inj_on (task k) (live k) \<and> nr_tasks k = int (card (live k)) \<and>
     (\<forall>i\<in>live k. pid (tcb k (task k i)) = i \<and> 1 \<le> priority (tcb k (task k i)) \<and> priority (tcb k (task k i)) < 2 ^ 29 \<and>
        counter (tcb k (task k i)) \<le> 2 * priority (tcb k (task k i)))"

text \<open>Every task but the running one has time left or none, and was switched out with preemption disabled once.\<close>

definition sched_inv :: "kernel \<Rightarrow> bool" where
  "sched_inv k \<longleftrightarrow> pool_ok k \<and> current k \<in> live_tasks k \<and>
     (\<forall>p\<in>live_tasks k - {current k}. 0 \<le> counter (tcb k p) \<and> preempt_count (tcb k p) = 1)"

definition runnable :: "kernel \<Rightarrow> u64 \<Rightarrow> bool" where
  "runnable k p \<longleftrightarrow> p \<in> live_tasks k \<and> state (tcb k p) = TASK_RUNNING"

lemma live_tasks_nonzero: "p \<in> live_tasks k \<Longrightarrow> p \<noteq> 0"
  by (auto simp: live_tasks_def live_def)

lemma slots_set: "set [0..NR_TASKS - 1] = {0..<NR_TASKS}"
  by auto

lemma live_tasks_image: "p \<in> live_tasks k \<longleftrightarrow> p \<noteq> 0 \<and> p \<in> task k ` {0..<NR_TASKS}"
  by (auto simp: live_tasks_def live_def)

lemma live_cong: "task k' = task k \<Longrightarrow> live k' = live k" "task k' = task k \<Longrightarrow> live_tasks k' = live_tasks k"
  by (simp_all add: live_def live_tasks_def)

section \<open>The loops of \<open>_schedule\<close>\<close>

lemma pick_best_spec:
  assumes "\<And>i. i \<in> set is \<Longrightarrow> task k i \<noteq> 0 \<Longrightarrow> - (2 ^ 31) \<le> counter (tcb k (task k i)) \<and> counter (tcb k (task k i)) < 2 ^ 31"
    and "pick_best k is c n = (c', n')"
  shows "c \<le> c'"
    and "\<And>i. i \<in> set is \<Longrightarrow> task k i \<noteq> 0 \<Longrightarrow> state (tcb k (task k i)) = TASK_RUNNING \<Longrightarrow> counter (tcb k (task k i)) \<le> c'"
    and "c' = c \<and> n' = n \<or> n' \<in> set is \<and> task k n' \<noteq> 0 \<and> state (tcb k (task k n')) = TASK_RUNNING \<and>
      counter (tcb k (task k n')) = c'"
proof -
  have "c \<le> c' \<and> (\<forall>i\<in>set is. task k i \<noteq> 0 \<longrightarrow> state (tcb k (task k i)) = TASK_RUNNING \<longrightarrow> counter (tcb k (task k i)) \<le> c') \<and>
    (c' = c \<and> n' = n \<or> n' \<in> set is \<and> task k n' \<noteq> 0 \<and> state (tcb k (task k n')) = TASK_RUNNING \<and> counter (tcb k (task k n')) = c')"
    using assms
  proof (induction "is" arbitrary: c n)
    case (Cons i "is")
    have fit: "signed_take_bit 31 (counter (tcb k (task k i))) = counter (tcb k (task k i))" if "task k i \<noteq> 0"
      using Cons.prems(1) [of i] that by (intro signed_take_bit_int_eq_self) auto
    let ?better = "task k i \<noteq> 0 \<and> state (tcb k (task k i)) = TASK_RUNNING \<and> c < counter (tcb k (task k i))"
    show ?case
    proof (cases ?better)
      case True
      with Cons.prems(2) fit have "pick_best k is (counter (tcb k (task k i))) i = (c', n')" by (simp add: Let_def)
      from Cons.IH [OF _ this] Cons.prems(1) True show ?thesis by auto
    next
      case False
      with Cons.prems(2) have "pick_best k is c n = (c', n')" by (simp add: Let_def split: if_splits)
      from Cons.IH [OF _ this] Cons.prems(1) False show ?thesis by auto
    qed
  qed simp
  then show "c \<le> c'"
    "\<And>i. i \<in> set is \<Longrightarrow> task k i \<noteq> 0 \<Longrightarrow> state (tcb k (task k i)) = TASK_RUNNING \<Longrightarrow> counter (tcb k (task k i)) \<le> c'"
    "c' = c \<and> n' = n \<or> n' \<in> set is \<and> task k n' \<noteq> 0 \<and> state (tcb k (task k n')) = TASK_RUNNING \<and>
      counter (tcb k (task k n')) = c'" by blast+
qed

lemma refill_fold:
  assumes "distinct is" "inj_on (task k) {i \<in> set is. task k i \<noteq> 0}"
  shows "fold (\<lambda>i k. if task k i \<noteq> 0 then upd_task (task k i) refill_task k else k) is k =
    k\<lparr>tcb := \<lambda>p. if p \<noteq> 0 \<and> p \<in> task k ` set is then refill_task (tcb k p) else tcb k p\<rparr>"
  using assms
proof (induction "is" arbitrary: k)
  case (Cons i "is")
  let ?k = "if task k i \<noteq> 0 then upd_task (task k i) refill_task k else k"
  have t: "task ?k = task k" by simp
  have "inj_on (task ?k) {j \<in> set is. task ?k j \<noteq> 0}"
    using Cons.prems(2) unfolding t by (rule inj_on_subset) auto
  then have IH: "fold (\<lambda>i k. if task k i \<noteq> 0 then upd_task (task k i) refill_task k else k) is ?k =
      ?k\<lparr>tcb := \<lambda>p. if p \<noteq> 0 \<and> p \<in> task k ` set is then refill_task (tcb ?k p) else tcb ?k p\<rparr>"
    using Cons.IH [of ?k] Cons.prems(1) t by simp
  have "task k i \<notin> task k ` set is" if "task k i \<noteq> 0"
  proof
    assume "task k i \<in> task k ` set is"
    then obtain j where j: "j \<in> set is" "task k i = task k j" by blast
    then have "i = j" using that by (intro inj_onD [OF Cons.prems(2)]) auto
    then show False using j Cons.prems(1) by simp
  qed
  then have "(\<lambda>p. if p \<noteq> 0 \<and> p \<in> task k ` set is then refill_task (tcb ?k p) else tcb ?k p) =
      (\<lambda>p. if p \<noteq> 0 \<and> p \<in> task k ` set (i # is) then refill_task (tcb k p) else tcb k p)"
    by (auto simp: fun_eq_iff)
  then show ?case using IH by (simp add: upd_task_def)
qed simp

lemma refill_eq:
  assumes "inj_on (task k) (live k)"
  shows "refill k = k\<lparr>tcb := \<lambda>p. if p \<in> live_tasks k then refill_task (tcb k p) else tcb k p\<rparr>"
proof -
  have "inj_on (task k) {i \<in> set [0..NR_TASKS - 1]. task k i \<noteq> 0}" using assms by (simp only: slots_set live_def)
  from refill_fold [OF _ this] show ?thesis
    unfolding refill_def slots_set live_tasks_image by simp
qed

text \<open>What every operation of the scheduler leaves alone.\<close>

definition same_tasks :: "kernel \<Rightarrow> kernel \<Rightarrow> bool" where
  "same_tasks k k' \<longleftrightarrow> task k' = task k \<and> nr_tasks k' = nr_tasks k \<and> ktimer k' = ktimer k \<and> mem k' = mem k \<and> ret_from_fork k' = ret_from_fork k \<and>
     ptregs k' = ptregs k \<and> uart k' = uart k \<and> wlinks k' = wlinks k \<and> wprivate k' = wprivate k \<and> console k' = console k \<and>
     kernel_shell_status k' = kernel_shell_status k \<and>
     (\<forall>p. state (tcb k' p) = state (tcb k p) \<and> priority (tcb k' p) = priority (tcb k p) \<and> stack (tcb k' p) = stack (tcb k p) \<and>
        flags (tcb k' p) = flags (tcb k p) \<and> pid (tcb k' p) = pid (tcb k p))"

lemma same_tasks_refl [simp]: "same_tasks k k"
  by (simp add: same_tasks_def)

lemma same_tasks_trans: "same_tasks k k1 \<Longrightarrow> same_tasks k1 k2 \<Longrightarrow> same_tasks k k2"
  by (simp add: same_tasks_def)

lemma same_tasks_live: "same_tasks k k' \<Longrightarrow> live k' = live k" "same_tasks k k' \<Longrightarrow> live_tasks k' = live_tasks k"
  by (auto simp: same_tasks_def live_def live_tasks_def)

lemma same_tasks_runnable:
  assumes "same_tasks k k'"
  shows "runnable k' p = runnable k p"
  using assms same_tasks_live(2) [OF assms] by (simp add: runnable_def same_tasks_def)

lemma same_tasks_pool:
  assumes "pool_ok k" "same_tasks k k'" "\<And>p. p \<in> live_tasks k \<Longrightarrow> counter (tcb k' p) \<le> 2 * priority (tcb k p)"
  shows "pool_ok k'"
  using assms same_tasks_live [OF assms(2)] by (auto simp: pool_ok_def same_tasks_def live_tasks_def)

text \<open>The pool while a task is being chosen: every task has time left or none.\<close>

definition choosing :: "kernel \<Rightarrow> bool" where
  "choosing k \<longleftrightarrow> pool_ok k \<and> (\<forall>p\<in>live_tasks k. 0 \<le> counter (tcb k p) \<and> counter (tcb k p) \<le> 2 * priority (tcb k p) \<and>
     1 \<le> priority (tcb k p) \<and> priority (tcb k p) < 2 ^ 29)"

lemma choosing_pick:
  assumes "choosing k" "pick_best k [0..NR_TASKS - 1] (-1) 0 = (c, n)"
  shows "\<exists>p. runnable k p \<Longrightarrow> 0 \<le> c \<and> n \<in> live k \<and> runnable k (task k n) \<and> counter (tcb k (task k n)) = c \<and>
      (\<forall>p. runnable k p \<longrightarrow> counter (tcb k p) \<le> c)"
    and "\<nexists>p. runnable k p \<Longrightarrow> c = -1 \<and> n = 0"
proof -
  have b: "- (2 ^ 31) \<le> counter (tcb k (task k i)) \<and> counter (tcb k (task k i)) < 2 ^ 31"
    if "i \<in> set [0..NR_TASKS - 1]" "task k i \<noteq> 0" for i
  proof -
    have "task k i \<in> live_tasks k" using that by (auto simp: live_tasks_image)
    with assms(1) show ?thesis by (auto simp: choosing_def)
  qed
  note spec = pick_best_spec [OF b assms(2)]
  have run: "runnable k p \<longleftrightarrow> (\<exists>i\<in>set [0..NR_TASKS - 1]. p = task k i \<and> task k i \<noteq> 0 \<and> state (tcb k (task k i)) = TASK_RUNNING)" for p
    unfolding slots_set by (auto simp: runnable_def live_tasks_image)
  {
    assume "\<exists>p. runnable k p"
    then obtain p where p: "runnable k p" by blast
    have max: "counter (tcb k q) \<le> c" if "runnable k q" for q using that spec(2) unfolding run by auto
    have "0 \<le> counter (tcb k p)" using p assms(1) by (auto simp: runnable_def choosing_def)
    with max [OF p] have c: "0 \<le> c" by simp
    with spec(3) have n: "n \<in> set [0..NR_TASKS - 1]" "task k n \<noteq> 0" "state (tcb k (task k n)) = TASK_RUNNING" "counter (tcb k (task k n)) = c"
      by auto
    then have "n \<in> live k" "runnable k (task k n)" unfolding run by (auto simp: live_def)
    with c max n(4) show "0 \<le> c \<and> n \<in> live k \<and> runnable k (task k n) \<and> counter (tcb k (task k n)) = c \<and>
      (\<forall>p. runnable k p \<longrightarrow> counter (tcb k p) \<le> c)" by blast
  }
  {
    assume "\<nexists>p. runnable k p"
    then show "c = -1 \<and> n = 0" using spec(3) run [of "task k n"] by blast
  }
qed

lemma pick_loop_choosing:
  assumes "choosing k"
  shows "\<exists>k1 n. pick_loop k = Some (k1, n) \<and>
    (k1 = k \<or> (\<forall>p\<in>live_tasks k. counter (tcb k1 p) = counter (tcb k p) div 2 + priority (tcb k p)) \<and>
      (\<forall>p. runnable k p \<longrightarrow> counter (tcb k p) = 0)) \<and> choosing k1 \<and> same_tasks k k1 \<and> current k1 = current k \<and>
    cpu k1 = cpu k \<and> (\<forall>p. preempt_count (tcb k1 p) = preempt_count (tcb k p) \<and> cpu_ctx (tcb k1 p) = cpu_ctx (tcb k p)) \<and>
    n \<in> live k \<and>
    (if \<exists>p. runnable k p
     then runnable k (task k n) \<and> 0 < counter (tcb k1 (task k n)) \<and>
       (\<forall>p. runnable k p \<longrightarrow> counter (tcb k1 p) \<le> counter (tcb k1 (task k n)))
     else n = 0)"
proof -
  obtain c n where cn: "pick_best k [0..NR_TASKS - 1] (-1) 0 = (c, n)" by fastforce
  note pick = choosing_pick [OF assms cn]
  have pool: "pool_ok k" using assms by (simp add: choosing_def)
  show ?thesis
  proof (cases "\<exists>p. runnable k p")
    case False
    then have "pick_loop k = Some (k, n)" "n = 0" using pick(2) cn by (subst pick_loop.simps, auto)
    moreover have "0 \<in> live k" using pool by (simp add: pool_ok_def live_def)
    ultimately show ?thesis using assms False by auto
  next
    case True
    note P = pick(1) [OF True]
    show ?thesis
    proof (cases "c = 0")
      case False
      then have "pick_loop k = Some (k, n)" using cn by (subst pick_loop.simps) simp
      with P False assms True show ?thesis by (intro exI [of _ k] exI [of _ n]) auto
    next
      case zero: True
      let ?r = "refill k"
      have r: "?r = k\<lparr>tcb := \<lambda>p. if p \<in> live_tasks k then refill_task (tcb k p) else tcb k p\<rparr>"
        using pool by (intro refill_eq) (simp add: pool_ok_def)
      then have same: "same_tasks k ?r" by (simp add: same_tasks_def refill_task_def)
      have rc: "counter (tcb ?r p) = counter (tcb k p) div 2 + priority (tcb k p)" if "p \<in> live_tasks k" for p
        using that by (simp add: r refill_task_def)
      have ch: "choosing ?r" unfolding choosing_def
      proof (intro conjI)
        show "pool_ok ?r" using rc assms by (intro same_tasks_pool [OF pool same]) (auto simp: choosing_def)
        show "\<forall>p\<in>live_tasks ?r. 0 \<le> counter (tcb ?r p) \<and> counter (tcb ?r p) \<le> 2 * priority (tcb ?r p) \<and>
            1 \<le> priority (tcb ?r p) \<and> priority (tcb ?r p) < 2 ^ 29"
          using rc assms same same_tasks_live(2) [OF same] by (auto simp: choosing_def same_tasks_def)
      qed
      have run: "runnable ?r p = runnable k p" for p using same_tasks_runnable [OF same] .
      obtain c' n' where cn': "pick_best ?r [0..NR_TASKS - 1] (-1) 0 = (c', n')" by fastforce
      have P': "n' \<in> live k" "runnable k (task k n')" "counter (tcb ?r (task k n')) = c'"
        "\<forall>p. runnable k p \<longrightarrow> counter (tcb ?r p) \<le> c'"
        using choosing_pick(1) [OF ch cn'] True same_tasks_live(1) [OF same] same
        by (simp_all add: run same_tasks_def)
      have "task k n' \<in> live_tasks k" using P'(2) by (simp add: runnable_def)
      then have pos: "0 < c'" using rc [of "task k n'"] P'(3) assms by (auto simp: choosing_def)
      then have "pick_loop ?r = Some (?r, n')" using cn' by (subst pick_loop.simps) simp
      then have "pick_loop k = Some (?r, n')" using cn zero by (subst pick_loop.simps) simp
      moreover have "current ?r = current k" "cpu ?r = cpu k"
        "\<forall>p. preempt_count (tcb ?r p) = preempt_count (tcb k p) \<and> cpu_ctx (tcb ?r p) = cpu_ctx (tcb k p)"
        by (simp_all add: r refill_task_def)
      moreover have "\<forall>p. runnable k p \<longrightarrow> counter (tcb k p) = 0"
        using P zero assms by (force simp: choosing_def runnable_def intro: antisym)
      ultimately show ?thesis using P' pos ch same True rc by (intro exI [of _ ?r] exI [of _ n']) simp
    qed
  qed
qed

text \<open>One pass through \<open>_schedule\<close>, from any state in which every task has time left or none.\<close>

lemma do_schedule_step:
  assumes ch: "choosing k" and cur: "current k \<in> live_tasks k" "preempt_count (tcb k (current k)) = 0"
    and out: "\<forall>p\<in>live_tasks k - {current k}. preempt_count (tcb k p) = 1"
  obtains k' where "do_schedule k = Inr k'" "sched_inv k'" "choosing k'" "same_tasks k k'" "preempt_count (tcb k' (current k')) = 0"
    "cpu k' = (if current k' = current k then cpu k else cpu_ctx (tcb k (current k')))"
    "\<forall>p. cpu_ctx (tcb k' p) = (if p = current k \<and> current k' \<noteq> current k then cpu k else cpu_ctx (tcb k p))"
    "if \<exists>p. runnable k p
     then runnable k (current k') \<and> 0 < counter (tcb k' (current k')) \<and>
       (\<forall>p. runnable k p \<longrightarrow> counter (tcb k' p) \<le> counter (tcb k' (current k')))
     else current k' = task k 0"
    "(\<forall>p. counter (tcb k' p) = counter (tcb k p)) \<or>
     (\<forall>p\<in>live_tasks k. counter (tcb k' p) = counter (tcb k p) div 2 + priority (tcb k p)) \<and>
       (\<forall>p. runnable k p \<longrightarrow> counter (tcb k p) = 0)"
proof -
  let ?d = "preempt_disable k"
  have sd: "same_tasks k ?d" "\<And>p. counter (tcb ?d p) = counter (tcb k p)" "\<And>p. cpu_ctx (tcb ?d p) = cpu_ctx (tcb k p)"
    "cpu ?d = cpu k" "current ?d = current k"
    by (auto simp: preempt_disable_def same_tasks_def)
  have pd: "\<forall>p\<in>live_tasks k. preempt_count (tcb ?d p) = 1" using cur out by (simp add: preempt_disable_def)
  have chd: "choosing ?d"
    using ch same_tasks_pool [OF _ sd(1)] same_tasks_live(2) [OF sd(1)] sd(1,2)
    by (auto simp: choosing_def same_tasks_def)
  have run: "runnable ?d p = runnable k p" for p using same_tasks_runnable [OF sd(1)] .
  have e: "live ?d = live k" "live_tasks ?d = live_tasks k" "task ?d = task k" "\<And>p. priority (tcb ?d p) = priority (tcb k p)"
    using sd(1) same_tasks_live [OF sd(1)] by (simp_all add: same_tasks_def)
  obtain k1 n where k1: "pick_loop ?d = Some (k1, n)"
    "k1 = ?d \<or> (\<forall>p\<in>live_tasks k. counter (tcb k1 p) = counter (tcb k p) div 2 + priority (tcb k p)) \<and>
      (\<forall>p. runnable k p \<longrightarrow> counter (tcb k p) = 0)"
    "choosing k1" "same_tasks ?d k1" "current k1 = current k" "cpu k1 = cpu k"
    "\<forall>p. preempt_count (tcb k1 p) = preempt_count (tcb ?d p) \<and> cpu_ctx (tcb k1 p) = cpu_ctx (tcb k p)" "n \<in> live k"
    "if \<exists>p. runnable k p
     then runnable k (task k n) \<and> 0 < counter (tcb k1 (task k n)) \<and>
       (\<forall>p. runnable k p \<longrightarrow> counter (tcb k1 p) \<le> counter (tcb k1 (task k n)))
     else n = 0"
    using pick_loop_choosing [OF chd, unfolded run sd(2-5) e] by blast
  have s1: "same_tasks k k1" using same_tasks_trans [OF sd(1) k1(4)] .
  let ?p = "task k n"
  have p: "?p \<in> live_tasks k" "?p \<noteq> 0" using k1(8) by (auto simp: live_tasks_def live_def)
  define k2 where "k2 = (if current k = ?p then k1 else cpu_switch_to (current k) ?p (k1\<lparr>current := ?p\<rparr>))"
  have sw: "switch_to ?p k1 = Inr k2" using p(2) k1(5) by (simp add: switch_to_def k2_def)
  let ?k = "preempt_enable k2"
  have s2: "same_tasks k1 ?k" "current ?k = ?p" "\<And>q. counter (tcb ?k q) = counter (tcb k1 q)"
    by (auto simp: k2_def preempt_enable_def cpu_switch_to_def Let_def same_tasks_def k1(5))
  have same: "same_tasks k ?k" using same_tasks_trans [OF s1 s2(1)] .
  have r: "do_schedule k = Inr ?k"
    using k1(1) sw k1(8) s1 by (simp add: do_schedule_def task_at_def live_def same_tasks_def)
  have pc: "preempt_count (tcb ?k q) = (if q = ?p then preempt_count (tcb k1 q) - 1 else preempt_count (tcb k1 q))" for q
    by (auto simp: k2_def preempt_enable_def cpu_switch_to_def Let_def k1(5))
  have chk: "choosing ?k"
    using k1(3) same_tasks_pool [OF _ s2(1)] same_tasks_live(2) [OF s2(1)] s2(1,3)
    by (auto simp: choosing_def same_tasks_def)
  have l: "live_tasks ?k = live_tasks k" using same_tasks_live(2) [OF same] .
  have "sched_inv ?k"
    using chk pc k1(7) pd p(1) by (simp add: sched_inv_def choosing_def l s2(2))
  moreover have "preempt_count (tcb ?k (current ?k)) = 0" using pc k1(7) pd p(1) s2(2) by simp
  moreover have "cpu ?k = (if current ?k = current k then cpu k else cpu_ctx (tcb k (current ?k)))"
    unfolding s2(2) using k1(6,7) by (auto simp: k2_def preempt_enable_def cpu_switch_to_def Let_def)
  moreover have "\<forall>q. cpu_ctx (tcb ?k q) = (if q = current k \<and> current ?k \<noteq> current k then cpu k else cpu_ctx (tcb k q))"
    unfolding s2(2) using k1(6,7) by (auto simp: k2_def preempt_enable_def cpu_switch_to_def Let_def)
  moreover have "if \<exists>p. runnable k p
     then runnable k (current ?k) \<and> 0 < counter (tcb ?k (current ?k)) \<and>
       (\<forall>p. runnable k p \<longrightarrow> counter (tcb ?k p) \<le> counter (tcb ?k (current ?k)))
     else current ?k = task k 0"
    using k1(9) unfolding s2(2,3) by (auto split: if_splits)
  moreover have "(\<forall>q. counter (tcb ?k q) = counter (tcb k q)) \<or>
     (\<forall>q\<in>live_tasks k. counter (tcb ?k q) = counter (tcb k q) div 2 + priority (tcb k q)) \<and>
       (\<forall>q. runnable k q \<longrightarrow> counter (tcb k q) = 0)"
    using k1(2) unfolding s2(3) by (auto simp: sd(2))
  ultimately show thesis using that [OF r _ chk same] by blast
qed

lemma schedule_step:
  assumes inv: "sched_inv k" and pre: "preempt_count (tcb k (current k)) = 0"
  defines "k0 \<equiv> upd_task (current k) (\<lambda>t. t\<lparr>counter := 0\<rparr>) k"
  obtains k' where "schedule k = Inr k'" "do_schedule k0 = Inr k'" "sched_inv k'" "choosing k'" "same_tasks k k'"
    "preempt_count (tcb k' (current k')) = 0"
    "cpu k' = (if current k' = current k then cpu k else cpu_ctx (tcb k (current k')))"
    "\<forall>p. cpu_ctx (tcb k' p) = (if p = current k \<and> current k' \<noteq> current k then cpu k else cpu_ctx (tcb k p))"
    "if \<exists>p. runnable k p
     then runnable k (current k') \<and> 0 < counter (tcb k' (current k')) \<and>
       (\<forall>p. runnable k p \<longrightarrow> counter (tcb k' p) \<le> counter (tcb k' (current k')))
     else current k' = task k 0"
    "(\<forall>p. counter (tcb k' p) = (if p = current k then 0 else counter (tcb k p))) \<or>
     (\<forall>p\<in>live_tasks k. counter (tcb k' p) = (if p = current k then 0 else counter (tcb k p)) div 2 + priority (tcb k p)) \<and>
       (\<forall>p. runnable k p \<longrightarrow> (if p = current k then 0 else counter (tcb k p)) = 0)"
proof -
  have s0: "same_tasks k k0" by (simp add: k0_def same_tasks_def)
  have pool: "pool_ok k" using inv by (simp add: sched_inv_def)
  have prio: "1 \<le> priority (tcb k p) \<and> priority (tcb k p) < 2 ^ 29 \<and> counter (tcb k p) \<le> 2 * priority (tcb k p)"
    if "p \<in> live_tasks k" for p using pool that by (auto simp: pool_ok_def live_tasks_def)
  have c0: "counter (tcb k0 p) = (if p = current k then 0 else counter (tcb k p))" "cpu_ctx (tcb k0 p) = cpu_ctx (tcb k p)"
    "current k0 = current k" "cpu k0 = cpu k" "preempt_count (tcb k0 p) = preempt_count (tcb k p)"
    "priority (tcb k0 p) = priority (tcb k p)" "task k0 = task k" for p
    by (simp_all add: k0_def)
  have l: "live_tasks k0 = live_tasks k" and run: "runnable k0 p = runnable k p" for p
    using same_tasks_live(2) [OF s0] same_tasks_runnable [OF s0] by simp_all
  have p0: "pool_ok k0" using prio by (intro same_tasks_pool [OF pool s0]) (force simp: c0)
  have "0 \<le> counter (tcb k p)" if "p \<in> live_tasks k" "p \<noteq> current k" for p
    using inv that by (simp add: sched_inv_def)
  then have ch: "choosing k0" using p0 prio by (force simp: choosing_def l c0)
  have cur: "current k0 \<in> live_tasks k0" "preempt_count (tcb k0 (current k0)) = 0"
    "\<forall>p\<in>live_tasks k0 - {current k0}. preempt_count (tcb k0 p) = 1"
    using inv pre by (simp_all add: sched_inv_def l c0)
  obtain k' where k': "do_schedule k0 = Inr k'" "sched_inv k'" "choosing k'" "same_tasks k0 k'" "preempt_count (tcb k' (current k')) = 0"
    "cpu k' = (if current k' = current k then cpu k else cpu_ctx (tcb k (current k')))"
    "\<forall>p. cpu_ctx (tcb k' p) = (if p = current k \<and> current k' \<noteq> current k then cpu k else cpu_ctx (tcb k p))"
    "if \<exists>p. runnable k p
     then runnable k (current k') \<and> 0 < counter (tcb k' (current k')) \<and>
       (\<forall>p. runnable k p \<longrightarrow> counter (tcb k' p) \<le> counter (tcb k' (current k')))
     else current k' = task k 0"
    "(\<forall>p. counter (tcb k' p) = (if p = current k then 0 else counter (tcb k p))) \<or>
     (\<forall>p\<in>live_tasks k. counter (tcb k' p) = (if p = current k then 0 else counter (tcb k p)) div 2 + priority (tcb k p)) \<and>
       (\<forall>p. runnable k p \<longrightarrow> (if p = current k then 0 else counter (tcb k p)) = 0)"
    by (rule do_schedule_step [OF ch cur, unfolded run c0 l]) blast
  have "schedule k = Inr k'" using k'(1) by (simp add: schedule_def k0_def)
  then show thesis using same_tasks_trans [OF s0 k'(4)] that k' by blast
qed

section \<open>Properties of the scheduler\<close>

text \<open>
  C27. \<open>schedule\<close> always returns, although its loop has no bound: the pool stays well-formed, and
  if any task can run, the task that runs next is one of them, with time left, and no runnable
  task has more. If none can run, task 0 is resumed whatever its state is.
\<close>

theorem schedule_correct:
  assumes "sched_inv k" "preempt_count (tcb k (current k)) = 0"
  shows "\<exists>k'. schedule k = Inr k' \<and> sched_inv k' \<and> preempt_count (tcb k' (current k')) = 0 \<and> same_tasks k k' \<and>
    (if \<exists>p. runnable k p
     then runnable k (current k') \<and> 0 < counter (tcb k' (current k')) \<and>
       (\<forall>p. runnable k p \<longrightarrow> counter (tcb k' p) \<le> counter (tcb k' (current k')))
     else current k' = task k 0)"
  using schedule_step [OF assms] by metis

text \<open>The kernel as the loader leaves it: task 0 is \<open>init_task\<close>, at the address \<open>a\<close>.\<close>

definition kernel_start :: "u64 \<Rightarrow> uart_state \<Rightarrow> timer_state \<Rightarrow> memory \<Rightarrow> kernel" where
  "kernel_start a u t m = \<lparr>uart = u, ktimer = t, mem = m, current = a, task = (\<lambda>i. if i = 0 then a else 0), nr_tasks = 1,
     tcb = (\<lambda>_. INIT_TASK), ptregs = (\<lambda>_. zero_regs), cpu = zero_context, ret_from_fork = 0x80800,
     wlinks = (\<lambda>n. if n = Wait_Head then \<lparr>nxt = Wait_Head, prv = Wait_Head\<rparr> else \<lparr>nxt = Null_Wait, prv = Null_Wait\<rparr>),
     wprivate = (\<lambda>_. 0), console = [], kernel_shell_status = 0, pm_wdog = 0, pm_rstc = 0\<rparr>"

lemma kernel_start_live:
  assumes "a \<noteq> 0"
  shows "live (kernel_start a u t m) = {0}" "live_tasks (kernel_start a u t m) = {a}"
  using assms by (auto simp: live_def live_tasks_def kernel_start_def)

lemma kernel_start_inv:
  assumes "a \<noteq> 0"
  shows "sched_inv (kernel_start a u t m)" "preempt_count (tcb (kernel_start a u t m) (current (kernel_start a u t m))) = 0"
    "runnable (kernel_start a u t m) a"
  using kernel_start_live [OF assms]
  by (simp_all add: sched_inv_def pool_ok_def runnable_def) (simp_all add: kernel_start_def INIT_TASK_def assms)

definition sample_kernel :: kernel where
  "sample_kernel = kernel_start 0x80000 (uart_reset [] []) timer_start (\<lambda>_. NUL)"

theorem schedule_correct_witness:
  "\<exists>k'. schedule sample_kernel = Inr k' \<and> current k' = 0x80000 \<and> 0 < counter (tcb k' (current k'))"
proof -
  have s: "sched_inv sample_kernel" "preempt_count (tcb sample_kernel (current sample_kernel)) = 0" "runnable sample_kernel 0x80000"
    "live_tasks sample_kernel = {0x80000}"
    unfolding sample_kernel_def by (rule kernel_start_inv kernel_start_live, simp)+
  then have r: "runnable sample_kernel p \<longleftrightarrow> p = 0x80000" for p by (auto simp: runnable_def)
  from schedule_correct [OF s(1,2)] show ?thesis by (auto simp: r)
qed

text \<open>
  A context switch loses nothing: whatever other tasks do in between, a task that was
  switched out and whose saved context is as it was left gets back the registers it had, with
  stack pointer and return address.
\<close>

theorem switch_round_trip:
  assumes "switch_to b k = Inr k1" "current k \<noteq> b"
    and "current k2 \<noteq> current k" "cpu_ctx (tcb k2 (current k)) = cpu_ctx (tcb k1 (current k))" "switch_to (current k) k2 = Inr k3"
  shows "cpu k3 = cpu k \<and> current k3 = current k"
  using assms by (auto simp: switch_to_def cpu_switch_to_def Let_def split: if_splits)

definition two_tasks :: kernel where
  "two_tasks = sample_kernel\<lparr>task := (\<lambda>i. if i = 0 then 0x80000 else if i = 1 then 0x200000 else 0),
     nr_tasks := 2, tcb := (\<lambda>p. if p = 0x200000 then INIT_TASK\<lparr>pid := 1, preempt_count := 1\<rparr> else INIT_TASK),
     cpu := zero_context\<lparr>ctx_sp := 0x1000, ctx_pc := 0x80400\<rparr>\<rparr>"

theorem switch_round_trip_witness:
  "\<exists>k1 k3. switch_to 0x200000 two_tasks = Inr k1 \<and> switch_to 0x80000 k1 = Inr k3 \<and>
    ctx_pc (cpu k1) = 0 \<and> ctx_pc (cpu k3) = 0x80400"
proof -
  let ?k = "two_tasks"
  have c: "current ?k = 0x80000" "ctx_pc (cpu ?k) = 0x80400" by (simp_all add: two_tasks_def sample_kernel_def kernel_start_def)
  obtain k1 where k1: "switch_to 0x200000 ?k = Inr k1" "current k1 = 0x200000" "ctx_pc (cpu k1) = 0"
    using c by (simp add: switch_to_def cpu_switch_to_def Let_def) (simp add: two_tasks_def INIT_TASK_def zero_context_def)
  obtain k3 where k3: "switch_to 0x80000 k1 = Inr k3" using k1(2) by (simp add: switch_to_def)
  have "cpu k3 = cpu ?k" using switch_round_trip [of "0x200000" ?k k1 k1 k3] k1 k3 c by simp
  then show ?thesis using k1 k3 c by auto
qed

section \<open>Fairness\<close>

definition pending :: "kernel \<Rightarrow> u64 set" where
  "pending k = {q. runnable k q \<and> q \<noteq> current k \<and> 0 < counter (tcb k q)}"

fun schedules :: "nat \<Rightarrow> kernel \<Rightarrow> kernel result" where
  "schedules 0 k = Inr k"
| "schedules (Suc n) k = bind_result (schedule k) (schedules n)"

definition ready :: "kernel \<Rightarrow> bool" where
  "ready k \<longleftrightarrow> sched_inv k \<and> preempt_count (tcb k (current k)) = 0"

lemma card_runnable: "finite (Collect (runnable k))" "card (Collect (runnable k)) \<le> 64"
proof -
  have "Collect (runnable k) \<subseteq> task k ` {0..<NR_TASKS}" by (auto simp: runnable_def live_tasks_image)
  moreover have "card (task k ` {0..<NR_TASKS}) \<le> 64" using card_image_le [of "{0..<NR_TASKS}" "task k"] by simp
  ultimately show "finite (Collect (runnable k))" "card (Collect (runnable k)) \<le> 64"
    by (auto dest: finite_subset card_mono [rotated] intro: order_trans)
qed

lemma finite_pending: "finite (pending k)"
  by (rule finite_subset [OF _ card_runnable(1) [of k]]) (auto simp: pending_def)

text \<open>Every call takes a task out of the pending ones, or refills them all when there are none.\<close>

lemma schedule_round:
  assumes r: "ready k" and p: "runnable k p"
  obtains k' where "schedule k = Inr k'" "ready k'" "same_tasks k k'" "runnable k (current k')"
    "pending k \<noteq> {} \<Longrightarrow> current k' \<in> pending k \<and> pending k' = pending k - {current k'}"
    "pending k = {} \<Longrightarrow> pending k' = Collect (runnable k) - {current k'}"
proof -
  have "sched_inv k" "preempt_count (tcb k (current k)) = 0" using r by (simp_all add: ready_def)
  then obtain k' where k0: "schedule k = Inr k'" "do_schedule (upd_task (current k) (\<lambda>t. t\<lparr>counter := 0\<rparr>) k) = Inr k'"
    "sched_inv k'" "choosing k'" "same_tasks k k'" "preempt_count (tcb k' (current k')) = 0"
    "cpu k' = (if current k' = current k then cpu k else cpu_ctx (tcb k (current k')))"
    "\<forall>p. cpu_ctx (tcb k' p) = (if p = current k \<and> current k' \<noteq> current k then cpu k else cpu_ctx (tcb k p))"
    "if \<exists>p. runnable k p
     then runnable k (current k') \<and> 0 < counter (tcb k' (current k')) \<and>
       (\<forall>p. runnable k p \<longrightarrow> counter (tcb k' p) \<le> counter (tcb k' (current k')))
     else current k' = task k 0"
    "(\<forall>p. counter (tcb k' p) = (if p = current k then 0 else counter (tcb k p))) \<or>
     (\<forall>p\<in>live_tasks k. counter (tcb k' p) = (if p = current k then 0 else counter (tcb k p)) div 2 + priority (tcb k p)) \<and>
       (\<forall>p. runnable k p \<longrightarrow> (if p = current k then 0 else counter (tcb k p)) = 0)"
    by (rule schedule_step)
  have "runnable k (current k')" "0 < counter (tcb k' (current k'))" using k0(9) p by (metis (full_types))+
  note k' = k0(1,3,5,6) this k0(10)
  note run = same_tasks_runnable [OF k'(3)]
  have none: "pending k = {}" if "\<forall>q. runnable k q \<longrightarrow> (if q = current k then 0 else counter (tcb k q)) = 0"
    using that by (auto simp: pending_def)
  have a: "current k' \<in> pending k \<and> pending k' = pending k - {current k'}" if "pending k \<noteq> {}"
  proof -
    have c: "\<forall>q. counter (tcb k' q) = (if q = current k then 0 else counter (tcb k q))" using k'(7) none that by blast
    have "current k' \<noteq> current k" "0 < counter (tcb k (current k'))" using c k'(6) by (metis less_irrefl)+
    then have "current k' \<in> pending k" using k'(5) by (simp add: pending_def)
    moreover have "q \<in> pending k' \<longleftrightarrow> q \<in> pending k - {current k'}" for q
      using c [rule_format, of q] by (auto simp: pending_def run)
    ultimately show ?thesis by blast
  qed
  have b: "pending k' = Collect (runnable k) - {current k'}" if e: "pending k = {}"
  proof -
    have z: "(if q = current k then 0 else counter (tcb k q)) \<le> 0" if "runnable k q" for q
      using e that by (auto simp: pending_def)
    have "counter (tcb k' (current k')) \<noteq> (if current k' = current k then 0 else counter (tcb k (current k')))"
      using z [OF k'(5)] k'(6) by linarith
    then have "\<not> (\<forall>q. counter (tcb k' q) = (if q = current k then 0 else counter (tcb k q)))" by blast
    then have "\<forall>q\<in>live_tasks k. counter (tcb k' q) = (if q = current k then 0 else counter (tcb k q)) div 2 + priority (tcb k q)"
      "\<forall>q. runnable k q \<longrightarrow> (if q = current k then 0 else counter (tcb k q)) = 0" using k'(7) by blast+
    moreover have "1 \<le> priority (tcb k q)" if "q \<in> live_tasks k" for q
      using r that by (auto simp: ready_def sched_inv_def pool_ok_def live_tasks_def)
    ultimately have "0 < counter (tcb k' q)" if "runnable k q" for q using that by (fastforce simp: runnable_def)
    then show ?thesis by (auto simp: pending_def run)
  qed
  have "ready k'" using k'(2,4) by (simp add: ready_def)
  from that [OF k'(1) this k'(3,5) a b] show thesis .
qed

lemma pending_runs:
  "ready k \<Longrightarrow> p \<in> pending k \<Longrightarrow> \<exists>n\<le>card (pending k). \<exists>k'. schedules n k = Inr k' \<and> current k' = p"
proof (induction "card (pending k)" arbitrary: k)
  case 0
  then show ?case using finite_pending [of k] by simp
next
  case (Suc m)
  have p: "runnable k p" using Suc.prems(2) by (simp add: pending_def)
  obtain k1 where k1: "schedule k = Inr k1" "ready k1" "current k1 \<in> pending k" "pending k1 = pending k - {current k1}"
    using schedule_round [OF Suc.prems(1) p] Suc.prems(2) by (metis empty_iff)
  show ?case
  proof (cases "current k1 = p")
    case True
    then have "schedules 1 k = Inr k1" using k1(1) by simp
    moreover have "1 \<le> card (pending k)" using Suc.hyps(2) by simp
    ultimately show ?thesis using True by blast
  next
    case False
    then have "p \<in> pending k1" "card (pending k1) = m" using k1(3,4) Suc.prems(2) Suc.hyps(2) finite_pending [of k] by auto
    with Suc.hyps(1) [of k1] k1(2) obtain n k' where "n \<le> m" "schedules n k1 = Inr k'" "current k' = p" by auto
    with k1(1) Suc.hyps(2) show ?thesis by (intro exI [of _ "Suc n"]) auto
  qed
qed

lemma waiting_runs:
  "ready k \<Longrightarrow> runnable k p \<Longrightarrow> p \<notin> pending k \<Longrightarrow> \<exists>n\<le>card (pending k) + 65. \<exists>k'. schedules n k = Inr k' \<and> current k' = p"
proof (induction "card (pending k)" arbitrary: k rule: less_induct)
  case less
  obtain k1 where k1: "schedule k = Inr k1" "ready k1" "same_tasks k k1" "runnable k (current k1)"
    "pending k \<noteq> {} \<Longrightarrow> current k1 \<in> pending k \<and> pending k1 = pending k - {current k1}"
    "pending k = {} \<Longrightarrow> pending k1 = Collect (runnable k) - {current k1}"
    using schedule_round [OF less.prems(1,2)] by metis
  show ?case
  proof (cases "pending k = {}")
    case False
    then have "card (pending k1) < card (pending k)" "p \<notin> pending k1"
      using k1(5) finite_pending [of k] less.prems(3) by (auto simp: card_gt_0_iff intro: diff_Suc_less)
    with less.hyps [of k1] k1(2) less.prems(2) same_tasks_runnable [OF k1(3)] obtain n k' where
      "n \<le> card (pending k1) + 65" "schedules n k1 = Inr k'" "current k' = p" by auto
    with k1(1) \<open>card (pending k1) < card (pending k)\<close> show ?thesis by (intro exI [of _ "Suc n"]) auto
  next
    case True
    show ?thesis
    proof (cases "current k1 = p")
      case True
      then show ?thesis using k1(1) by (intro exI [of _ 1]) auto
    next
      case False
      have P: "pending k1 = Collect (runnable k) - {current k1}" using k1(6) True by simp
      then have "p \<in> pending k1" using False less.prems(2) by simp
      moreover have "card (pending k1) \<le> 64" using card_mono [OF card_runnable(1) [of k], of "pending k1"] card_runnable(2) [of k] P by auto
      ultimately obtain n k' where "n \<le> 64" "schedules n k1 = Inr k'" "current k' = p"
        using pending_runs [OF k1(2)] by (meson order_trans)
      with k1(1) show ?thesis by (intro exI [of _ "Suc n"]) auto
    qed
  qed
qed

text \<open>
  C29. No runnable task starves: from every well-formed state, if the running task keeps calling
  \<open>schedule\<close>, any task that can run is running after at most 129 calls.
\<close>

theorem schedule_fair:
  assumes "sched_inv k" "preempt_count (tcb k (current k)) = 0" "runnable k p"
  shows "\<exists>n\<le>129. \<exists>k'. schedules n k = Inr k' \<and> current k' = p"
proof -
  have r: "ready k" using assms by (simp add: ready_def)
  have "pending k \<subseteq> Collect (runnable k)" by (auto simp: pending_def)
  then have c: "card (pending k) \<le> 64" using card_mono [OF card_runnable(1) [of k]] card_runnable(2) [of k] by (meson order_trans)
  show ?thesis
  proof (cases "p \<in> pending k")
    case True
    then obtain n k' where "n \<le> card (pending k)" "schedules n k = Inr k'" "current k' = p" using pending_runs [OF r] by blast
    with c show ?thesis by (intro exI [of _ n]) auto
  next
    case False
    then obtain n k' where "n \<le> card (pending k) + 65" "schedules n k = Inr k'" "current k' = p"
      using waiting_runs [OF r assms(3)] by blast
    with c show ?thesis by (intro exI [of _ n]) auto
  qed
qed

lemma two_tasks_live: "live two_tasks = {0, 1}" "live_tasks two_tasks = {0x80000, 0x200000}"
  by (auto simp: live_def live_tasks_def two_tasks_def)

lemma two_tasks_inv:
  "sched_inv two_tasks" "preempt_count (tcb two_tasks (current two_tasks)) = 0"
  "runnable two_tasks 0x200000"
  by (simp_all add: sched_inv_def pool_ok_def runnable_def two_tasks_live)
    (simp_all add: two_tasks_def sample_kernel_def kernel_start_def INIT_TASK_def)

theorem schedule_fair_witness: "\<exists>n\<le>129. \<exists>k'. schedules n two_tasks = Inr k' \<and> current k' = 0x200000"
  by (rule schedule_fair [OF two_tasks_inv])

end
