(* ===== verification/Wait.thy ===== *)
theory Wait
  imports Sched
begin

text \<open>
  Wait queues, \<open>src/wait.c\<close> and \<open>include/wait.h\<close>, and the handler of \<open>src/uart.c\<close> that wakes the
  tasks waiting for the serial line. \<open>wait\<close> ends, for the machine, in the task that runs next;
  the value it returns to the waiting task when that is resumed is its pid.
\<close>

definition add_wait_queue_entry_tail :: "wait_node \<Rightarrow> wait_node \<Rightarrow> kernel \<Rightarrow> kernel" where
  "add_wait_queue_entry_tail wq_head wq_entry k = k\<lparr>wlinks := list_add_tail wq_entry wq_head (wlinks k)\<rparr>"

definition remove_wait_queue :: "wait_node \<Rightarrow> wait_node \<Rightarrow> kernel \<Rightarrow> kernel" where
  "remove_wait_queue wq_head wq_entry k = k\<lparr>wlinks := list_del wq_entry (wlinks k)\<rparr>"

text \<open>The macro \<open>DECLARE_WAITQUEUE\<close>: the entry on the stack of the task.\<close>

definition DECLARE_WAITQUEUE :: "wait_node \<Rightarrow> u64 \<Rightarrow> kernel \<Rightarrow> kernel" where
  "DECLARE_WAITQUEUE name tsk k =
     k\<lparr>wlinks := (wlinks k)(name := \<lparr>nxt = Null_Wait, prv = Null_Wait\<rparr>), wprivate := (wprivate k)(name := tsk)\<rparr>"

definition wait :: "wait_node \<Rightarrow> kernel \<Rightarrow> kernel result" where
  "wait wq_head k =
     (let k1 = upd_task (current k) (\<lambda>t. t\<lparr>state := TASK_WAITING\<rparr>) k;
          waiting_task = Wait_Entry (current k1);
          k2 = DECLARE_WAITQUEUE waiting_task (current k1) k1;
          k3 = add_wait_queue_entry_tail wq_head waiting_task k2
      in schedule (dumpTasksState (kprintf (''[wait] Tasks state after wait:'' @ [NL]) [] k3)))"

text \<open>
  The loop of \<open>wake_up\<close> takes the entry it stands on off the queue and goes on with the \<open>next\<close>
  pointer that \<open>list_del\<close> leaves in it.
\<close>

fun wake_up_from :: "nat \<Rightarrow> wait_node \<Rightarrow> wait_node \<Rightarrow> kernel \<Rightarrow> kernel result" where
  "wake_up_from 0 wq_head pos k = Inl No_Return"
| "wake_up_from (Suc fuel) wq_head pos k =
     (if pos = wq_head then Inr k
      else if pos = Null_Wait then Inl Null_Deref
      else
        let tk = wprivate k pos;
            k1 = upd_task tk (\<lambda>t. t\<lparr>state := TASK_RUNNING\<rparr>) k;
            k2 = remove_wait_queue wq_head pos k1
        in if tk = 0 then Inl Null_Deref else wake_up_from fuel wq_head (nxt (wlinks k2 pos)) k2)"

definition wake_up :: "wait_node \<Rightarrow> kernel \<Rightarrow> kernel result" where
  "wake_up wq_head k = wake_up_from (Suc WALK_BOUND) wq_head (nxt (wlinks k wq_head)) k"

fun dump_wait_from :: "wait_node list \<Rightarrow> kernel \<Rightarrow> kernel result" where
  "dump_wait_from [] k = Inr k"
| "dump_wait_from (pos # ps) k =
     bind_result (deref (wprivate k pos) k) (\<lambda>tk. dump_wait_from ps (kprintf ''pid = %d -> '' [VInt (pid tk)] k))"

definition dump_wait_queue :: "wait_node \<Rightarrow> kernel \<Rightarrow> kernel result" where
  "dump_wait_queue wq_head k =
     (case list_for_each WALK_BOUND (wlinks k) (nxt (wlinks k wq_head)) wq_head of
        None \<Rightarrow> Inl No_Return
      | Some ps \<Rightarrow>
          bind_result (dump_wait_from ps (kprintf (''===dump wait queue==='' @ [NL]) [] k)) (\<lambda>k1. Inr (kprintf [NL] [] k1)))"

definition uart_read_irq_wakeUp_handler :: "kernel \<Rightarrow> kernel result" where
  "uart_read_irq_wakeUp_handler k =
     bind_result (wake_up Wait_Head k) (\<lambda>k1. Inr (k1\<lparr>uart := disable_uart_read_interrupt (uart k1)\<rparr>))"

text \<open>
  \<open>block_uart_read\<close> up to the point where it returns or the task is switched out; resumed, the
  task starts again at the test of its loop.
\<close>

definition block_uart_read :: "kernel \<Rightarrow> kernel result" where
  "block_uart_read k =
     (case lsr_reads (uart k) of
        [] \<Rightarrow> Inl No_Return
      | v # vs \<Rightarrow>
          let k1 = k\<lparr>uart := (uart k)\<lparr>lsr_reads := vs\<rparr>\<rparr>
          in if uart_read_status v = 1 then Inr k1
             else wait Wait_Head (k1\<lparr>uart := enable_uart_read_interrupt (uart k1)\<rparr>))"

end
