(* ===== verification/Wait_Props.thy ===== *)
theory Wait_Props
  imports Wait Sched_Props
begin

text \<open>Tasks that wait are all woken, in spite of the queue being taken apart while it is walked.\<close>

definition wait_ok :: "kernel \<Rightarrow> u64 list \<Rightarrow> bool" where
  "wait_ok k ws \<longleftrightarrow> dlist (wlinks k) Wait_Head (map Wait_Entry ws) \<and> length ws \<le> WALK_BOUND \<and>
     (\<forall>p\<in>set ws. p \<noteq> 0 \<and> wprivate k (Wait_Entry p) = p)"

text \<open>The fields waking up and printing leave alone.\<close>

definition same_but_tasks :: "kernel \<Rightarrow> kernel \<Rightarrow> bool" where
  "same_but_tasks k k' \<longleftrightarrow> task k' = task k \<and> nr_tasks k' = nr_tasks k \<and> current k' = current k \<and> ktimer k' = ktimer k \<and>
     mem k' = mem k \<and> ptregs k' = ptregs k \<and> cpu k' = cpu k \<and> uart k' = uart k \<and> wprivate k' = wprivate k \<and>
     kernel_shell_status k' = kernel_shell_status k"

lemma same_but_tasks_trans: "same_but_tasks k k1 \<Longrightarrow> same_but_tasks k1 k2 \<Longrightarrow> same_but_tasks k k2"
  by (simp add: same_but_tasks_def)

declare wake_up_from.simps(2) [simp del]

lemma nxt_list_del_self: "prv (h y) \<noteq> y \<Longrightarrow> nxt (list_del y h y) = nxt (h y)"
  by (simp add: list_del_def nxt_del_between)

lemma wake_up_from_eq:
  assumes "wait_ok k ws" "length ws < fuel"
  shows "\<exists>k'. wake_up_from fuel Wait_Head (nxt (wlinks k Wait_Head)) k = Inr k' \<and> dlist (wlinks k') Wait_Head [] \<and>
    (\<forall>p. tcb k' p = (if p \<in> set ws then (tcb k p)\<lparr>state := TASK_RUNNING\<rparr> else tcb k p)) \<and> same_but_tasks k k' \<and>
    console k' = console k"
  using assms
proof (induction ws arbitrary: k fuel)
  case Nil
  then obtain f where "fuel = Suc f" by (cases fuel) auto
  moreover have "nxt (wlinks k Wait_Head) = Wait_Head" using Nil by (simp add: wait_ok_def dlist_def)
  ultimately show ?case using Nil by (auto simp: wake_up_from.simps(2) wait_ok_def same_but_tasks_def)
next
  case (Cons w ws)
  obtain f where f: "fuel = Suc f" "length ws < f" using Cons.prems(2) by (cases fuel) auto
  have d: "dlist (wlinks k) Wait_Head (Wait_Entry w # map Wait_Entry ws)" and w: "w \<noteq> 0" "wprivate k (Wait_Entry w) = w"
    using Cons.prems(1) by (auto simp: wait_ok_def)
  then have n: "nxt (wlinks k Wait_Head) = Wait_Entry w" by (simp add: dlist_def)
  define k1 where "k1 = remove_wait_queue Wait_Head (Wait_Entry w) (upd_task w (\<lambda>t. t\<lparr>state := TASK_RUNNING\<rparr>) k)"
  have l1: "wlinks k1 = list_del (Wait_Entry w) (wlinks k)" by (simp add: k1_def remove_wait_queue_def)
  have d1: "dlist (wlinks k1) Wait_Head (map Wait_Entry ws)" using dlist_del [of "wlinks k" Wait_Head "[]"] d by (simp add: l1)
  have "prv (wlinks k (Wait_Entry w)) = Wait_Head" "nxt (wlinks k (Wait_Entry w)) = hd (map Wait_Entry ws @ [Wait_Head])"
    using dlist_neighbours [of "wlinks k" Wait_Head "[]" "Wait_Entry w" "map Wait_Entry ws"] d by simp_all
  then have "nxt (wlinks k1 (Wait_Entry w)) = nxt (wlinks k1 Wait_Head)"
    using dlist_first [OF d1] nxt_list_del_self [of "wlinks k" "Wait_Entry w"] by (simp add: l1)
  then have step: "wake_up_from fuel Wait_Head (nxt (wlinks k Wait_Head)) k = wake_up_from f Wait_Head (nxt (wlinks k1 Wait_Head)) k1"
    using n w by (simp add: f(1) wake_up_from.simps(2) Let_def flip: k1_def)
  have "wait_ok k1 ws" using d1 Cons.prems(1) by (simp add: wait_ok_def k1_def remove_wait_queue_def)
  from Cons.IH [OF this f(2)] obtain k' where k': "wake_up_from f Wait_Head (nxt (wlinks k1 Wait_Head)) k1 = Inr k'"
    "dlist (wlinks k') Wait_Head []" "\<forall>p. tcb k' p = (if p \<in> set ws then (tcb k1 p)\<lparr>state := TASK_RUNNING\<rparr> else tcb k1 p)"
    "same_but_tasks k1 k'" "console k' = console k1" by blast
  have t: "tcb k' p = (if p \<in> set (w # ws) then (tcb k p)\<lparr>state := TASK_RUNNING\<rparr> else tcb k p)" for p
    using k'(3) [rule_format, of p] by (auto simp: k1_def remove_wait_queue_def)
  have s: "same_but_tasks k k1" "console k1 = console k" by (simp_all add: k1_def remove_wait_queue_def same_but_tasks_def)
  show ?case
    using step k'(1,2,5) t s(2) same_but_tasks_trans [OF s(1) k'(4)] by (intro exI [of _ k']) simp
qed

text \<open>
  C31. \<open>wake_up\<close> returns, makes every waiting task runnable, leaves all other tasks alone, and
  the queue is empty.
\<close>

theorem wake_up_correct:
  assumes "wait_ok k ws"
  shows "\<exists>k'. wake_up Wait_Head k = Inr k' \<and> list_empty Wait_Head (wlinks k') \<and> wait_ok k' [] \<and>
    (\<forall>p. tcb k' p = (if p \<in> set ws then (tcb k p)\<lparr>state := TASK_RUNNING\<rparr> else tcb k p)) \<and> same_but_tasks k k'"
proof -
  have "length ws < Suc WALK_BOUND" using assms by (simp add: wait_ok_def)
  from wake_up_from_eq [OF assms this] obtain k' where "wake_up Wait_Head k = Inr k'" "dlist (wlinks k') Wait_Head []"
    "\<forall>p. tcb k' p = (if p \<in> set ws then (tcb k p)\<lparr>state := TASK_RUNNING\<rparr> else tcb k p)" "same_but_tasks k k'"
    unfolding wake_up_def by blast
  then show ?thesis by (auto simp: wait_ok_def dlist_list_empty)
qed

text \<open>Two waiting tasks.\<close>

definition two_waiting :: kernel where
  "two_waiting = two_tasks\<lparr>wlinks := list_add_tail (Wait_Entry 0x300000) Wait_Head (list_add_tail (Wait_Entry 0x200000) Wait_Head (wlinks two_tasks)),
     wprivate := (\<lambda>n. case n of Wait_Entry p \<Rightarrow> p | _ \<Rightarrow> 0)\<rparr>"

lemma two_tasks_queue: "dlist (wlinks two_tasks) Wait_Head []"
  by (simp add: two_tasks_def sample_kernel_def kernel_start_def dlist_def)

lemma two_waiting_ok: "wait_ok two_waiting [0x200000, 0x300000]"
proof -
  have "dlist (list_add_tail (Wait_Entry 0x200000) Wait_Head (wlinks two_tasks)) Wait_Head [Wait_Entry 0x200000]"
    using dlist_add_tail [OF two_tasks_queue] by simp
  from dlist_add_tail [OF this, of "Wait_Entry 0x300000"] show ?thesis
    by (simp add: wait_ok_def two_waiting_def WALK_BOUND_def)
qed

theorem wake_up_correct_witness:
  "\<exists>k'. wake_up Wait_Head two_waiting = Inr k' \<and> list_empty Wait_Head (wlinks k') \<and> state (tcb k' 0x300000) = TASK_RUNNING"
  using wake_up_correct [OF two_waiting_ok] by fastforce

section \<open>Waiting\<close>

lemma dumpTasksState_fields:
  "tcb (dumpTasksState k) = tcb k \<and> same_but_tasks k (dumpTasksState k) \<and> wlinks (dumpTasksState k) = wlinks k \<and>
    ret_from_fork (dumpTasksState k) = ret_from_fork k"
proof -
  have "tcb (fold dump_task is k) = tcb k \<and> same_but_tasks k (fold dump_task is k) \<and> wlinks (fold dump_task is k) = wlinks k \<and>
      ret_from_fork (fold dump_task is k) = ret_from_fork k" for "is" k
  proof (induction "is" arbitrary: k)
    case (Cons i "is")
    have "tcb (dump_task i k) = tcb k" "same_but_tasks k (dump_task i k)" "wlinks (dump_task i k) = wlinks k"
      "ret_from_fork (dump_task i k) = ret_from_fork k"
      by (simp_all add: dump_task_def same_but_tasks_def)
    with Cons.IH [of "dump_task i k"] show ?case by (auto intro: same_but_tasks_trans)
  qed (simp add: same_but_tasks_def)
  from this [of "[0..NR_TASKS - 1]" "kprintf (''=========Tasks state========='' @ [NL]) [] k"] show ?thesis
    unfolding dumpTasksState_def by (simp add: same_but_tasks_def)
qed

lemma sched_inv_cong:
  assumes "task k' = task k" "nr_tasks k' = nr_tasks k" "current k' = current k"
    "\<And>p. p \<in> live_tasks k \<Longrightarrow> pid (tcb k' p) = pid (tcb k p) \<and> priority (tcb k' p) = priority (tcb k p) \<and>
      counter (tcb k' p) = counter (tcb k p) \<and> (p \<noteq> current k \<longrightarrow> preempt_count (tcb k' p) = preempt_count (tcb k p))"
  shows "sched_inv k' = sched_inv k"
proof -
  have l: "live k' = live k" "live_tasks k' = live_tasks k" using assms(1) by (auto simp: live_def live_tasks_def)
  have "pool_ok k' = pool_ok k" using assms(1,2,4) by (auto simp: pool_ok_def l live_tasks_def)
  then show ?thesis using assms(3,4) by (auto simp: sched_inv_def l)
qed

lemma wake_up_step:
  assumes "wait_ok k ws" "sched_inv k"
  obtains k' where "wake_up Wait_Head k = Inr k'" "sched_inv k'" "wait_ok k' []"
    "\<forall>p. tcb k' p = (if p \<in> set ws then (tcb k p)\<lparr>state := TASK_RUNNING\<rparr> else tcb k p)" "same_but_tasks k k'"
proof -
  have "length ws < Suc WALK_BOUND" using assms(1) by (simp add: wait_ok_def)
  from wake_up_from_eq [OF assms(1) this] obtain k' where k': "wake_up Wait_Head k = Inr k'" "dlist (wlinks k') Wait_Head []"
    "\<forall>p. tcb k' p = (if p \<in> set ws then (tcb k p)\<lparr>state := TASK_RUNNING\<rparr> else tcb k p)" "same_but_tasks k k'"
    unfolding wake_up_def by blast
  have "sched_inv k' = sched_inv k" using k'(3,4) by (intro sched_inv_cong) (simp_all add: same_but_tasks_def)
  then show thesis using that k' assms(2) by (simp add: wait_ok_def)
qed

lemma wait_queued:
  assumes w: "wait_ok k ws" "length ws < WALK_BOUND" and c: "c \<notin> set ws" "c \<noteq> 0"
  shows "wait_ok (add_wait_queue_entry_tail Wait_Head (Wait_Entry c) (DECLARE_WAITQUEUE (Wait_Entry c) c k)) (ws @ [c])"
proof -
  let ?h = "(wlinks k)(Wait_Entry c := \<lparr>nxt = Null_Wait, prv = Null_Wait\<rparr>)"
  have "dlist (wlinks k) Wait_Head (map Wait_Entry ws)" using w by (simp add: wait_ok_def)
  then have "dlist ?h Wait_Head (map Wait_Entry ws)" by (rule dlist_frame) (use c in auto)
  then have "dlist (list_add_tail (Wait_Entry c) Wait_Head ?h) Wait_Head (map Wait_Entry ws @ [Wait_Entry c])"
    using c by (intro dlist_add_tail) auto
  then show ?thesis using w c by (auto simp: wait_ok_def add_wait_queue_entry_tail_def DECLARE_WAITQUEUE_def)
qed

lemma wait_step:
  assumes inv: "sched_inv k" "preempt_count (tcb k (current k)) = 0"
    and w: "wait_ok k ws" "length ws < WALK_BOUND" "current k \<notin> set ws"
    and other: "\<exists>p. runnable k p \<and> p \<noteq> current k"
  obtains k' where "wait Wait_Head k = Inr k'" "sched_inv k'" "preempt_count (tcb k' (current k')) = 0"
    "wait_ok k' (ws @ [current k])" "runnable k (current k')" "current k' \<noteq> current k"
    "task k' = task k" "ktimer k' = ktimer k" "kernel_shell_status k' = kernel_shell_status k"
    "\<forall>p. state (tcb k' p) = (if p = current k then TASK_WAITING else state (tcb k p)) \<and> stack (tcb k' p) = stack (tcb k p)"
proof -
  let ?c = "current k"
  have c: "?c \<in> live_tasks k" "?c \<noteq> 0" using inv(1) live_tasks_nonzero by (auto simp: sched_inv_def)
  define k3 where "k3 = add_wait_queue_entry_tail Wait_Head (Wait_Entry ?c) (DECLARE_WAITQUEUE (Wait_Entry ?c) ?c
      (upd_task ?c (\<lambda>t. t\<lparr>state := TASK_WAITING\<rparr>) k))"
  define k4 where "k4 = dumpTasksState (kprintf (''[wait] Tasks state after wait:'' @ [NL]) [] k3)"
  have "wait_ok (upd_task ?c (\<lambda>t. t\<lparr>state := TASK_WAITING\<rparr>) k) ws" using w(1) by (simp add: wait_ok_def)
  then have w3: "wait_ok k3 (ws @ [?c])" unfolding k3_def using w(2,3) c(2) by (intro wait_queued)
  have f3: "task k3 = task k" "nr_tasks k3 = nr_tasks k" "current k3 = ?c" "ktimer k3 = ktimer k"
    "kernel_shell_status k3 = kernel_shell_status k" "tcb k3 = (tcb k)(?c := (tcb k ?c)\<lparr>state := TASK_WAITING\<rparr>)"
    by (simp_all add: k3_def add_wait_queue_entry_tail_def DECLARE_WAITQUEUE_def)
  have f4: "task k4 = task k" "nr_tasks k4 = nr_tasks k" "current k4 = ?c" "tcb k4 = tcb k3" "wlinks k4 = wlinks k3" "wprivate k4 = wprivate k3"
    "ktimer k4 = ktimer k" "kernel_shell_status k4 = kernel_shell_status k"
    using dumpTasksState_fields [of "kprintf (''[wait] Tasks state after wait:'' @ [NL]) [] k3"] f3
    by (simp_all add: k4_def same_but_tasks_def)
  have inv4: "sched_inv k4" "preempt_count (tcb k4 (current k4)) = 0"
    using sched_inv_cong [of k4 k] inv f4 f3 by simp_all
  have run4: "runnable k4 p \<longleftrightarrow> runnable k p \<and> p \<noteq> ?c" for p
    using live_cong(2) [OF f4(1)] by (auto simp: runnable_def f4 f3)
  have "wait Wait_Head k = schedule k4" using f3 by (simp add: wait_def Let_def k3_def k4_def)
  moreover obtain k' where k': "schedule k4 = Inr k'" "sched_inv k'" "same_tasks k4 k'" "runnable k4 (current k')"
    "preempt_count (tcb k' (current k')) = 0"
    using schedule_step [OF inv4] run4 other by (metis (no_types, lifting))
  moreover have "wait_ok k' (ws @ [?c])" using w3 k'(3) f4 by (simp add: wait_ok_def same_tasks_def)
  moreover have "\<forall>p. state (tcb k' p) = (if p = ?c then TASK_WAITING else state (tcb k p)) \<and> stack (tcb k' p) = stack (tcb k p)"
    using k'(3) f4 f3 by (simp add: same_tasks_def)
  ultimately show thesis using that [of k'] run4 f4 by (simp add: same_tasks_def)
qed

text \<open>
  C32. A task that waits loses the processor to a task that can run, stands at the end of the
  queue in the state waiting, and the next \<open>wake_up\<close> makes it runnable again.
\<close>

theorem wait_correct:
  assumes inv: "sched_inv k" "preempt_count (tcb k (current k)) = 0"
    and w: "wait_ok k ws" "length ws < WALK_BOUND" "current k \<notin> set ws"
    and other: "\<exists>p. runnable k p \<and> p \<noteq> current k"
  shows "\<exists>k'. wait Wait_Head k = Inr k' \<and> sched_inv k' \<and> wait_ok k' (ws @ [current k]) \<and>
    state (tcb k' (current k)) = TASK_WAITING \<and> runnable k (current k') \<and> current k' \<noteq> current k \<and>
    (\<exists>k''. wake_up Wait_Head k' = Inr k'' \<and> sched_inv k'' \<and> runnable k'' (current k))"
proof -
  let ?c = "current k"
  obtain k' where k': "wait Wait_Head k = Inr k'" "sched_inv k'" "wait_ok k' (ws @ [?c])" "runnable k (current k')" "current k' \<noteq> ?c"
    "task k' = task k" "state (tcb k' ?c) = TASK_WAITING"
    by (rule wait_step [OF assms]) simp
  obtain k'' where k'': "wake_up Wait_Head k' = Inr k''" "sched_inv k''"
    "\<forall>p. tcb k'' p = (if p \<in> set (ws @ [?c]) then (tcb k' p)\<lparr>state := TASK_RUNNING\<rparr> else tcb k' p)" "same_but_tasks k' k''"
    using wake_up_step [OF k'(3,2)] by metis
  have "task k'' = task k" using k''(4) k'(6) by (simp add: same_but_tasks_def)
  then have "runnable k'' ?c"
    using k''(3) inv(1) live_cong(2) [of k'' k] by (simp add: runnable_def sched_inv_def)
  with k' k'' show ?thesis by blast
qed

theorem wait_correct_witness:
  "\<exists>k'. wait Wait_Head two_tasks = Inr k' \<and> current k' = 0x200000 \<and> state (tcb k' 0x80000) = TASK_WAITING \<and>
     (\<exists>k''. wake_up Wait_Head k' = Inr k'' \<and> runnable k'' 0x80000)"
proof -
  have c: "current two_tasks = 0x80000" by (simp add: two_tasks_def sample_kernel_def kernel_start_def)
  have w: "wait_ok two_tasks []" "length ([] :: u64 list) < WALK_BOUND" "current two_tasks \<notin> set []"
    using two_tasks_queue by (simp_all add: wait_ok_def WALK_BOUND_def)
  have o: "\<exists>p. runnable two_tasks p \<and> p \<noteq> current two_tasks" using two_tasks_inv(3) c by auto
  have "p = 0x200000" if "runnable two_tasks p" "p \<noteq> 0x80000" for p using that by (simp add: runnable_def two_tasks_live)
  with wait_correct [OF two_tasks_inv(1,2) w o] c show ?thesis by fastforce
qed

end
