(* ===== verification/Fork.thy ===== *)
theory Fork
  imports Sched
begin

text \<open>Creating tasks and entering user mode, \<open>src/fork.c\<close>.\<close>

definition task_pt_regs :: "u64 \<Rightarrow> u64" where
  "task_pt_regs tsk = tsk + THREAD_SIZE - SIZEOF_PT_REGS"

fun assignPID_from :: "int list \<Rightarrow> kernel \<Rightarrow> kernel \<times> int" where
  "assignPID_from [] k = (k, -1)"
| "assignPID_from (i # is) k = (if task k i = 0 then (k\<lparr>nr_tasks := nr_tasks k + 1\<rparr>, i) else assignPID_from is k)"

definition assignPID :: "kernel \<Rightarrow> kernel \<times> int" where
  "assignPID k = assignPID_from [0..NR_TASKS - 1] k"

text \<open>The two ways \<open>copy_process\<close> sets up the structure: a kernel thread, or a copy of the caller's frame.\<close>

definition init_child :: "u64 \<Rightarrow> u64 \<Rightarrow> u64 \<Rightarrow> u64 \<Rightarrow> u64 \<Rightarrow> kernel \<Rightarrow> kernel" where
  "init_child p clone_flags fn arg stk k =
     (let childregs = task_pt_regs p;
          k1 = upd_task p (\<lambda>t. t\<lparr>cpu_ctx := zero_context\<rparr>) (upd_regs childregs (\<lambda>_. zero_regs) k)
      in if clone_flags AND PF_KTHREAD \<noteq> 0
         then upd_task p (\<lambda>t. t\<lparr>cpu_ctx := (cpu_ctx t)\<lparr>x19 := fn, x20 := arg\<rparr>, stack := 0\<rparr>) k1
         else
           let cur_regs = ptregs k1 (task_pt_regs (current k1))
           in upd_task p (\<lambda>t. t\<lparr>stack := stk\<rparr>)
                (upd_regs childregs (\<lambda>_. cur_regs\<lparr>regs := (regs cur_regs)[0 := 0], user_sp := stk + 4096\<rparr>) k1))"

definition copy_process :: "u64 \<Rightarrow> u64 \<Rightarrow> u64 \<Rightarrow> u64 \<Rightarrow> kernel \<Rightarrow> (kernel \<times> int) result" where
  "copy_process clone_flags fn arg stk k =
     bind_result (k_malloc PAGE_SIZE (preempt_disable k)) (\<lambda>(k1, p).
       if p = 0 then Inr (kprintf ''[copy_process] Allocate memory fail'' [] k1, -1)
       else
         let k2 = init_child p clone_flags fn arg stk k1;
             prio = priority (tcb k2 (current k2));
             k3 = upd_task p (\<lambda>t. t\<lparr>flags := clone_flags, priority := prio, state := TASK_RUNNING, counter := prio,
               preempt_count := 1, cpu_ctx := (cpu_ctx t)\<lparr>ctx_pc := ret_from_fork k2, ctx_sp := task_pt_regs p\<rparr>\<rparr>) k2;
             (k4, i) = assignPID k3
         in bind_result (set_task i p k4) (\<lambda>k5.
              Inr (preempt_enable (upd_task p (\<lambda>t. t\<lparr>pid := i\<rparr>) k5), i)))"

definition move_to_user_mode :: "u64 \<Rightarrow> kernel \<Rightarrow> (kernel \<times> int) result" where
  "move_to_user_mode pc k =
     (let r = task_pt_regs (current k);
          k1 = upd_regs r (\<lambda>_. zero_regs\<lparr>user_pc := pc, pstate := 0\<rparr>) k
      in bind_result (k_malloc PAGE_SIZE k1) (\<lambda>(k2, stk).
           if stk = 0 then Inr (kprintf ''[copy_process] Allocate memory fail'' [] k2, -1)
           else Inr (upd_task (current k2) (\<lambda>t. t\<lparr>stack := stk\<rparr>) (upd_regs r (\<lambda>f. f\<lparr>user_sp := stk + 4096\<rparr>) k2), 0)))"

end
