(* ===== verification/Fork_Props.thy ===== *)
theory Fork_Props
  imports Fork Sched_Props
begin

text \<open>A new task enters the pool in the first free slot and is ready to be chosen.\<close>

lemma assignPID_from_eq:
  "assignPID_from is k =
     (case dropWhile (\<lambda>i. task k i \<noteq> 0) is of [] \<Rightarrow> (k, -1) | i # _ \<Rightarrow> (k\<lparr>nr_tasks := nr_tasks k + 1\<rparr>, i))"
  by (induction "is") auto

definition first_free :: "kernel \<Rightarrow> int \<Rightarrow> bool" where
  "first_free k i \<longleftrightarrow> 0 \<le> i \<and> i < NR_TASKS \<and> task k i = 0 \<and> (\<forall>j. 0 \<le> j \<longrightarrow> j < i \<longrightarrow> task k j \<noteq> 0)"

lemma dropWhile_upto_first:
  assumes "a \<le> i" "i \<le> b" "\<not> P i" "\<forall>j. a \<le> j \<longrightarrow> j < i \<longrightarrow> P j"
  shows "\<exists>r. dropWhile P [a..b] = i # r"
proof -
  have "[a..b] = [a..i - 1] @ i # [i + 1..b]" using assms(1,2) by (simp add: upto_split3)
  moreover have "\<forall>j\<in>set [a..i - 1]. P j" using assms(4) by auto
  ultimately show ?thesis using assms(3) by (simp only: dropWhile_append2 dropWhile.simps if_False) blast
qed

lemma dropWhile_upto_all: "(\<And>j. a \<le> j \<Longrightarrow> j \<le> b \<Longrightarrow> P j) \<Longrightarrow> dropWhile P [a..b] = []"
  by (simp add: dropWhile_eq_Nil_conv)

lemma assignPID_free: "first_free k i \<Longrightarrow> assignPID k = (k\<lparr>nr_tasks := nr_tasks k + 1\<rparr>, i)"
proof -
  assume f: "first_free k i"
  then obtain r where "dropWhile (\<lambda>i. task k i \<noteq> 0) [0..NR_TASKS - 1] = i # r"
    using dropWhile_upto_first [of 0 i "NR_TASKS - 1" "\<lambda>i. task k i \<noteq> 0"] by (auto simp: first_free_def)
  then show ?thesis by (simp only: assignPID_def assignPID_from_eq list.case)
qed

lemma assignPID_full:
  assumes "\<forall>i. 0 \<le> i \<longrightarrow> i < NR_TASKS \<longrightarrow> task k i \<noteq> 0"
  shows "assignPID k = (k, -1)"
proof -
  have "dropWhile (\<lambda>i. task k i \<noteq> 0) [0..NR_TASKS - 1] = []"
  proof (rule dropWhile_upto_all)
    fix j :: int
    assume "0 \<le> j" "j \<le> NR_TASKS - 1"
    then show "task k j \<noteq> 0" using assms [rule_format, of j] by linarith
  qed
  then show ?thesis by (simp only: assignPID_def assignPID_from_eq list.case)
qed

lemma first_free_exists:
  assumes "0 \<le> i" "i < NR_TASKS" "task k i = 0"
  obtains j where "first_free k j"
proof -
  define n where "n = (LEAST n. task k (int n) = 0)"
  have i: "task k (int (nat i)) = 0" using assms(1,3) by simp
  have z: "task k (int n) = 0" unfolding n_def by (rule LeastI [of "\<lambda>n. task k (int n) = 0", OF i])
  have "n \<le> nat i" unfolding n_def by (rule Least_le [of "\<lambda>n. task k (int n) = 0", OF i])
  moreover have "task k j \<noteq> 0" if "0 \<le> j" "j < int n" for j
    using not_less_Least [of "nat j" "\<lambda>n. task k (int n) = 0"] that by (fold n_def) simp
  ultimately have "first_free k (int n)" using assms z by (auto simp: first_free_def)
  then show thesis by (rule that)
qed

text \<open>The structure \<open>copy_process\<close> builds at \<open>p\<close>, and the frame of a copy.\<close>

definition new_task :: "u64 \<Rightarrow> u64 \<Rightarrow> u64 \<Rightarrow> u64 \<Rightarrow> u64 \<Rightarrow> int \<Rightarrow> kernel \<Rightarrow> task_struct" where
  "new_task p fl fn arg stk i k =
     \<lparr>cpu_ctx = zero_context\<lparr>x19 := if fl AND PF_KTHREAD \<noteq> 0 then fn else 0, x20 := if fl AND PF_KTHREAD \<noteq> 0 then arg else 0,
        ctx_pc := ret_from_fork k, ctx_sp := task_pt_regs p\<rparr>,
      state = TASK_RUNNING, counter = priority (tcb k (current k)), priority = priority (tcb k (current k)), preempt_count = 1,
      stack = if fl AND PF_KTHREAD \<noteq> 0 then 0 else stk, flags = fl, pid = i\<rparr>"

definition new_frame :: "u64 \<Rightarrow> u64 \<Rightarrow> kernel \<Rightarrow> pt_regs" where
  "new_frame fl stk k =
     (if fl AND PF_KTHREAD \<noteq> 0 then zero_regs
      else (ptregs k (task_pt_regs (current k)))\<lparr>regs := (regs (ptregs k (task_pt_regs (current k))))[0 := 0], user_sp := stk + 4096\<rparr>)"

lemma task_pt_regs_inject: "task_pt_regs p = task_pt_regs q \<longleftrightarrow> p = q"
  by (simp add: task_pt_regs_def)

lemma init_child_fields:
  assumes "p \<noteq> current k"
  shows "tcb (init_child p fl fn arg stk k) = (tcb k)(p := (tcb k p)\<lparr>cpu_ctx :=
        zero_context\<lparr>x19 := if fl AND PF_KTHREAD \<noteq> 0 then fn else 0, x20 := if fl AND PF_KTHREAD \<noteq> 0 then arg else 0\<rparr>,
        stack := if fl AND PF_KTHREAD \<noteq> 0 then 0 else stk\<rparr>)"
    "ptregs (init_child p fl fn arg stk k) = (ptregs k)(task_pt_regs p := new_frame fl stk k)"
  using assms by (auto simp: init_child_def Let_def new_frame_def task_pt_regs_inject zero_context_def fun_eq_iff)

lemma init_child_frame [simp]:
  "current (init_child p fl fn arg stk k) = current k" "task (init_child p fl fn arg stk k) = task k"
  "nr_tasks (init_child p fl fn arg stk k) = nr_tasks k" "cpu (init_child p fl fn arg stk k) = cpu k"
  "ktimer (init_child p fl fn arg stk k) = ktimer k" "mem (init_child p fl fn arg stk k) = mem k"
  "wlinks (init_child p fl fn arg stk k) = wlinks k" "wprivate (init_child p fl fn arg stk k) = wprivate k"
  "uart (init_child p fl fn arg stk k) = uart k" "console (init_child p fl fn arg stk k) = console k"
  "ret_from_fork (init_child p fl fn arg stk k) = ret_from_fork k"
  "kernel_shell_status (init_child p fl fn arg stk k) = kernel_shell_status k"
  "pm_wdog (init_child p fl fn arg stk k) = pm_wdog k" "pm_rstc (init_child p fl fn arg stk k) = pm_rstc k"
  by (simp_all add: init_child_def Let_def)

lemma preempt_simps [simp]:
  "current (preempt_disable k) = current k" "task (preempt_disable k) = task k" "nr_tasks (preempt_disable k) = nr_tasks k"
  "cpu (preempt_disable k) = cpu k" "ktimer (preempt_disable k) = ktimer k" "mem (preempt_disable k) = mem k"
  "wlinks (preempt_disable k) = wlinks k" "wprivate (preempt_disable k) = wprivate k" "ptregs (preempt_disable k) = ptregs k"
  "uart (preempt_disable k) = uart k" "console (preempt_disable k) = console k" "ret_from_fork (preempt_disable k) = ret_from_fork k"
  "kernel_shell_status (preempt_disable k) = kernel_shell_status k" "pm_wdog (preempt_disable k) = pm_wdog k"
  "pm_rstc (preempt_disable k) = pm_rstc k"
  "current (preempt_enable k) = current k" "task (preempt_enable k) = task k" "nr_tasks (preempt_enable k) = nr_tasks k"
  "cpu (preempt_enable k) = cpu k" "ktimer (preempt_enable k) = ktimer k" "mem (preempt_enable k) = mem k"
  "wlinks (preempt_enable k) = wlinks k" "wprivate (preempt_enable k) = wprivate k" "ptregs (preempt_enable k) = ptregs k"
  "uart (preempt_enable k) = uart k" "console (preempt_enable k) = console k" "ret_from_fork (preempt_enable k) = ret_from_fork k"
  "kernel_shell_status (preempt_enable k) = kernel_shell_status k" "pm_wdog (preempt_enable k) = pm_wdog k"
  "pm_rstc (preempt_enable k) = pm_rstc k"
  by (simp_all add: preempt_disable_def preempt_enable_def)

lemma preempt_tcb:
  "tcb (preempt_disable k) = (tcb k)(current k := (tcb k (current k))\<lparr>preempt_count := preempt_count (tcb k (current k)) + 1\<rparr>)"
  "tcb (preempt_enable k) = (tcb k)(current k := (tcb k (current k))\<lparr>preempt_count := preempt_count (tcb k (current k)) - 1\<rparr>)"
  by (simp_all add: preempt_disable_def preempt_enable_def)

lemma copy_process_eq:
  assumes km: "kmalloc PAGE_SIZE (kmm k) = Inr (m, p)" and p: "p \<noteq> 0" "p \<noteq> current k" and i: "first_free k i"
  shows "copy_process fl fn arg stk k = Inr (k\<lparr>ktimer := (ktimer k)\<lparr>tm_mm := m\<rparr>, task := (task k)(i := p), nr_tasks := nr_tasks k + 1,
      tcb := (tcb k)(p := new_task p fl fn arg stk i k), ptregs := (ptregs k)(task_pt_regs p := new_frame fl stk k)\<rparr>, i)"
    (is "_ = Inr (?k, i)")
proof -
  have r: "0 \<le> i" "i < NR_TASKS" using i by (simp_all add: first_free_def)
  define k1 where "k1 = set_mm m (preempt_disable k)"
  define k2 where "k2 = init_child p fl fn arg stk k1"
  define prio where "prio = priority (tcb k (current k))"
  define k3 where "k3 = upd_task p (\<lambda>t. t\<lparr>flags := fl, priority := prio, state := TASK_RUNNING, counter := prio,
      preempt_count := 1, cpu_ctx := (cpu_ctx t)\<lparr>ctx_pc := ret_from_fork k, ctx_sp := task_pt_regs p\<rparr>\<rparr>) k2"
  define k5 where "k5 = preempt_enable (upd_task p (\<lambda>t. t\<lparr>pid := i\<rparr>) (k3\<lparr>nr_tasks := nr_tasks k3 + 1, task := (task k3)(i := p)\<rparr>))"
  have c1: "p \<noteq> current k1" using p(2) by (simp add: k1_def)
  have t2: "tcb k2 (current k2) = tcb k1 (current k1)" "current k2 = current k" using c1 by (simp_all add: k2_def init_child_fields k1_def)
  have "priority (tcb k2 (current k2)) = prio" unfolding t2(1) by (simp add: k1_def prio_def preempt_tcb)
  moreover have "ret_from_fork k2 = ret_from_fork k" by (simp add: k2_def k1_def)
  moreover have "first_free k3 i" using i by (simp add: first_free_def k3_def k2_def k1_def)
  ultimately have "copy_process fl fn arg stk k = Inr (k5, i)"
    using km p(1) r
    by (simp add: copy_process_def k_malloc_def Let_def assignPID_free set_task_def flip: k1_def k2_def k3_def) (simp add: k5_def)
  moreover have "k5 = ?k"
  proof (rule kernel.equality)
    have a: "regs (ptregs k1 q) = regs (ptregs k q)" "ptregs k1 = ptregs k" "ret_from_fork k1 = ret_from_fork k" "current k1 = current k" for q
      by (simp_all add: k1_def)
    have cur3: "current k3 = current k" by (simp add: k3_def k2_def k1_def)
    have "tcb k3 = (tcb k1)(p := (new_task p fl fn arg stk i k)\<lparr>pid := pid (tcb k1 p)\<rparr>)"
      using c1 by (cases "tcb k1 p") (simp add: k3_def k2_def init_child_fields new_task_def prio_def)
    then show "tcb k5 = tcb ?k"
      using p(2) by (simp add: k5_def preempt_tcb cur3) (simp add: k1_def preempt_tcb fun_eq_iff new_task_def)
    show "ptregs k5 = ptregs ?k"
      using c1 by (simp add: k5_def k3_def k2_def init_child_fields new_frame_def a)
  qed (simp_all add: k5_def k3_def k2_def k1_def)
  ultimately show ?thesis by simp
qed

lemma add_task_inv:
  assumes inv: "sched_inv k" and i: "first_free k i" and p: "p \<noteq> 0" "p \<notin> live_tasks k"
    and t: "pid t = i" "1 \<le> priority t" "priority t < 2 ^ 29" "0 \<le> counter t" "counter t \<le> 2 * priority t" "preempt_count t = 1"
    and k': "task k' = (task k)(i := p)" "nr_tasks k' = nr_tasks k + 1" "tcb k' = (tcb k)(p := t)" "current k' = current k"
  shows "sched_inv k'" "live k' = insert i (live k)" "live_tasks k' = insert p (live_tasks k)"
proof -
  have io: "0 \<le> i" "i < NR_TASKS" "task k i = 0" "i \<notin> live k" using i by (auto simp: first_free_def live_def)
  show l: "live k' = insert i (live k)" using io p(1) by (auto simp: live_def k'(1))
  have ne: "\<And>j. j \<in> live k \<Longrightarrow> task k j \<noteq> p" using p(2) by (auto simp: live_tasks_def)
  show lt: "live_tasks k' = insert p (live_tasks k)" using io by (auto simp: live_tasks_def l k'(1))
  have P: "pool_ok k" "current k \<in> live_tasks k" "\<forall>q\<in>live_tasks k - {current k}. 0 \<le> counter (tcb k q) \<and> preempt_count (tcb k q) = 1"
    using inv by (simp_all add: sched_inv_def)
  note fin = live_finite [of k]
  have "inj_on (task k') (live k')"
    using P(1) io ne by (auto simp: l k'(1) inj_on_def pool_ok_def)
  moreover have "task k' 0 \<noteq> 0" using P(1) p(1) by (simp add: k'(1) pool_ok_def)
  moreover have "nr_tasks k' = int (card (live k'))" using P(1) io fin by (simp add: l k'(2) pool_ok_def)
  moreover have "pid (tcb k' (task k' j)) = j \<and> 1 \<le> priority (tcb k' (task k' j)) \<and> priority (tcb k' (task k' j)) < 2 ^ 29 \<and>
        counter (tcb k' (task k' j)) \<le> 2 * priority (tcb k' (task k' j))" if "j \<in> live k'" for j
  proof (cases "j = i")
    case True
    then show ?thesis using t by (simp add: k')
  next
    case False
    then have "j \<in> live k" using that l by simp
    then show ?thesis using P(1) ne False by (simp add: k' pool_ok_def)
  qed
  ultimately have "pool_ok k'" by (simp add: pool_ok_def)
  then show "sched_inv k'" using P(2,3) p(2) t by (auto simp: sched_inv_def lt k')
qed

lemma copy_process_step:
  assumes inv: "sched_inv k" and km: "kmalloc 4096 (kmm k) = Inr (m, p)" "p \<noteq> 0" "p \<notin> live_tasks k"
  shows "(\<exists>i. 0 \<le> i \<and> i < NR_TASKS \<and> task k i = 0) \<Longrightarrow>
      \<exists>k' i. copy_process fl fn arg stk k = Inr (k', i) \<and> first_free k i \<and> sched_inv k' \<and> live_tasks k' = insert p (live_tasks k) \<and>
        task k' i = p \<and> runnable k' p \<and> pid (tcb k' p) = i \<and> ctx_pc (cpu_ctx (tcb k' p)) = ret_from_fork k \<and>
        ptregs k' (task_pt_regs p) = new_frame fl stk k \<and> (\<forall>q. q \<noteq> p \<longrightarrow> tcb k' q = tcb k q) \<and> current k' = current k \<and> kmm k' = m"
    and "\<not> (\<exists>i. 0 \<le> i \<and> i < NR_TASKS \<and> task k i = 0) \<Longrightarrow> copy_process fl fn arg stk k = Inl Out_Of_Bounds"
proof -
  have cur: "p \<noteq> current k" using inv km(3) by (auto simp: sched_inv_def)
  {
    assume "\<exists>i. 0 \<le> i \<and> i < NR_TASKS \<and> task k i = 0"
    then obtain i where i: "first_free k i" using first_free_exists by metis
    have pr: "1 \<le> priority (tcb k (current k)) \<and> priority (tcb k (current k)) < 2 ^ 29"
      using inv by (auto simp: sched_inv_def pool_ok_def live_tasks_def)
    note c = copy_process_eq [OF km(1,2) cur i, of fl fn arg stk]
    let ?k = "k\<lparr>ktimer := (ktimer k)\<lparr>tm_mm := m\<rparr>, task := (task k)(i := p), nr_tasks := nr_tasks k + 1,
      tcb := (tcb k)(p := new_task p fl fn arg stk i k), ptregs := (ptregs k)(task_pt_regs p := new_frame fl stk k)\<rparr>"
    have "sched_inv ?k" "live_tasks ?k = insert p (live_tasks k)"
      using pr by (rule_tac [1-2] add_task_inv [OF inv i km(2,3), of "new_task p fl fn arg stk i k"], simp_all add: new_task_def)
    then have "sched_inv ?k \<and> live_tasks ?k = insert p (live_tasks k) \<and> task ?k i = p \<and> runnable ?k p \<and> pid (tcb ?k p) = i \<and>
        ctx_pc (cpu_ctx (tcb ?k p)) = ret_from_fork k \<and> ptregs ?k (task_pt_regs p) = new_frame fl stk k \<and>
        (\<forall>q. q \<noteq> p \<longrightarrow> tcb ?k q = tcb k q) \<and> current ?k = current k \<and> kmm ?k = m"
      by (simp add: runnable_def new_task_def)
    then show "\<exists>k' i. copy_process fl fn arg stk k = Inr (k', i) \<and> first_free k i \<and> sched_inv k' \<and> live_tasks k' = insert p (live_tasks k) \<and>
        task k' i = p \<and> runnable k' p \<and> pid (tcb k' p) = i \<and> ctx_pc (cpu_ctx (tcb k' p)) = ret_from_fork k \<and>
        ptregs k' (task_pt_regs p) = new_frame fl stk k \<and> (\<forall>q. q \<noteq> p \<longrightarrow> tcb k' q = tcb k q) \<and> current k' = current k \<and> kmm k' = m"
      using c i by blast
  }
  {
    assume "\<not> (\<exists>i. 0 \<le> i \<and> i < NR_TASKS \<and> task k i = 0)"
    then have full: "\<forall>i. 0 \<le> i \<longrightarrow> i < NR_TASKS \<longrightarrow> task k' i \<noteq> 0" if "task k' = task k" for k' using that by auto
    show "copy_process fl fn arg stk k = Inl Out_Of_Bounds"
      using km by (simp add: copy_process_def k_malloc_def Let_def assignPID_full [OF full] set_task_def)
  }
qed

text \<open>
  C30. \<open>copy_process\<close>: given memory for the structure that no task uses and a free slot, it
  returns the first free slot as the pid, the pool stays well-formed with one more task, the
  new task can be chosen and starts at \<open>ret_from_fork\<close> with a register frame of its own, a copy
  of the caller's with \<open>x0\<close> cleared unless it is a kernel thread. With all slots taken it
  writes outside the task array.
\<close>

theorem copy_process_correct:
  assumes "sched_inv k" "kmalloc 4096 (kmm k) = Inr (m, p)" "p \<noteq> 0" "p \<notin> live_tasks k"
  shows "if \<exists>i. 0 \<le> i \<and> i < NR_TASKS \<and> task k i = 0
    then \<exists>k' i. copy_process fl fn arg stk k = Inr (k', i) \<and> first_free k i \<and> sched_inv k' \<and> live_tasks k' = insert p (live_tasks k) \<and>
        task k' i = p \<and> runnable k' p \<and> pid (tcb k' p) = i \<and> ctx_pc (cpu_ctx (tcb k' p)) = ret_from_fork k \<and>
        ptregs k' (task_pt_regs p) = new_frame fl stk k \<and> (\<forall>q. q \<noteq> p \<longrightarrow> tcb k' q = tcb k q) \<and> current k' = current k \<and> kmm k' = m
    else copy_process fl fn arg stk k = Inl Out_Of_Bounds"
proof (cases "\<exists>i. 0 \<le> i \<and> i < NR_TASKS \<and> task k i = 0")
  case True
  from copy_process_step(1) [OF assms this] show ?thesis unfolding if_P [OF True] .
next
  case False
  from copy_process_step(2) [OF assms this] show ?thesis unfolding if_not_P [OF False] .
qed

lemma sample_kernel_facts:
  "sched_inv sample_kernel" "preempt_count (tcb sample_kernel (current sample_kernel)) = 0" "current sample_kernel = 0x80000"
  "live_tasks sample_kernel = {0x80000}" "kmm sample_kernel = mm_init bss_mm" "task sample_kernel 1 = 0"
  using kernel_start_inv [of "0x80000"] kernel_start_live(2) [of "0x80000"]
  by (simp_all add: sample_kernel_def) (simp_all add: kernel_start_def timer_start_def)

theorem copy_process_correct_witness:
  "\<exists>k' p i. copy_process PF_KTHREAD 0x80900 7 0 sample_kernel = Inr (k', i) \<and> sched_inv k' \<and> runnable k' p \<and> p \<noteq> 0x80000 \<and>
     pid (tcb k' p) = i \<and> ptregs k' (task_pt_regs p) = zero_regs"
proof -
  obtain m p where p: "kmalloc 4096 (mm_init bss_mm) = Inr (m, p)" "p \<noteq> 0" "heap_range 4096 p" using first_kmalloc [of 4096] by auto
  then have ne: "p \<noteq> 0x80000" by (auto simp: heap_range_def)
  then have "p \<notin> live_tasks sample_kernel" "kmalloc 4096 (kmm sample_kernel) = Inr (m, p)"
    using p(1) by (simp_all add: sample_kernel_facts)
  note c = copy_process_correct [OF sample_kernel_facts(1) this(2) p(2) this(1), of PF_KTHREAD "0x80900" 7 0]
  have ex: "\<exists>i. 0 \<le> i \<and> i < NR_TASKS \<and> task sample_kernel i = 0" by (intro exI [of _ 1]) (simp add: sample_kernel_facts)
  from c [unfolded if_P [OF ex]] ne show ?thesis by (auto simp: new_frame_def)
qed

end
