(* ===== verification/Sys.thy ===== *)
theory Sys
  imports Fork Wait
begin

text \<open>
  The system calls, \<open>src/sys.c\<close>, with the copy loop of \<open>src/mm.S\<close> and the dispatch of \<open>el0_svc\<close>
  in \<open>src/entry.S\<close>. Arguments that are pointers into user memory are addresses of \<open>mem\<close>.
\<close>

section \<open>Copying memory\<close>

text \<open>One round of \<open>memcpy\<close>: eight bytes are loaded, then stored.\<close>

definition copy8 :: "u64 \<Rightarrow> u64 \<Rightarrow> memory \<Rightarrow> memory" where
  "copy8 dst src m = (\<lambda>p. if p - dst < 8 then m (src + (p - dst)) else m p)"

function memcpy :: "u64 \<Rightarrow> u64 \<Rightarrow> int \<Rightarrow> memory \<Rightarrow> memory" where
  "memcpy dst src n m =
     (let m1 = copy8 dst src m
      in if 0 < n - 8 then memcpy (dst + 8) (src + 8) (n - 8) m1 else m1)"
  by pat_completeness auto
termination
  by (relation "measure (\<lambda>(d, s, n, m). nat n)") auto

declare memcpy.simps [simp del]

definition load8 :: "memory \<Rightarrow> u64 \<Rightarrow> string" where
  "load8 m a = map (\<lambda>i. m (a + of_nat i)) [0..<8]"

section \<open>Input and output\<close>

definition sys_write :: "string \<Rightarrow> kernel \<Rightarrow> kernel" where
  "sys_write buf k = kprintf buf [] k"

fun uart_write_from :: "nat \<Rightarrow> u64 \<Rightarrow> kernel \<Rightarrow> kernel result" where
  "uart_write_from 0 buf k = Inr k"
| "uart_write_from (Suc n) buf k =
     bind_result (uart_send (of_char (mem k buf)) (uart k)) (\<lambda>u. uart_write_from n (buf + 1) (k\<lparr>uart := u\<rparr>))"

definition sys_uart_write :: "u64 \<Rightarrow> u32 \<Rightarrow> kernel \<Rightarrow> (kernel \<times> int) result" where
  "sys_uart_write buf sz k = bind_result (uart_write_from (unat sz) buf k) (\<lambda>k1. Inr (k1, signed_take_bit 31 (uint sz)))"

fun uart_read_from :: "nat \<Rightarrow> u64 \<Rightarrow> kernel \<Rightarrow> kernel result" where
  "uart_read_from 0 buf k = Inr (k\<lparr>mem := (mem k)(buf := NUL)\<rparr>)"
| "uart_read_from (Suc n) buf k =
     bind_result (uart_getc (uart k)) (\<lambda>(u, c). uart_read_from n (buf + 1) (k\<lparr>uart := u, mem := (mem k)(buf := c)\<rparr>))"

definition sys_uart_read :: "u64 \<Rightarrow> u32 \<Rightarrow> kernel \<Rightarrow> (kernel \<times> int) result" where
  "sys_uart_read buf sz k = bind_result (uart_read_from (unat sz) buf k) (\<lambda>k1. Inr (k1, signed_take_bit 31 (uint sz)))"

section \<open>Tasks\<close>

definition sys_gitPID :: "kernel \<Rightarrow> int" where
  "sys_gitPID k = pid (tcb k (current k))"

text \<open>The offset of the caller's stack pointer is kept in an \<open>int\<close>.\<close>

definition sys_fork :: "kernel \<Rightarrow> (kernel \<times> int) result" where
  "sys_fork k =
     bind_result (k_malloc PAGE_SIZE (preempt_disable k)) (\<lambda>(k1, user_stack).
     bind_result (copy_process 0 0 0 user_stack k1) (\<lambda>(k2, pid').
     bind_result (task_at pid' k2) (\<lambda>p.
     bind_result (deref p k2) (\<lambda>child.
       let k3 = k2\<lparr>mem := memcpy (stack child) (stack (tcb k2 (current k2))) PAGE_SIZE (mem k2)\<rparr>;
           cur_regs = ptregs k3 (task_pt_regs (current k3));
           copiedTask_sp_offset = signed_take_bit 31 (uint (user_sp cur_regs - stack (tcb k3 (current k3))));
           k4 = upd_regs (task_pt_regs p) (\<lambda>r. r\<lparr>user_sp := stack child + word_of_int copiedTask_sp_offset\<rparr>) k3
       in Inr (preempt_enable k4, pid')))))"

definition INITRAMFS_ADDR :: u64 where
  "INITRAMFS_ADDR = 0x8000000"

text \<open>The search for the null pointer that ends \<open>argv\<close>; the counter is an \<open>int\<close>.\<close>

fun argc_from :: "nat \<Rightarrow> memory \<Rightarrow> u64 \<Rightarrow> nat \<Rightarrow> nat result" where
  "argc_from 0 m argv n = Inl No_Return"
| "argc_from (Suc fuel) m argv n =
     (if load8 m (argv + 8 * of_nat n) = replicate 8 NUL then Inr n else argc_from fuel m argv (n + 1))"

definition ARGC_BOUND :: nat where
  "ARGC_BOUND = 2 ^ 31"

fun copy_pointers :: "nat \<Rightarrow> u64 \<Rightarrow> u64 \<Rightarrow> memory \<Rightarrow> memory" where
  "copy_pointers 0 dst src m = m"
| "copy_pointers (Suc n) dst src m = copy_pointers n (dst + 8) (src + 8) (copy8 dst src m)"

definition sys_exec :: "nat \<Rightarrow> u64 \<Rightarrow> u64 \<Rightarrow> kernel \<Rightarrow> (kernel \<times> int) result" where
  "sys_exec fuel name argv k =
     (let k1 = kprintf (''[exec] Try to find file %s'' @ [NL]) [VInt (uint name)] (preempt_disable k)
      in bind_result (cpio_move_file fuel (mem k1) INITRAMFS_ADDR (peek (mem k1) name) 0x10A0000) (\<lambda>(m, target_addr).
         bind_result (argc_from ARGC_BOUND m argv 0) (\<lambda>argc_count.
         bind_result (k_malloc PAGE_SIZE (k1\<lparr>mem := m\<rparr>)) (\<lambda>(k2, backup).
           if backup = 0 \<and> 0 < argc_count then Inl Null_Deref
           else
             let m2 = copy_pointers argc_count backup argv (mem k2);
                 sp = stack (tcb k2 (current k2)) + 4096 - of_nat ((argc_count + argc_count mod 2) * 8);
                 m3 = copy_pointers argc_count sp backup m2;
                 k3 = upd_regs (task_pt_regs (current k2)) (\<lambda>r. r\<lparr>user_sp := sp, user_pc := target_addr, regs := (regs r)[1 := sp]\<rparr>)
                        (k2\<lparr>mem := m3\<rparr>)
             in Inr (preempt_enable k3, int argc_count)))))"

definition sys_exit :: "kernel \<Rightarrow> kernel result" where
  "sys_exit k = exit_process k"

definition sys_malloc :: "int \<Rightarrow> kernel \<Rightarrow> (kernel \<times> u64) result" where
  "sys_malloc bytes k = k_malloc bytes k"

definition sys_clone :: "kernel \<Rightarrow> int" where
  "sys_clone k = 0"

definition sys_coreTimer_on :: "u64 \<Rightarrow> kernel \<Rightarrow> kernel" where
  "sys_coreTimer_on freq k =
     kprintf (''[Core timer] interrupt enabled'' @ [NL]) [] (k\<lparr>ktimer := core_timer_enable freq (ktimer k)\<rparr>)"

definition sys_coreTimer_off :: "kernel \<Rightarrow> kernel" where
  "sys_coreTimer_off k =
     kprintf (''[Core timer] interrupt disabled'' @ [NL]) [] (k\<lparr>ktimer := core_timer_disable (ktimer k)\<rparr>)"

definition sys_mbox_call :: "8 word \<Rightarrow> u64 \<Rightarrow> u32 \<Rightarrow> kernel \<Rightarrow> (kernel \<times> int) result" where
  "sys_mbox_call ch mbox response k =
     bind_result (mailbox_call ch mbox response (uart k)) (\<lambda>(u, r). Inr (k\<lparr>uart := u\<rparr>, r))"

text \<open>
  \<open>if (task[pid]->flags = 0)\<close> is an assignment, so the stack is never released.
\<close>

definition sys_kill :: "int \<Rightarrow> kernel \<Rightarrow> kernel result" where
  "sys_kill i k =
     (if pid (tcb k (current k)) = i
      then Inr (kprintf (''[sys_kill] You can't suicide! Please just exit first!'' @ [NL]) [] k)
      else if i = 0
      then Inr (dumpTasksState (kprintf ''[sys_kill] You can't kill idle thread'' [] k))
      else
        bind_result (task_at i k) (\<lambda>p.
        bind_result (deref p k) (\<lambda>_.
        let k1 = upd_task p (\<lambda>t. t\<lparr>flags := 0\<rparr>) k
        in bind_result (k_free p k1) (\<lambda>k2.
           bind_result (set_task i 0 k2) (\<lambda>k3.
             Inr (dumpTasksState (k3\<lparr>nr_tasks := nr_tasks k3 - 1\<rparr>)))))))"

section \<open>Dispatch\<close>

datatype sys_fn =
    Sys_gitPID | Sys_uart_read | Sys_uart_write | Sys_exec | Sys_fork | Sys_exit | Sys_mbox_call | Sys_kill
  | Sys_malloc | Sys_clone | Sys_coreTimer_on | Sys_coreTimer_off | Sys_write

definition sys_call_table :: "sys_fn list" where
  "sys_call_table = [Sys_gitPID, Sys_uart_read, Sys_uart_write, Sys_exec, Sys_fork, Sys_exit, Sys_mbox_call, Sys_kill,
     Sys_malloc, Sys_clone, Sys_coreTimer_on, Sys_coreTimer_off, Sys_write]"

definition NR_syscalls :: nat where
  "NR_syscalls = 11"

text \<open>\<open>el0_svc\<close>: the number in \<open>w8\<close> is compared with \<open>__NR_syscalls\<close>, then indexes the table.\<close>

definition el0_svc :: "u64 \<Rightarrow> sys_fn option" where
  "el0_svc x8 =
     (let scno = unat (ucast x8 :: u32)
      in if scno < NR_syscalls then Some (sys_call_table ! scno) else None)"

end
