(* ===== verification/Sys_Props.thy ===== *)
theory Sys_Props
  imports Sys Fork_Props Wait_Props
begin

text \<open>What the system calls do to tasks, frames and user memory.\<close>

section \<open>Copying\<close>

definition in_range :: "u64 \<Rightarrow> nat \<Rightarrow> u64 \<Rightarrow> bool" where
  "in_range a n p \<longleftrightarrow> unat (p - a) < n"

definition disjoint_from :: "u64 \<Rightarrow> u64 \<Rightarrow> nat \<Rightarrow> bool" where
  "disjoint_from a b n \<longleftrightarrow> (\<forall>p. in_range a n p \<longrightarrow> \<not> in_range b n p)"

lemma copy8_eq: "copy8 dst src m p = (if in_range dst 8 p then m (src + (p - dst)) else m p)"
  by (simp add: copy8_def in_range_def word_less_nat_alt)

lemma unat_minus_8: "unat ((w :: u64) - 8) = (if 8 \<le> unat w then unat w - 8 else unat w + 2 ^ 64 - 8)"
proof (cases "8 \<le> w")
  case True
  then show ?thesis using unat_sub [OF True] by (simp add: word_le_nat_alt)
next
  case False
  then have "uint (w - 8) = uint w - 8 + 2 ^ 64" using uint_sub_if' [of w 8] by (simp add: not_le word_less_def word_le_def)
  then have "int (unat (w - 8)) = int (unat w + 2 ^ 64 - 8)" by simp
  then have "unat (w - 8) = unat w + 2 ^ 64 - 8" by (simp only: of_nat_eq_iff)
  moreover have "unat w < 8" using False by (simp add: not_le word_less_nat_alt)
  ultimately show ?thesis by simp
qed

lemma in_range_Suc:
  assumes "8 * Suc n \<le> 2 ^ 64"
  shows "in_range (a + 8) (8 * n) p \<longleftrightarrow> in_range a (8 * Suc n) p \<and> \<not> in_range a 8 p"
  using assms unat_minus_8 [of "p - a"] by (auto simp: in_range_def algebra_simps)

lemma copy_pointers_eq:
  assumes "disjoint_from dst src (8 * n)" "8 * n \<le> 2 ^ 64"
  shows "copy_pointers n dst src m p = (if in_range dst (8 * n) p then m (src + (p - dst)) else m p)"
  using assms
proof (induction n arbitrary: dst src m)
  case 0
  then show ?case by (simp add: in_range_def)
next
  case (Suc n)
  let ?m = "copy8 dst src m"
  have d: "disjoint_from (dst + 8) (src + 8) (8 * n)"
    using Suc.prems by (auto simp: disjoint_from_def in_range_Suc)
  have IH: "copy_pointers n (dst + 8) (src + 8) ?m p = (if in_range (dst + 8) (8 * n) p then ?m (src + 8 + (p - (dst + 8))) else ?m p)"
    using Suc.IH [OF d] Suc.prems(2) by simp
  have eq: "src + 8 + (p - (dst + 8)) = src + (p - dst)" by simp
  have keep: "?m (src + (p - dst)) = m (src + (p - dst))" if "in_range dst (8 * Suc n) p"
  proof -
    have "in_range src (8 * Suc n) (src + (p - dst))" using that by (simp add: in_range_def)
    then have "\<not> in_range dst (8 * Suc n) (src + (p - dst))" using Suc.prems(1) by (auto simp: disjoint_from_def)
    then have "\<not> in_range dst 8 (src + (p - dst))" by (auto simp: in_range_def)
    then show ?thesis by (simp add: copy8_eq)
  qed
  show ?case
  proof (cases "in_range dst (8 * Suc n) p")
    case True
    then show ?thesis using IH keep in_range_Suc [OF Suc.prems(2)] by (simp add: eq copy8_eq)
  next
    case False
    moreover have "\<not> in_range dst 8 p" using False by (auto simp: in_range_def)
    ultimately show ?thesis using IH in_range_Suc [OF Suc.prems(2)] by (simp add: copy8_eq)
  qed
qed

lemma memcpy_words: "memcpy dst src (8 * int (Suc n)) m = copy_pointers (Suc n) dst src m"
proof (induction n arbitrary: dst src m)
  case 0
  then show ?case by (subst memcpy.simps) simp
next
  case (Suc n)
  then show ?case by (subst memcpy.simps) (simp add: Let_def)
qed

declare copy_pointers.simps(2) [simp del]

lemma memcpy_page:
  assumes "disjoint_from dst src 4096"
  shows "memcpy dst src PAGE_SIZE m p = (if in_range dst 4096 p then m (src + (p - dst)) else m p)"
proof -
  have e: "8 * int (Suc 511) = PAGE_SIZE" "Suc 511 = 512" "8 * (512::nat) = 4096" by simp_all
  have "memcpy dst src PAGE_SIZE m = copy_pointers 512 dst src m"
    using memcpy_words [of dst src 511 m] unfolding e(1) unfolding e(2) .
  moreover have "copy_pointers 512 dst src m p = (if in_range dst 4096 p then m (src + (p - dst)) else m p)"
    using assms by (rule copy_pointers_eq [of dst src 512 m p, unfolded e(3)]) simp
  ultimately show ?thesis by simp
qed

section \<open>Fork\<close>

definition child_frame :: "u64 \<Rightarrow> kernel \<Rightarrow> pt_regs" where
  "child_frame ustk k =
     (let f = ptregs k (task_pt_regs (current k))
      in f\<lparr>regs := (regs f)[0 := 0], user_sp := ustk + (user_sp f - stack (tcb k (current k)))\<rparr>)"

lemma sp_offset:
  assumes "unat (w :: u64) \<le> 4096"
  shows "word_of_int (signed_take_bit 31 (uint w)) = w"
proof -
  have "int (unat w) \<le> 4096" using assms by linarith
  then have "uint w < 2 ^ 31" by simp
  moreover have "- (2 ^ 31) \<le> uint w" by (rule order_trans [of _ 0]) simp_all
  ultimately have "signed_take_bit 31 (uint w) = uint w" by (intro signed_take_bit_int_eq_self)
  then show ?thesis by simp
qed

text \<open>The offset of the stack pointer goes through an \<open>int\<close>, which keeps the offsets of a page.\<close>

definition forked_frame :: "u64 \<Rightarrow> kernel \<Rightarrow> pt_regs" where
  "forked_frame ustk k =
     (let f = ptregs k (task_pt_regs (current k))
      in f\<lparr>regs := (regs f)[0 := 0],
           user_sp := ustk + word_of_int (signed_take_bit 31 (uint (user_sp f - stack (tcb k (current k)))))\<rparr>)"

lemma forked_frame_child:
  "unat (user_sp (ptregs k (task_pt_regs (current k))) - stack (tcb k (current k))) \<le> 4096 \<Longrightarrow> forked_frame ustk k = child_frame ustk k"
  by (simp add: forked_frame_def child_frame_def Let_def sp_offset)

lemma sys_fork_run:
  assumes km: "kmalloc PAGE_SIZE (kmm k) = Inr (m1, ustk)" "kmalloc PAGE_SIZE m1 = Inr (m2, p)"
    and p: "p \<noteq> 0" "p \<noteq> current k" and i: "first_free k i"
  shows "sys_fork k = Inr (k\<lparr>ktimer := (ktimer k)\<lparr>tm_mm := m2\<rparr>, mem := memcpy ustk (stack (tcb k (current k))) PAGE_SIZE (mem k),
      task := (task k)(i := p), nr_tasks := nr_tasks k + 1, tcb := (tcb k)(p := new_task p 0 0 0 ustk i k),
      ptregs := (ptregs k)(task_pt_regs p := forked_frame ustk k)\<rparr>, i)" (is "_ = Inr (?k, i)")
proof -
  define k1 where "k1 = set_mm m1 (preempt_disable k)"
  define k2 where "k2 = k1\<lparr>ktimer := (ktimer k1)\<lparr>tm_mm := m2\<rparr>, task := (task k1)(i := p), nr_tasks := nr_tasks k1 + 1,
      tcb := (tcb k1)(p := new_task p 0 0 0 ustk i k1), ptregs := (ptregs k1)(task_pt_regs p := new_frame 0 ustk k1)\<rparr>"
  have r: "0 \<le> i" "i < NR_TASKS" using i by (simp_all add: first_free_def)
  have f1: "current k1 = current k" "ptregs k1 = ptregs k" "task k1 = task k" "nr_tasks k1 = nr_tasks k" "mem k1 = mem k"
    "ret_from_fork k1 = ret_from_fork k" "tcb k1 = tcb (preempt_disable k)" by (simp_all add: k1_def)
  have "first_free k1 i" using i f1 by (simp add: first_free_def)
  then have c: "copy_process 0 0 0 ustk k1 = Inr (k2, i)"
    using copy_process_eq [of k1 m2 p i 0 0 0 ustk] km(2) p f1 by (simp add: k1_def k2_def)
  have st: "stack (tcb k2 (current k2)) = stack (tcb k (current k))" "current k2 = current k" "tcb k2 p = new_task p 0 0 0 ustk i k1"
    using p(2) by (simp_all add: k2_def f1 preempt_tcb)
  have fr: "ptregs k2 (task_pt_regs (current k)) = ptregs k (task_pt_regs (current k))"
    using p(2) by (simp add: k2_def f1 task_pt_regs_inject)
  define k4 where "k4 = upd_regs (task_pt_regs p) (\<lambda>r. r\<lparr>user_sp := ustk + word_of_int (signed_take_bit 31
        (uint (user_sp (ptregs k (task_pt_regs (current k))) - stack (tcb k (current k)))))\<rparr>)
      (k2\<lparr>mem := memcpy ustk (stack (tcb k (current k))) PAGE_SIZE (mem k2)\<rparr>)"
  have "sys_fork k = Inr (preempt_enable k4, i)"
    using km(1) c r p(1) st fr
    by (simp add: sys_fork_def k_malloc_def task_at_def deref_def Let_def flip: k1_def)
      (simp add: k2_def new_task_def k4_def)
  moreover have "preempt_enable k4 = ?k"
  proof (rule kernel.equality)
    have cur: "current k4 = current k" "tcb k4 = tcb k2" by (simp_all add: k4_def st)
    have n: "new_task p 0 0 0 ustk i k1 = new_task p 0 0 0 ustk i k" by (simp add: new_task_def f1 preempt_tcb)
    show "tcb (preempt_enable k4) = tcb ?k"
      using p(2) by (auto simp: preempt_tcb cur k2_def f1 n fun_eq_iff)
    show "ptregs (preempt_enable k4) = ptregs ?k"
      by (simp add: k4_def k2_def new_frame_def f1 forked_frame_def Let_def)
  qed (simp_all add: k4_def k2_def k1_def)
  ultimately show ?thesis by simp
qed

lemma sys_fork_eq:
  assumes "kmalloc PAGE_SIZE (kmm k) = Inr (m1, ustk)" "kmalloc PAGE_SIZE m1 = Inr (m2, p)" "p \<noteq> 0" "p \<noteq> current k" "first_free k i"
    and sp: "unat (user_sp (ptregs k (task_pt_regs (current k))) - stack (tcb k (current k))) \<le> 4096"
  shows "sys_fork k = Inr (k\<lparr>ktimer := (ktimer k)\<lparr>tm_mm := m2\<rparr>, mem := memcpy ustk (stack (tcb k (current k))) PAGE_SIZE (mem k),
      task := (task k)(i := p), nr_tasks := nr_tasks k + 1, tcb := (tcb k)(p := new_task p 0 0 0 ustk i k),
      ptregs := (ptregs k)(task_pt_regs p := child_frame ustk k)\<rparr>, i)"
  using sys_fork_run [OF assms(1-5)] unfolding forked_frame_child [OF sp] .

text \<open>
  C33. \<open>sys_fork\<close>: given memory for the new stack and the new structure and a free slot, the
  child is in the pool and can run; its register frame is the caller's with 0 in \<open>x0\<close>; its user
  stack has the contents of the caller's, and its stack pointer has the same offset in it. The
  caller gets the child's pid, and nothing else of memory or of other tasks changes.
\<close>

theorem sys_fork_correct:
  assumes inv: "sched_inv k" and km: "kmalloc 4096 (kmm k) = Inr (m1, ustk)" "kmalloc 4096 m1 = Inr (m2, p)" "p \<noteq> 0" "p \<notin> live_tasks k"
    and free: "0 \<le> i" "i < NR_TASKS" "task k i = 0"
    and sp: "unat (user_sp (ptregs k (task_pt_regs (current k))) - stack (tcb k (current k))) \<le> 4096"
    and apart: "disjoint_from ustk (stack (tcb k (current k))) 4096"
  shows "\<exists>k' c. sys_fork k = Inr (k', c) \<and> sched_inv k' \<and> task k' c = p \<and> runnable k' p \<and> pid (tcb k' p) = c \<and> stack (tcb k' p) = ustk \<and>
    ptregs k' (task_pt_regs p) = child_frame ustk k \<and>
    (\<forall>a. in_range ustk 4096 a \<longrightarrow> mem k' a = mem k (stack (tcb k (current k)) + (a - ustk))) \<and>
    (\<forall>a. \<not> in_range ustk 4096 a \<longrightarrow> mem k' a = mem k a) \<and> (\<forall>q. q \<noteq> p \<longrightarrow> tcb k' q = tcb k q) \<and> current k' = current k"
proof -
  obtain c where c: "first_free k c" using first_free_exists [OF free] .
  have cur: "p \<noteq> current k" using inv km(4) by (auto simp: sched_inv_def)
  let ?k = "k\<lparr>ktimer := (ktimer k)\<lparr>tm_mm := m2\<rparr>, mem := memcpy ustk (stack (tcb k (current k))) PAGE_SIZE (mem k),
      task := (task k)(c := p), nr_tasks := nr_tasks k + 1, tcb := (tcb k)(p := new_task p 0 0 0 ustk c k),
      ptregs := (ptregs k)(task_pt_regs p := child_frame ustk k)\<rparr>"
  have r: "sys_fork k = Inr (?k, c)" by (rule sys_fork_eq [OF km(1,2,3) cur c sp])
  have pr: "1 \<le> priority (tcb k (current k)) \<and> priority (tcb k (current k)) < 2 ^ 29"
    using inv by (auto simp: sched_inv_def pool_ok_def live_tasks_def)
  have "sched_inv ?k" "live_tasks ?k = insert p (live_tasks k)"
    using pr by (rule_tac [1-2] add_task_inv [OF inv c km(3,4), of "new_task p 0 0 0 ustk c k"], simp_all add: new_task_def)
  then have "sched_inv ?k \<and> task ?k c = p \<and> runnable ?k p \<and> pid (tcb ?k p) = c \<and> stack (tcb ?k p) = ustk \<and>
    ptregs ?k (task_pt_regs p) = child_frame ustk k \<and>
    (\<forall>a. in_range ustk 4096 a \<longrightarrow> mem ?k a = mem k (stack (tcb k (current k)) + (a - ustk))) \<and>
    (\<forall>a. \<not> in_range ustk 4096 a \<longrightarrow> mem ?k a = mem k a) \<and> (\<forall>q. q \<noteq> p \<longrightarrow> tcb ?k q = tcb k q) \<and> current ?k = current k"
    using memcpy_page [OF apart] by (simp add: runnable_def new_task_def)
  then show ?thesis using r by blast
qed

section \<open>Exec\<close>

lemma argc_from_eq:
  assumes "\<And>j. s \<le> j \<Longrightarrow> j < n \<Longrightarrow> load8 m (argv + 8 * of_nat j) \<noteq> replicate 8 NUL" "load8 m (argv + 8 * of_nat n) = replicate 8 NUL"
    "s \<le> n" "n - s < fuel"
  shows "argc_from fuel m argv s = Inr n"
  using assms
proof (induction fuel arbitrary: s)
  case (Suc fuel)
  show ?case
  proof (cases "s = n")
    case True
    then show ?thesis using Suc.prems(2) by simp
  next
    case False
    then have "argc_from fuel m argv (s + 1) = Inr n" using Suc.prems by (intro Suc.IH) auto
    then show ?thesis using Suc.prems(1) [of s] Suc.prems(3) False by simp
  qed
qed simp

declare argc_from.simps(2) [simp del]

lemma load8_copied:
  assumes "\<And>a. in_range dst (8 * n) a \<Longrightarrow> m' a = m (src + (a - dst))" "j < n" "8 * n \<le> 2 ^ 64"
  shows "load8 m' (dst + 8 * of_nat j) = load8 m (src + 8 * of_nat j)"
proof -
  have "m' (dst + 8 * of_nat j + of_nat i) = m (src + 8 * of_nat j + of_nat i)" if "i < 8" for i
  proof -
    have e: "(8 * of_nat j + of_nat i :: u64) = of_nat (8 * j + i)" by simp
    have lt: "8 * j + i < 8 * n" using that assms(2) by simp
    moreover have "unat (of_nat (8 * j + i) :: u64) \<le> 8 * j + i"
      by (simp only: unat_of_nat mod_less_eq_dividend)
    ultimately have "unat (of_nat (8 * j + i) :: u64) < 8 * n" by linarith
    then have "in_range dst (8 * n) (dst + 8 * of_nat j + of_nat i)" by (simp add: in_range_def e [symmetric] add.assoc)
    from assms(1) [OF this] show ?thesis by (simp add: add.assoc)
  qed
  then show ?thesis by (auto simp: load8_def)
qed

lemma two_copies:
  assumes "disjoint_from b src (8 * n)" "disjoint_from dst b (8 * n)" "8 * n \<le> 2 ^ 64"
  shows "in_range dst (8 * n) a \<Longrightarrow> copy_pointers n dst b (copy_pointers n b src m) a = m (src + (a - dst))"
    "\<not> in_range dst (8 * n) a \<Longrightarrow> \<not> in_range b (8 * n) a \<Longrightarrow> copy_pointers n dst b (copy_pointers n b src m) a = m a"
proof -
  show "copy_pointers n dst b (copy_pointers n b src m) a = m (src + (a - dst))" if "in_range dst (8 * n) a"
  proof -
    have "in_range b (8 * n) (b + (a - dst))" using that by (simp add: in_range_def)
    then show ?thesis using that copy_pointers_eq [OF assms(2,3)] copy_pointers_eq [OF assms(1,3)] by simp
  qed
  show "copy_pointers n dst b (copy_pointers n b src m) a = m a" if "\<not> in_range dst (8 * n) a" "\<not> in_range b (8 * n) a"
    using that copy_pointers_eq [OF assms(2,3)] copy_pointers_eq [OF assms(1,3)] by simp
qed

lemma aligned_sp: "uint ((a :: u64) + 4096 - of_nat ((n + n mod 2) * 8)) mod 16 = uint a mod 16"
proof -
  obtain q where q: "n + n mod 2 = 2 * q" using parity_cases [of n] by (metis evenE even_add even_mod_2_iff)
  have w: "a + 4096 - of_nat ((n + n mod 2) * 8) = word_of_int (uint a + 16 * (256 - int q))" by (simp add: q algebra_simps)
  have m: "uint (word_of_int z :: u64) mod 16 = z mod 16" for z
    by (simp add: uint_word_of_int mod_mod_cancel)
  have "(uint a + 16 * (256 - int q)) mod 16 = uint a mod 16" by (rule mod_mult_self2)
  then show ?thesis unfolding w m .
qed


section \<open>Kill\<close>

lemma remove_task_inv:
  assumes inv: "sched_inv k" and i: "i \<in> live k" "i \<noteq> 0" "task k i \<noteq> current k"
    and k': "task k' = (task k)(i := 0)" "nr_tasks k' = nr_tasks k - 1" "current k' = current k"
      "\<And>p. p \<noteq> task k i \<Longrightarrow> tcb k' p = tcb k p"
  shows "sched_inv k'" "live_tasks k' = live_tasks k - {task k i}"
proof -
  have P: "pool_ok k" "current k \<in> live_tasks k" "\<forall>q\<in>live_tasks k - {current k}. 0 \<le> counter (tcb k q) \<and> preempt_count (tcb k q) = 1"
    using inv by (simp_all add: sched_inv_def)
  have inj: "inj_on (task k) (live k)" using P(1) by (simp add: pool_ok_def)
  have l: "live k' = live k - {i}" by (auto simp: live_def k'(1))
  have t: "task k' j = task k j" "task k j \<noteq> task k i" if "j \<in> live k'" for j
    using that inj_onD [OF inj, of j i] i(1) by (auto simp: l k'(1))
  show lt: "live_tasks k' = live_tasks k - {task k i}"
    using t l inj_onD [OF inj _ _ i(1)] by (auto simp: live_tasks_def) 
  note fin = live_finite [of k]
  have "0 < card (live k)" using fin i(1) by (auto simp: card_gt_0_iff)
  then have "nr_tasks k' = int (card (live k'))" using P(1) fin i(1) by (simp add: l k'(2) pool_ok_def of_nat_diff)
  moreover have "inj_on (task k') (live k')" using inj t(1) by (auto simp: inj_on_def l)
  moreover have "task k' 0 \<noteq> 0" using P(1) i(2) by (simp add: k'(1) pool_ok_def)
  moreover have "\<forall>j\<in>live k'. pid (tcb k' (task k' j)) = j \<and> 1 \<le> priority (tcb k' (task k' j)) \<and> priority (tcb k' (task k' j)) < 2 ^ 29 \<and>
      counter (tcb k' (task k' j)) \<le> 2 * priority (tcb k' (task k' j))"
    using P(1) t k'(4) l by (auto simp: pool_ok_def)
  ultimately have "pool_ok k'" by (simp add: pool_ok_def)
  then show "sched_inv k'" using P(2,3) i(3) k'(3,4) by (auto simp: sched_inv_def lt)
qed

lemma sys_kill_step:
  assumes inv: "sched_inv k" and i: "i \<in> live k" "i \<noteq> 0" "task k i \<noteq> current k" and kf: "kfree (task k i) (kmm k) = Inr m"
  obtains k' where "sys_kill i k = Inr k'" "sched_inv k'" "live_tasks k' = live_tasks k - {task k i}" "task k' 0 = task k 0"
    "ktimer k' = (ktimer k)\<lparr>tm_mm := m\<rparr>" "current k' = current k" "\<forall>q. q \<noteq> task k i \<longrightarrow> tcb k' q = tcb k q"
    "wlinks k' = wlinks k" "wprivate k' = wprivate k" "kernel_shell_status k' = kernel_shell_status k"
proof -
  let ?p = "task k i"
  have r: "0 \<le> i" "i < NR_TASKS" "?p \<noteq> 0" using i(1) by (auto simp: live_def)
  have "pid (tcb k (current k)) \<noteq> i"
    using inv i(3) by (auto simp: sched_inv_def pool_ok_def live_tasks_def)
  define k3 where "k3 = (set_mm m (upd_task ?p (\<lambda>t. t\<lparr>flags := 0\<rparr>) k))\<lparr>task := (task k)(i := 0), nr_tasks := nr_tasks k - 1\<rparr>"
  let ?k = "dumpTasksState k3"
  have run: "sys_kill i k = Inr ?k"
    using \<open>pid (tcb k (current k)) \<noteq> i\<close> i(2) r kf
    by (simp add: sys_kill_def task_at_def deref_def Let_def k_free_def set_task_def k3_def)
  note d = dumpTasksState_fields [of k3]
  have f: "task ?k = (task k)(i := 0)" "nr_tasks ?k = nr_tasks k - 1" "current ?k = current k" "\<And>q. q \<noteq> ?p \<Longrightarrow> tcb ?k q = tcb k q"
    "ktimer ?k = (ktimer k)\<lparr>tm_mm := m\<rparr>" "wlinks ?k = wlinks k" "wprivate ?k = wprivate k" "kernel_shell_status ?k = kernel_shell_status k"
    using d by (simp_all add: same_but_tasks_def k3_def)
  show thesis using that [OF run remove_task_inv [OF inv i f(1-4)]] f i(2) by simp
qed

text \<open>
  C35. \<open>sys_kill\<close> of a task other than the caller and task 0: if the allocator takes the
  structure back, the task leaves the pool, which stays well-formed, all others keep their
  state, and its stack is not given back: the only memory released is the structure.
\<close>

theorem sys_kill_correct:
  assumes inv: "sched_inv k" and i: "i \<in> live k" "i \<noteq> 0" "task k i \<noteq> current k" and kf: "kfree (task k i) (kmm k) = Inr m"
  shows "\<exists>k'. sys_kill i k = Inr k' \<and> sched_inv k' \<and> live_tasks k' = live_tasks k - {task k i} \<and> kmm k' = m \<and>
    current k' = current k \<and> (\<forall>q. q \<noteq> task k i \<longrightarrow> tcb k' q = tcb k q)"
  by (rule sys_kill_step [OF assms]) simp

section \<open>Dispatch\<close>

text \<open>
  A system call number is looked up in the table exactly when it is below 11; the table
  has thirteen entries, so \<open>sys_coreTimer_off\<close> and \<open>sys_write\<close>, whose numbers are defined as
  11 and 12, are rejected like an unknown number.
\<close>

theorem el0_svc_reaches:
  "el0_svc x8 = (if unat (ucast x8 :: u32) < 11 then Some (sys_call_table ! unat (ucast x8 :: u32)) else None) \<and>
    (\<forall>f. (\<exists>x8. el0_svc x8 = Some f) \<longleftrightarrow> f \<notin> {Sys_coreTimer_off, Sys_write})"
proof -
  have e: "el0_svc x = (if unat (ucast x :: u32) < 11 then Some (sys_call_table ! unat (ucast x :: u32)) else None)" for x
    by (simp add: el0_svc_def Let_def NR_syscalls_def)
  have "f \<notin> {Sys_coreTimer_off, Sys_write}" if "el0_svc x = Some f" for f x
  proof -
    have "unat (ucast x :: u32) < 11" "f = sys_call_table ! unat (ucast x :: u32)" using that e [of x] by (auto split: if_splits)
    moreover have "xs ! n \<in> set (take j xs)" if "n < j" "j \<le> length xs" for n j and xs :: "sys_fn list"
      using that nth_mem [of n "take j xs"] by simp
    moreover have "11 \<le> length sys_call_table" by (simp add: sys_call_table_def)
    ultimately have "f \<in> set (take 11 sys_call_table)" by blast
    then show ?thesis by (auto simp: sys_call_table_def)
  qed
  moreover have "\<exists>x. el0_svc x = Some f" if "f \<notin> {Sys_coreTimer_off, Sys_write}" for f
  proof -
    have "f \<in> set (take 11 sys_call_table)" using that by (cases f) (simp_all add: sys_call_table_def)
    then obtain n where n: "n < 11" "f = sys_call_table ! n" by (auto simp: in_set_conv_nth)
    have "unat (ucast (of_nat n :: u64) :: u32) = n" using n(1) by (simp add: unsigned_ucast_eq unat_of_nat take_bit_nat_eq_self)
    then have "el0_svc (of_nat n) = Some f" using n e [of "of_nat n"] by simp
    then show ?thesis by blast
  qed
  ultimately show ?thesis using e by blast
qed

section \<open>Concrete runs\<close>

lemma disjoint_fromI:
  assumes "unat a + n \<le> unat b" "unat b + n \<le> 2 ^ 64"
  shows "disjoint_from a b n" "disjoint_from b a n"
proof -
  have F: False if "in_range a n p" "in_range b n p" for p
  proof -
    have "unat a + unat (p - a) < 2 ^ LENGTH(64)" "unat b + unat (p - b) < 2 ^ LENGTH(64)"
      using that assms by (simp_all add: in_range_def)
    then have "unat (a + (p - a)) = unat a + unat (p - a)" "unat (b + (p - b)) = unat b + unat (p - b)"
      by (simp_all only: unat_add_lem)
    then have "unat a + unat (p - a) = unat b + unat (p - b)" by simp
    then show False using that assms by (simp add: in_range_def)
  qed
  then show "disjoint_from a b n" "disjoint_from b a n" by (auto simp: disjoint_from_def)
qed

text \<open>A page is taken from the smallest free area when that has one.\<close>

lemma kmalloc_page:
  assumes "dlist (links s) (FreeArea 0) (PageNode p # xs)"
  shows "kmalloc 4096 s = Inr (upd_page p (\<lambda>q. q\<lparr>order := 0\<rparr>) (pop_block_from_free_area p 0 s), phy_addr (bookkeep s p))"
proof -
  have l: "list_first (FreeArea 0) (links s) = PageNode p" "\<not> list_empty (FreeArea 0) (links s)"
    using dlist_first [OF assms] dlist_list_empty [OF assms] by (simp_all add: list_first_def)
  have b: "buddy_block_alloc 0 s = Inr (upd_page p (\<lambda>q. q\<lparr>order := 0\<rparr>) (pop_block_from_free_area p 0 s), Some p)"
    using l by (simp add: buddy_block_alloc_def buddy_scan.simps [of 0] buddy_split.simps Let_def)
  have "kmalloc 4096 s = kmalloc_buddy 0 4096 s"
    by (simp add: kmalloc_def kmalloc_obj.simps [of "numeral _"])
  then show ?thesis
    using b by (simp add: kmalloc_buddy.simps [of 0] pop_block_from_free_area_def Let_def)
qed

definition two_pages :: mm_state where
  "two_pages = bss_mm\<lparr>bookkeep := (\<lambda>i. zero_page\<lparr>pfn := i, phy_addr := word_of_int (0x200000 + 4096 * i)\<rparr>),
     nr_free := (\<lambda>_. 0)(0 := 2),
     links := list_add_tail (PageNode 1) (FreeArea 0) (list_add_tail (PageNode 0) (FreeArea 0) (INIT_LIST_HEAD (FreeArea 0) (links bss_mm)))\<rparr>"

lemma two_pages_malloc:
  "\<exists>m1 m2. kmalloc 4096 two_pages = Inr (m1, 0x200000) \<and> kmalloc 4096 m1 = Inr (m2, 0x201000)"
proof -
  have "dlist (list_add_tail (PageNode 0) (FreeArea 0) (INIT_LIST_HEAD (FreeArea 0) (links bss_mm))) (FreeArea 0) [PageNode 0]"
    using dlist_add_tail [OF dlist_INIT] by fastforce
  then have d: "dlist (links two_pages) (FreeArea 0) [PageNode 0, PageNode 1]"
    using dlist_add_tail by (fastforce simp: two_pages_def)
  let ?m = "upd_page 0 (\<lambda>q. q\<lparr>order := 0\<rparr>) (pop_block_from_free_area 0 0 two_pages)"
  have "kmalloc 4096 two_pages = Inr (?m, 0x200000)" using kmalloc_page [OF d] by (simp add: two_pages_def)
  moreover have "dlist (links ?m) (FreeArea 0) [PageNode 1]"
    using dlist_del [of "links two_pages" "FreeArea 0" "[]" "PageNode 0" "[PageNode 1]"] d by (simp add: pop_block_from_free_area_def Let_def)
  from kmalloc_page [OF this] have "kmalloc 4096 ?m = Inr (upd_page 1 (\<lambda>q. q\<lparr>order := 0\<rparr>) (pop_block_from_free_area 1 0 ?m), 0x201000)"
    by (simp add: pop_block_from_free_area_def Let_def two_pages_def)
  ultimately show ?thesis by blast
qed

definition user_kernel :: "memory \<Rightarrow> kernel" where
  "user_kernel m = sample_kernel\<lparr>ktimer := (ktimer sample_kernel)\<lparr>tm_mm := two_pages\<rparr>, mem := m,
     tcb := (\<lambda>_. INIT_TASK\<lparr>stack := 0x300000\<rparr>), ptregs := (\<lambda>_. zero_regs\<lparr>user_sp := 0x300f00, user_pc := 0x10A0040\<rparr>)\<rparr>"

lemma user_kernel_fields:
  "current (user_kernel m) = 0x80000" "stack (tcb (user_kernel m) q) = 0x300000" "user_sp (ptregs (user_kernel m) a) = 0x300f00"
  "kmm (user_kernel m) = two_pages" "task (user_kernel m) 1 = 0" "live_tasks (user_kernel m) = {0x80000}" "mem (user_kernel m) = m"
  "sched_inv (user_kernel m)"
proof -
  show l: "live_tasks (user_kernel m) = {0x80000}"
    using sample_kernel_facts(4) by (simp add: user_kernel_def live_tasks_def live_def)
  show "sched_inv (user_kernel m)"
    using sample_kernel_facts(1) sched_inv_cong [of "user_kernel m" sample_kernel]
    by (simp add: sample_kernel_facts(3,4)) (simp add: user_kernel_def sample_kernel_def kernel_start_def INIT_TASK_def)
qed (simp_all add: user_kernel_def sample_kernel_facts)

theorem sys_fork_correct_witness:
  "\<exists>k' c. sys_fork (user_kernel (\<lambda>a. if a = 0x300f00 then CHR ''x'' else NUL)) = Inr (k', c) \<and> sched_inv k' \<and> runnable k' 0x201000 \<and>
     user_sp (ptregs k' (task_pt_regs 0x201000)) = 0x200f00 \<and> user_pc (ptregs k' (task_pt_regs 0x201000)) = 0x10A0040 \<and>
     mem k' 0x200f00 = CHR ''x''"
proof -
  let ?k = "user_kernel (\<lambda>a. if a = 0x300f00 then CHR ''x'' else NUL)"
  obtain m1 m2 where m: "kmalloc 4096 (kmm ?k) = Inr (m1, 0x200000)" "kmalloc 4096 m1 = Inr (m2, 0x201000)"
    using two_pages_malloc by (auto simp: user_kernel_fields)
  have "disjoint_from 0x200000 (stack (tcb ?k (current ?k))) 4096"
    unfolding user_kernel_fields by (rule disjoint_fromI) simp_all
  then obtain k' c where k': "sys_fork ?k = Inr (k', c)" "sched_inv k'" "runnable k' 0x201000"
    "ptregs k' (task_pt_regs 0x201000) = child_frame 0x200000 ?k"
    "\<forall>a. in_range 0x200000 4096 a \<longrightarrow> mem k' a = mem ?k (stack (tcb ?k (current ?k)) + (a - 0x200000))"
    using sys_fork_correct [OF user_kernel_fields(8) m, of 1] by (auto simp: user_kernel_fields)
  have "mem k' 0x200f00 = CHR ''x''" using k'(5) by (simp add: in_range_def user_kernel_fields)
  moreover have "user_sp (child_frame 0x200000 ?k) = 0x200f00" "user_pc (child_frame 0x200000 ?k) = 0x10A0040"
    by (simp_all add: child_frame_def Let_def user_kernel_fields) (simp add: user_kernel_def)
  ultimately show ?thesis using k' by auto
qed

text \<open>The sample archive at the address of the ram disk; behind it memory is zero.\<close>

definition disk_mem :: memory where
  "disk_mem p = lit sample_image (unat (p - INITRAMFS_ADDR))"

lemma sample_image_length: "length sample_image = 237"
  by (simp add: sample_image_def)

lemma disk_bytes: "bytes_at disk_mem 0x8000000 sample_image"
proof -
  have "unat (of_nat (0x8000000 + i) - INITRAMFS_ADDR) = i" if "i < 237" for i
  proof -
    have "(of_nat (0x8000000 + i) - INITRAMFS_ADDR) = (of_nat i :: u64)" by (simp add: INITRAMFS_ADDR_def)
    then show ?thesis using that by (simp add: unat_of_nat take_bit_nat_eq_self)
  qed
  then show ?thesis by (auto simp: bytes_at_nth disk_mem_def lit_def sample_image_length simp del: of_nat_add of_nat_numeral)
qed

lemma disk_at: "cpio_at disk_mem 0x8000000 [(''f'', ''hi'')]"
proof -
  have a: "file_data 0x8000000 ''f'' = 0x8000070" "file_next 0x8000000 ''f'' ''hi'' = 0x8000074"
    by (simp_all add: file_data_def file_next_def round4_def)
  have s: "Suc (length ''f'') = 2" "length ''hi'' = 2" by simp_all
  from disk_bytes show ?thesis unfolding sample_image_def bytes_at_append cpio_at.simps a s by auto
qed

lemma image_chars: "lit sample_image 110 = CHR ''f''" "lit sample_image 111 = NUL" "lit sample_image 232 = CHR ''R''" "lit sample_image 112 = CHR ''h''"
  by (simp_all add: lit_def sample_image_def nth_append nth_Cons')

lemma disk_move:
  "cpio_move_file 2 disk_mem INITRAMFS_ADDR (peek disk_mem 0x800006E) 0x10A0000 =
     Inr (disk_mem(0x10A0000 := disk_mem 0x8000070, 0x10A0001 := disk_mem 0x8000071), 0x10A0000)"
proof -
  have h: "holds (peek disk_mem 0x800006E) ''f''"
    using image_chars by (simp add: holds_def peek_def disk_mem_def INITRAMFS_ADDR_def)
  have "cpio_get_file 2 disk_mem (of_nat 0x8000000) (peek disk_mem 0x800006E) 5920 = Inr (of_nat (file_addr 0x8000000 [(''f'', ''hi'')] ''f''), of_nat (length ''hi''))"
    by (rule cpio_get_file_found [OF disk_at h]) simp_all
  moreover have "file_addr 0x8000000 [(''f'', ''hi'')] ''f'' = 0x8000070" by (simp add: file_data_def round4_def)
  ultimately have "cpio_get_file 2 disk_mem INITRAMFS_ADDR (peek disk_mem 0x800006E) 5920 = Inr (0x8000070, 2)"
    by (simp add: INITRAMFS_ADDR_def)
  moreover have "copy_loop (unat (2 :: u64)) 0x10A0000 0x8000070 disk_mem =
      disk_mem(0x10A0000 := disk_mem 0x8000070, 0x10A0001 := disk_mem 0x8000071)"
  proof -
    have "unat (2 :: u64) = Suc (Suc 0)" by simp
    then show ?thesis by (simp only: copy_loop.simps) simp
  qed
  ultimately show ?thesis by (simp only: cpio_move_file_def bind_result_simps prod.case)
qed

lemma unat_far:
  fixes w :: u64
  assumes "unat w = 0x80000E8 + i"
  shows "w \<notin> {0x10A0000, 0x10A0001}"
  using assms by auto

lemma load8_zero: "(\<And>i. i < 8 \<Longrightarrow> m (a + of_nat i) = NUL) \<Longrightarrow> load8 m a = replicate 8 NUL"
  by (simp add: load8_def list_eq_iff_nth_eq)

definition disk_loaded :: memory where
  "disk_loaded = disk_mem(0x10A0000 := disk_mem 0x8000070, 0x10A0001 := disk_mem 0x8000071)"

lemma disk_loaded_far:
  assumes "i < 16"
  shows "disk_loaded (0x80000E8 + of_nat i) = disk_mem (0x80000E8 + of_nat i)"
    "unat ((0x80000E8 :: u64) + of_nat i - INITRAMFS_ADDR) = 232 + i"
proof -
  have keep: "disk_loaded a = disk_mem a" if "a \<notin> {0x10A0000, 0x10A0001}" for a using that by (simp add: disk_loaded_def)
  have e: "(0x80000E8 :: u64) + of_nat i = of_nat (0x80000E8 + i)" by simp
  have "unat ((0x80000E8 :: u64) + of_nat i) = 0x80000E8 + i"
    unfolding e using assms by (simp only: unat_of_nat) simp
  then show "disk_loaded (0x80000E8 + of_nat i) = disk_mem (0x80000E8 + of_nat i)" by (intro keep unat_far)
  have "(0x80000E8 :: u64) + of_nat i - INITRAMFS_ADDR = of_nat (232 + i)" by (simp add: INITRAMFS_ADDR_def)
  then have "unat ((0x80000E8 :: u64) + of_nat i - INITRAMFS_ADDR) = unat (of_nat (232 + i) :: u64)" by (simp only:)
  also have "\<dots> = 232 + i" using assms by (simp only: unat_of_nat) simp
  finally show "unat ((0x80000E8 :: u64) + of_nat i - INITRAMFS_ADDR) = 232 + i" .
qed

lemma disk_loaded_end: "load8 disk_loaded 0x80000F0 = replicate 8 NUL"
proof (rule load8_zero)
  fix i :: nat
  assume i: "i < 8"
  have "disk_loaded (0x80000E8 + of_nat (8 + i)) = disk_mem (0x80000E8 + of_nat (8 + i))" using i by (intro disk_loaded_far(1)) simp
  also have "\<dots> = lit sample_image (232 + (8 + i))" using disk_loaded_far(2) [of "8 + i"] i unfolding disk_mem_def by simp
  also have "\<dots> = NUL" by (simp add: lit_def sample_image_length)
  finally show "disk_loaded (0x80000F0 + of_nat i) = NUL" by (simp add: ac_simps)
qed


text \<open>Task 1 of the pool, with a structure that the allocator handed out.\<close>

definition killable :: "u64 \<Rightarrow> mm_state \<Rightarrow> kernel" where
  "killable p m = two_tasks\<lparr>task := (task two_tasks)(1 := p), ktimer := (ktimer two_tasks)\<lparr>tm_mm := m\<rparr>,
     tcb := (tcb two_tasks)(p := tcb two_tasks 0x200000)\<rparr>"

theorem sys_kill_correct_witness:
  "\<exists>p m k'. p \<in> live_tasks (killable p m) \<and> sys_kill 1 (killable p m) = Inr k' \<and> sched_inv k' \<and>
     live_tasks k' = live_tasks (killable p m) - {p}"
proof -
  obtain m p where m: "kmalloc 4096 (mm_init bss_mm) = Inr (m, p)" "p \<noteq> 0" "mm_reach m {#p#}" "heap_range 4096 p"
    using first_kmalloc [of 4096] by auto
  obtain M A where "heap_inv m M A {#p#}" using mm_reach_inv [OF m(3)] by blast
  from kfree_step [OF this, of p] obtain m' where m': "kfree p m = Inr m'" by auto
  let ?k = "killable p m"
  have "p \<noteq> 0x80000" using m(4) by (auto simp: heap_range_def)
  then have l: "live ?k = {0, 1}" "task ?k 1 = p" "task ?k 0 = 0x80000" "current ?k = 0x80000" "kmm ?k = m"
    using m(2) by (auto simp: live_def killable_def two_tasks_def sample_kernel_def kernel_start_def)
  then have lt: "live_tasks ?k = {0x80000, p}" by (auto simp: live_tasks_def)
  have "sched_inv ?k"
    using \<open>p \<noteq> 0x80000\<close> m(2) unfolding sched_inv_def pool_ok_def l lt
    by (simp add: killable_def two_tasks_def sample_kernel_def kernel_start_def INIT_TASK_def)
  moreover have "1 \<in> live ?k" "(1 :: int) \<noteq> 0" "task ?k 1 \<noteq> current ?k" "kfree (task ?k 1) (kmm ?k) = Inr m'"
    using l m' \<open>p \<noteq> 0x80000\<close> by simp_all
  ultimately obtain k' where "sys_kill 1 ?k = Inr k'" "sched_inv k'" "live_tasks k' = live_tasks ?k - {task ?k 1}"
    using sys_kill_correct by blast
  moreover have "p \<in> live_tasks ?k" by (simp add: lt)
  ultimately show ?thesis unfolding l(2) by blast
qed

end
