(* ===== verification/Exit_Props.thy ===== *)
theory Exit_Props
  imports Fork_Props Wait_Props
begin

text \<open>A task that exits never runs again; its slot is kept for good.\<close>

text \<open>A task that cannot run stays off the processor as long as another one can.\<close>

lemma schedules_not_runnable:
  "ready k \<Longrightarrow> runnable k p \<Longrightarrow> \<not> runnable k z \<Longrightarrow> current k \<noteq> z \<Longrightarrow>
    \<exists>k'. schedules n k = Inr k' \<and> current k' \<noteq> z \<and> runnable k (current k') \<or> n = 0"
proof (induction n arbitrary: k)
  case (Suc n)
  obtain k1 where k1: "schedule k = Inr k1" "ready k1" "same_tasks k k1" "runnable k (current k1)"
    using schedule_round [OF Suc.prems(1,2)] by metis
  have c: "current k1 \<noteq> z" using k1(4) Suc.prems(3) by auto
  have "\<exists>k'. schedules n k1 = Inr k' \<and> current k' \<noteq> z \<and> runnable k1 (current k') \<or> n = 0"
    using Suc.IH [OF k1(2) _ _ c] Suc.prems(2,3) same_tasks_runnable [OF k1(3)] by simp
  then show ?case using k1(1,4) c same_tasks_runnable [OF k1(3)] by (cases n) auto
qed simp

lemma exit_process_step:
  assumes inv: "sched_inv k" "preempt_count (tcb k (current k)) = 0" and other: "runnable k p" "p \<noteq> current k"
    and stk: "if stack (tcb k (current k)) = 0 then m = kmm k else kfree (stack (tcb k (current k))) (kmm k) = Inr m"
  obtains k' where "exit_process k = Inr k'" "ready k'" "runnable k (current k')" "current k' \<noteq> current k" "task k' = task k"
    "nr_tasks k' = nr_tasks k" "ktimer k' = (ktimer k)\<lparr>tm_mm := m\<rparr>" "wlinks k' = wlinks k" "wprivate k' = wprivate k"
    "kernel_shell_status k' = kernel_shell_status k"
    "\<forall>q. state (tcb k' q) = (if q = current k then TASK_ZOMBIE else state (tcb k q)) \<and> stack (tcb k' q) = stack (tcb k q)"
    "\<forall>q. pid (tcb k' q) = pid (tcb k q)" "console k' = console k"
proof -
  let ?c = "current k"
  define k1 where "k1 = upd_task ?c (\<lambda>t. t\<lparr>state := TASK_ZOMBIE\<rparr>) (preempt_disable k)"
  have f1: "current k1 = ?c" "stack (tcb k1 ?c) = stack (tcb k ?c)" "kmm k1 = kmm k"
    by (simp_all add: k1_def preempt_disable_def)
  have "set_mm (kmm k1) k1 = k1" by (simp add: set_mm_def)
  then have m: "(if stack (tcb k1 ?c) \<noteq> 0 then k_free (stack (tcb k1 ?c)) k1 else Inr k1) = Inr (set_mm m k1)"
    using stk by (auto simp: f1 k_free_def split: if_splits)
  define k2 where "k2 = preempt_enable (set_mm m k1)"
  have run: "exit_process k = schedule k2"
    unfolding exit_process_def Let_def k1_def [symmetric] f1(1) m bind_result_simps k2_def ..
  have t2: "tcb k2 = (tcb k)(?c := (tcb k ?c)\<lparr>state := TASK_ZOMBIE\<rparr>)"
    by (simp add: k2_def k1_def preempt_enable_def preempt_disable_def fun_eq_iff)
  have f2: "task k2 = task k" "nr_tasks k2 = nr_tasks k" "current k2 = ?c" "ktimer k2 = (ktimer k)\<lparr>tm_mm := m\<rparr>"
    "wlinks k2 = wlinks k" "wprivate k2 = wprivate k" "kernel_shell_status k2 = kernel_shell_status k"
    "console k2 = console k"
    by (simp_all add: k2_def k1_def preempt_enable_def preempt_disable_def)
  have "ready k2" using sched_inv_cong [of k2 k] inv f2 t2 by (simp add: ready_def)
  have run2: "runnable k2 q \<longleftrightarrow> runnable k q \<and> q \<noteq> ?c" for q
    using live_cong(2) [OF f2(1)] by (auto simp: runnable_def t2)
  obtain k' where k': "schedule k2 = Inr k'" "ready k'" "same_tasks k2 k'" "runnable k2 (current k')"
    using schedule_round [OF \<open>ready k2\<close>, of p] other run2 by metis
  have eq: "state (tcb k' q) = (if q = ?c then TASK_ZOMBIE else state (tcb k q)) \<and> stack (tcb k' q) = stack (tcb k q)" for q
    using k'(3) t2 by (simp add: same_tasks_def)
  have "\<forall>q. pid (tcb k' q) = pid (tcb k q)" "console k' = console k" using k'(3) t2 f2(8) by (simp_all add: same_tasks_def)
  moreover have "task k' = task k" "nr_tasks k' = nr_tasks k" "ktimer k' = (ktimer k)\<lparr>tm_mm := m\<rparr>" "wlinks k' = wlinks k"
    "wprivate k' = wprivate k" "kernel_shell_status k' = kernel_shell_status k"
    using k'(3) f2 by (simp_all add: same_tasks_def)
  moreover have "runnable k (current k')" "current k' \<noteq> ?c" using k'(4) run2 by simp_all
  ultimately show thesis using that run k'(1,2) eq by simp
qed



section \<open>Reaping\<close>

lemma kill_zombies_from_empty_slot:
  assumes "i \<in> set is" "task k i = 0"
  shows "kill_zombies_from is k = Inl Null_Deref"
  using assms
proof (induction "is")
  case (Cons j "is")
  then show ?case by (cases "task k j = 0") (auto simp: deref_def)
qed simp

text \<open>\<open>kill_zombies\<close> reads through every slot of the table, and changes nothing if none is empty.\<close>

lemma kill_zombies_empty_slot:
  "kill_zombies k = (if \<exists>i\<in>{0..<NR_TASKS}. task k i = 0 then Inl Null_Deref else Inr k)"
proof -
  have "kill_zombies_from is k = Inr k" if "\<forall>i\<in>set is. task k i \<noteq> 0" for "is"
    using that by (induction "is") (auto simp: deref_def)
  then show ?thesis
    using kill_zombies_from_empty_slot [of _ "[0..NR_TASKS - 1]" k] unfolding kill_zombies_def slots_set by auto
qed

end
