(* ===== verification/Exception.thy ===== *)
theory Exception
  imports Wait
begin

text \<open>
  The exception and interrupt routers, \<open>src/exception.c\<close>, with the interrupt entry of
  \<open>src/entry.S\<close>. What the interrupt registers and the timer hold when they are read is an input.
\<close>

record irq_inputs =
  CORE0_IRQ_SRC :: u32
  IRQ_PENDING_1 :: u32
  irq_iir :: u32
  irq_freq :: u64
  irq_cnt :: u64

definition entry_error_messages :: "string list" where
  "entry_error_messages =
     [''SYNC_INVALID_EL1t'', ''IRQ_INVALID_EL1t'', ''FIQ_INVALID_EL1t'', ''ERROR_INVALID_EL1T'',
      ''SYNC_INVALID_EL1h'', ''IRQ_INVALID_EL1h'', ''FIQ_INVALID_EL1h'', ''ERROR_INVALID_EL1h'',
      ''SYNC_INVALID_EL0_64'', ''IRQ_INVALID_EL0_64'', ''FIQ_INVALID_EL0_64'', ''ERROR_INVALID_EL0_64'',
      ''SYNC_INVALID_EL0_32'', ''IRQ_INVALID_EL0_32'', ''FIQ_INVALID_EL0_32'', ''ERROR_INVALID_EL0_32'',
      ''SYNC_ERROR'', ''SYSCALL_ERROR'']"

definition show_invalid_entry_message :: "int \<Rightarrow> u64 \<Rightarrow> u64 \<Rightarrow> kernel \<Rightarrow> kernel result" where
  "show_invalid_entry_message ty esr address k =
     (if 0 \<le> ty \<and> nat ty < length entry_error_messages
      then Inr (kprintf (''%s, ESR: 0x%x, elr_el1: 0x%x'' @ [CR, NL])
             [VStr (entry_error_messages ! nat ty @ [NUL]), VInt (uint esr), VInt (uint address)] k)
      else Inl Out_Of_Bounds)"

definition sync_svc_handler :: "u64 \<Rightarrow> u64 \<Rightarrow> kernel \<Rightarrow> kernel" where
  "sync_svc_handler freq esr k =
     (let ISS = signed_take_bit 31 (uint (esr AND 0xFFFFFF))
      in if ISS = 1 then kprintf (''[cpio svc]'' @ [NL]) [] k
         else if ISS = 2 then
           kprintf (''[Core timer] interrupt enabled'' @ [NL]) [] (k\<lparr>ktimer := core_timer_enable freq (ktimer k)\<rparr>)
         else if ISS = 3 then
           kprintf (''[Core timer] interrupt disabled'' @ [NL]) [] (k\<lparr>ktimer := core_timer_disable (ktimer k)\<rparr>)
         else k)"

definition sync_exc_router :: "u64 \<Rightarrow> u64 \<Rightarrow> u64 \<Rightarrow> u64 \<Rightarrow> kernel \<Rightarrow> kernel" where
  "sync_exc_router freq spsr elr esr k =
     (let k1 = kprintf (''In sync_exc_router, System register info:'' @ [NL]) [] k;
          k2 = kprintf (''spsr_el1:  0x%x'' @ [NL]) [VInt (uint spsr)] k1;
          k3 = kprintf (''elr:  0x%x'' @ [NL]) [VInt (uint elr)] k2;
          k4 = kprintf (''esr:  0x%x'' @ [NL, NL]) [VInt (uint esr)] k3;
          EC = signed_take_bit 31 (uint (drop_bit 26 esr))
      in if EC = 0b010101 then sync_svc_handler freq esr k4
         else kprintf (''Unknow synchronous exception source!'' @ [NL]) [] k4)"

definition irq_exc_router :: "irq_inputs \<Rightarrow> kernel \<Rightarrow> kernel result" where
  "irq_exc_router env k =
     (if IRQ_PENDING_1 env AND AUX_IRQ \<noteq> 0 then
        if kernel_shell_status k = 1
        then bind_result (shell_uart_irq_handler (irq_iir env) (uart k)) (\<lambda>u. Inr (k\<lparr>uart := u\<rparr>))
        else uart_read_irq_wakeUp_handler k
      else if CORE0_IRQ_SRC env AND push_bit 1 1 \<noteq> 0 then
        if isTimerMultiplexingEventIRQ (ktimer k)
        then bind_result (timerEvents_irq_handler (irq_freq env) (irq_cnt env) (ktimer k)) (\<lambda>t. Inr (k\<lparr>ktimer := t\<rparr>))
        else Inr (timer_tick (k\<lparr>ktimer := core_timer_handler (irq_freq env) (ktimer k)\<rparr>))
      else Inr (kprintf (''Unknown IRQ source'' @ [NL]) [] k))"

text \<open>The entry for interrupts: the router, then the preemption of the interrupted task.\<close>

definition irq_exc_handler :: "irq_inputs \<Rightarrow> kernel \<Rightarrow> kernel result" where
  "irq_exc_handler env k = bind_result (irq_exc_router env k) task_preemption"

definition print_pstate_interrupt_mask_bits :: "u32 \<Rightarrow> kernel \<Rightarrow> kernel" where
  "print_pstate_interrupt_mask_bits DAIF_bits k = kprintf (''DAIF Bits: 0x{%x}'' @ [NL]) [VInt (uint DAIF_bits)] k"

end
