(* ===== verification/Kernel_Main.thy ===== *)
theory Kernel_Main
  imports Fork Exception
begin

text \<open>
  The start of the kernel, \<open>src/main.c\<close>: initialisation, the kernel threads, and one round of the
  loop of task 0. A thread function that switches tasks is split at the switch. \<open>delay\<close> counts a
  register down and is left out, as is \<open>enable_irq\<close>, which sets the interrupt mask.
\<close>

text \<open>One round of the loop of \<open>foo\<close>, up to the point where another task runs.\<close>

definition foo_round :: "int \<Rightarrow> kernel \<Rightarrow> kernel result" where
  "foo_round i k = schedule (kprintf (''Thread id: %d %d'' @ [NL]) [VInt (pid (tcb k (current k))), VInt i] k)"

definition kernel_process :: "u64 \<Rightarrow> kernel \<Rightarrow> kernel result" where
  "kernel_process user_process k =
     bind_result (move_to_user_mode user_process k) (\<lambda>(k1, err).
       Inr (if err < 0 then kprintf (''Error while moving process to user mode'' @ [NL, CR]) [] k1 else k1))"

text \<open>The calls of \<open>copy_process\<close>; after a negative result \<open>main\<close> returns.\<close>

fun start_threads :: "u64 list \<Rightarrow> kernel \<Rightarrow> (kernel \<times> bool) result" where
  "start_threads [] k = Inr (k, True)"
| "start_threads (fn # fns) k =
     bind_result (copy_process PF_KTHREAD fn 0 0 k) (\<lambda>(k1, res).
       if res < 0 then Inr (kprintf ''error while starting kernel process'' [] k1, False)
       else start_threads fns k1)"

definition main_start :: "u64 \<Rightarrow> u64 \<Rightarrow> u64 \<Rightarrow> kernel \<Rightarrow> (kernel \<times> bool) result" where
  "main_start freq foo_fn process_fn k =
     (let k1 = k\<lparr>uart := uart_init (uart k)\<rparr>;
          k2 = set_mm (mm_init (kmm k1)) k1;
          k3 = k2\<lparr>ktimer := core_timer_enable freq (ktimer k2)\<rparr>
      in bind_result (enable_uart_interrupt (uart k3)) (\<lambda>u.
           start_threads (replicate 3 foo_fn @ [process_fn]) (k3\<lparr>uart := u\<rparr>)))"

text \<open>One round of the loop of \<open>main\<close>.\<close>

definition main_round :: "kernel \<Rightarrow> kernel result" where
  "main_round k = bind_result (kill_zombies k) schedule"

end
