(* ===== verification/Main_Props.thy ===== *)
theory Main_Props
  imports Kernel_Main Sys_Props Exit_Props Kmalloc_Props
begin

text \<open>
  The boot sequence on the model of the allocator, the scheduler and the serial line: it creates
  its four tasks, and the first round of its idle loop fails.
\<close>

section \<open>Pages from a fresh heap\<close>

text \<open>The heap after a number of page allocations: only pages are handed out, and these.\<close>

definition page_at :: "int \<Rightarrow> u64" where
  "page_at p = word_of_int (LOW_MEMORY + p * PAGE_SIZE)"

definition page_heap :: "mm_state \<Rightarrow> int list \<Rightarrow> bool" where
  "page_heap s ps \<longleftrightarrow> distinct ps \<and> (\<forall>p\<in>set ps. in_bookkeep p) \<and>
     (\<exists>M. heap_inv s M ((\<lambda>p. (p, 0)) ` set ps) (mset (map page_at ps)))"

lemma page_heap_start: "page_heap (mm_init bss_mm) []"
  using mm_init_heap by (simp add: page_heap_def)

lemma page_heap_frames:
  assumes "page_heap s ps" "length ps < 4096"
  shows "\<exists>k\<in>{0..MAX_ORDER}. nr_free s k \<noteq> 0"
proof (rule ccontr)
  assume z: "\<not> ?thesis"
  let ?A = "(\<lambda>p. (p, 0::int)) ` set ps"
  obtain M where "mm_inv s M ?A" using assms(1) by (auto simp: page_heap_def heap_inv_def)
  then obtain F where "buddy_core s F (slab_heads (registered s)) M ?A"
    by (auto simp: mm_inv_def buddy_owns_def buddy_inv_def)
  from frames_conserved [OF this] z have "(\<Sum>b\<in>?A. (2::int) ^ nat (snd b)) = PAGE_FRAME_NUM" by simp
  moreover have "(\<Sum>b\<in>?A. (2::int) ^ nat (snd b)) = int (card (set ps))"
    by (subst sum.reindex) (auto simp: inj_on_def)
  moreover have "card (set ps) \<le> length ps" by (rule card_length)
  ultimately show False using assms(2) by simp
qed

lemma page_heap_alloc:
  assumes "page_heap s ps" "length ps < 4096"
  obtains s' p where "kmalloc 4096 s = Inr (s', page_at p)" "page_heap s' (p # ps)" "page_at p \<noteq> 0" "heap_range 4096 (page_at p)"
proof -
  obtain M where h: "heap_inv s M ((\<lambda>p. (p, 0)) ` set ps) (mset (map page_at ps))" and d: "distinct ps" "\<forall>p\<in>set ps. in_bookkeep p"
    using assms(1) by (auto simp: page_heap_def)
  obtain k0 where k0: "0 \<le> k0" "k0 \<le> MAX_ORDER" "nr_free s k0 \<noteq> 0" using page_heap_frames [OF assms] by auto
  show thesis
  proof (rule kmalloc_large_step [OF h, of 4096])
    show "MAX_ALLOCATAED_OBJ_SIZE < (4096::int)" "(4096::int) \<le> 2 ^ nat (MAX_ORDER + int PAGE_SHIFT)" by simp_all
  next
    assume f: "kmalloc 4096 s = Inl Null_Deref"
    have le: "(4096::int) \<le> PAGE_SIZE * 2 ^ nat k0" by simp
    show thesis
      by (cases rule: kmalloc_step [OF h, of 4096]) (use f k0 le in auto)
  next
    fix s' a M' A' p k
    assume r: "kmalloc 4096 s = Inr (s', a)" "a \<noteq> 0" "heap_range 4096 a"
      "heap_inv s' M' A' (add_mset a (mset (map page_at ps)))" "A' = insert (p, k) ((\<lambda>p. (p, 0)) ` set ps)"
      "frames (p, k) \<inter> occupied ((\<lambda>p. (p, 0)) ` set ps) = {}" "uint a = LOW_MEMORY + p * PAGE_SIZE" "0 \<le> k"
      "\<And>j. 0 \<le> j \<Longrightarrow> j < k \<Longrightarrow> PAGE_SIZE * 2 ^ nat j < 4096"
    have k: "k = 0" using r(8) r(9) [of 0] by force
    have a: "a = page_at p" unfolding page_at_def r(7) [symmetric] by simp
    have "p \<notin> set ps"
    proof
      assume "p \<in> set ps"
      then have "(p, 0) \<in> (\<lambda>p. (p, 0)) ` set ps" by simp
      then have "p \<in> occupied ((\<lambda>p. (p, 0)) ` set ps)" unfolding occupied_def by (rule UN_I) simp
      then show False using r(6) frames_self(1) [of p k] by blast
    qed
    moreover have "in_bookkeep p"
      using r(3,7) by (auto simp: heap_range_def in_bookkeep_def)
    ultimately have "page_heap s' (p # ps)" using d r(4,5) k by (auto simp: page_heap_def a)
    then show thesis using that r(1-3) a by blast
  qed
qed

lemma page_at_inject:
  assumes "in_bookkeep p" "in_bookkeep q" "page_at p = page_at q"
  shows "p = q"
proof -
  have "uint (page_at x) = LOW_MEMORY + x * PAGE_SIZE" if "in_bookkeep x" for x
    unfolding page_at_def using that by (intro uint_u64_of_int) (auto simp: in_bookkeep_def)
  from this [OF assms(1)] this [OF assms(2)] have "LOW_MEMORY + p * PAGE_SIZE = LOW_MEMORY + q * PAGE_SIZE"
    unfolding assms(3) by (rule trans [OF sym])
  then show ?thesis by simp
qed

section \<open>Starting threads\<close>

text \<open>Task 0 below the heap, and one task for each page handed out, in the first slots.\<close>

definition booted :: "kernel \<Rightarrow> u64 \<Rightarrow> int list \<Rightarrow> bool" where
  "booted k a ps \<longleftrightarrow> sched_inv k \<and> current k = a \<and> uint a < LOW_MEMORY \<and> page_heap (kmm k) ps \<and>
     live_tasks k = insert a (page_at ` set ps) \<and> live k = {0..int (length ps)}"

lemma booted_thread:
  assumes b: "booted k a ps" and n: "length ps < 63"
  obtains k' p where "copy_process PF_KTHREAD fn 0 0 k = Inr (k', int (length ps) + 1)" "booted k' a (p # ps)"
    "task k' (int (length ps) + 1) = page_at p" "runnable k' (page_at p)" "x19 (cpu_ctx (tcb k' (page_at p))) = fn"
    "task k' = (task k)(int (length ps) + 1 := page_at p)" "\<forall>q. q \<noteq> page_at p \<longrightarrow> tcb k' q = tcb k q" "page_at p \<notin> live_tasks k"
proof -
  let ?i = "int (length ps) + 1"
  have inv: "sched_inv k" "current k = a" "uint a < LOW_MEMORY" "live k = {0..int (length ps)}"
    "live_tasks k = insert a (page_at ` set ps)" and h: "page_heap (kmm k) ps"
    using b by (simp_all add: booted_def)
  obtain m p where p: "kmalloc 4096 (kmm k) = Inr (m, page_at p)" "page_heap m (p # ps)" "page_at p \<noteq> 0" "heap_range 4096 (page_at p)"
    using page_heap_alloc [OF h] n by auto
  have "page_at p \<noteq> a" using p(4) inv(3) by (auto simp: heap_range_def)
  moreover have "page_at p \<notin> page_at ` set ps"
  proof
    assume "page_at p \<in> page_at ` set ps"
    then obtain q where "q \<in> set ps" "page_at p = page_at q" by blast
    moreover from this have "p = q" using p(2) by (intro page_at_inject) (simp_all add: page_heap_def)
    ultimately show False using p(2) by (simp add: page_heap_def)
  qed
  ultimately have fresh: "page_at p \<notin> live_tasks k" by (simp add: inv(5))
  have used: "task k j \<noteq> 0 \<longleftrightarrow> j \<le> int (length ps)" if "0 \<le> j" "j < NR_TASKS" for j
  proof -
    have "j \<in> live k \<longleftrightarrow> task k j \<noteq> 0" unfolding live_def using that by simp
    then show ?thesis unfolding inv(4) using that(1) by simp
  qed
  have i: "0 \<le> ?i" "?i < NR_TASKS" using n by linarith+
  then have "task k ?i = 0" using used [of ?i] by simp
  then have ff: "first_free k ?i" using used i by (simp add: first_free_def)
  have "current k \<in> live_tasks k" using inv(1) by (simp only: sched_inv_def)
  then have cur: "page_at p \<noteq> current k" using fresh by (rule_tac notI) simp
  have km: "kmalloc PAGE_SIZE (kmm k) = Inr (m, page_at p)" using p(1) by simp
  note c = copy_process_eq [OF km p(3) cur ff, of PF_KTHREAD fn 0 0]
  let ?t = "new_task (page_at p) PF_KTHREAD fn 0 0 ?i k"
  let ?k = "k\<lparr>ktimer := (ktimer k)\<lparr>tm_mm := m\<rparr>, task := (task k)(?i := page_at p), nr_tasks := nr_tasks k + 1,
      tcb := (tcb k)(page_at p := ?t), ptregs := (ptregs k)(task_pt_regs (page_at p) := new_frame PF_KTHREAD 0 k)\<rparr>"
  have pr: "1 \<le> priority (tcb k (current k)) \<and> priority (tcb k (current k)) < 2 ^ 29"
    using inv(1) by (auto simp: sched_inv_def pool_ok_def live_tasks_def)
  have "sched_inv ?k" "live ?k = insert ?i (live k)" "live_tasks ?k = insert (page_at p) (live_tasks k)"
    using pr by (rule_tac [1-3] add_task_inv [OF inv(1) ff p(3) fresh, of ?t], simp_all add: new_task_def)
  moreover have "insert ?i {0..int (length ps)} = {0..int (length (p # ps))}" by auto
  ultimately have "booted ?k a (p # ps)" using p(2) inv by (auto simp: booted_def)
  moreover have "runnable ?k (page_at p)"
    using \<open>live_tasks ?k = _\<close> by (simp add: runnable_def new_task_def)
  ultimately show thesis using that [of ?k p] c fresh by (simp add: new_task_def)
qed

lemma start_threads_booted:
  assumes "booted k a ps" "length ps + length fns < 64"
  shows "\<exists>k' qs. start_threads fns k = Inr (k', True) \<and> booted k' a (qs @ ps) \<and> length qs = length fns \<and>
    (\<forall>i \<le> int (length ps). task k' i = task k i) \<and> (\<forall>q\<in>live_tasks k. tcb k' q = tcb k q) \<and>
    (\<forall>j<length fns. let q = task k' (int (length ps + j) + 1) in runnable k' q \<and> x19 (cpu_ctx (tcb k' q)) = fns ! j)"
  using assms
proof (induction fns arbitrary: k ps)
  case (Cons fn fns)
  have "length ps < 63" using Cons.prems(2) by simp
  then obtain k1 p where k1: "copy_process PF_KTHREAD fn 0 0 k = Inr (k1, int (length ps) + 1)" "booted k1 a (p # ps)"
    "task k1 (int (length ps) + 1) = page_at p" "runnable k1 (page_at p)" "x19 (cpu_ctx (tcb k1 (page_at p))) = fn"
    "task k1 = (task k)(int (length ps) + 1 := page_at p)" "\<forall>q. q \<noteq> page_at p \<longrightarrow> tcb k1 q = tcb k q" "page_at p \<notin> live_tasks k"
    by (rule booted_thread [OF Cons.prems(1), where fn = fn])
  have "length (p # ps) + length fns < 64" using Cons.prems(2) by simp
  from Cons.IH [OF k1(2) this] obtain k' qs where k': "start_threads fns k1 = Inr (k', True)" "booted k' a (qs @ p # ps)" "length qs = length fns"
    "\<forall>i \<le> int (length (p # ps)). task k' i = task k1 i" "\<forall>q\<in>live_tasks k1. tcb k' q = tcb k1 q"
    "\<forall>j<length fns. let q = task k' (int (length (p # ps) + j) + 1) in runnable k' q \<and> x19 (cpu_ctx (tcb k' q)) = fns ! j" by auto
  have pl: "page_at p \<in> live_tasks k1" "live_tasks k1 = insert (page_at p) (live_tasks k)"
    using k1(2) Cons.prems(1) by (auto simp: booted_def)
  have first: "task k' (int (length ps) + 1) = page_at p" using k'(4) k1(3) by simp
  have r: "runnable k' (page_at p)" "x19 (cpu_ctx (tcb k' (page_at p))) = fn"
    using k'(2,5) k1(4,5) pl by (auto simp: runnable_def booted_def)
  have "let q = task k' (int (length ps + j) + 1) in runnable k' q \<and> x19 (cpu_ctx (tcb k' q)) = (fn # fns) ! j" if "j < length (fn # fns)" for j
    using that r first k'(6) by (cases j) (auto simp: Let_def)
  moreover have "\<forall>i \<le> int (length ps). task k' i = task k i" using k'(4) k1(6) by simp
  moreover have "\<forall>q\<in>live_tasks k. tcb k' q = tcb k q" using k'(5) k1(7,8) pl(2) by (metis insertCI)
  ultimately show ?case using k1(1) k'(1,2,3) by (intro exI [of _ k'] exI [of _ "qs @ [p]"]) simp
qed (auto intro: exI [of _ "[]"])

section \<open>Booting\<close>

lemma uart_init_fields [simp]: "lsr_reads (uart_init u) = lsr_reads u" "io_writes (uart_init u) = io_writes u"
  by (simp_all add: uart_init_def)

lemma boot_runs:
  assumes "a \<noteq> 0" "uint a < LOW_MEMORY" "tm_mm t = bss_mm" "26 \<le> tx_room u"
  obtains k' qs where "main_start freq foo_fn process_fn (kernel_start a u t m) = Inr (k', True)" "sched_inv k'" "live k' = {0..4}"
    "current k' = a" "booted k' a qs" "length qs = 4" "tcb k' a = INIT_TASK" "\<And>i. i \<in> {1..4} \<Longrightarrow> runnable k' (task k' i) \<and>
      x19 (cpu_ctx (tcb k' (task k' i))) = (if i = 4 then process_fn else foo_fn)"
proof -
  let ?s = "kernel_start a u t m"
  define k3 where "k3 = ?s\<lparr>uart := uart_init u, ktimer := core_timer_enable freq (t\<lparr>tm_mm := mm_init bss_mm\<rparr>)\<rparr>"
  obtain u' where u': "enable_uart_interrupt (uart_init u) = Inr u'"
    using enable_uart_interrupt_ready [of "uart_init u"] assms(4) by (auto simp: tx_room_def)
  let ?k = "k3\<lparr>uart := u'\<rparr>"
  have run: "main_start freq foo_fn process_fn ?s = start_threads (replicate 3 foo_fn @ [process_fn]) ?k"
    using u' assms(3) by (simp add: main_start_def Let_def k3_def kernel_start_def set_mm_def)
  have l: "live ?k = {0}" "live_tasks ?k = {a}" "current ?k = a" "kmm ?k = mm_init bss_mm"
    using kernel_start_live [OF assms(1), of u t m] live_cong [of ?k ?s]
    by (simp_all add: k3_def core_timer_enable_def) (simp add: kernel_start_def)
  have "sched_inv ?k \<longleftrightarrow> sched_inv ?s"
    by (rule sched_inv_cong) (simp_all add: k3_def)
  then have "booted ?k a []"
    using kernel_start_inv(1) [OF assms(1)] assms(2) l page_heap_start by (simp add: booted_def)
  from start_threads_booted [OF this, of "replicate 3 foo_fn @ [process_fn]"] obtain k' qs where
    k': "start_threads (replicate 3 foo_fn @ [process_fn]) ?k = Inr (k', True)" "booted k' a qs" "length qs = 4"
    "\<forall>j<4. let q = task k' (int j + 1) in runnable k' q \<and> x19 (cpu_ctx (tcb k' q)) = (replicate 3 foo_fn @ [process_fn]) ! j"
    "tcb k' a = tcb ?k a"
    using l(2) by auto
  have z: "tcb k' a = INIT_TASK" using k'(5) by (simp add: k3_def) (simp add: kernel_start_def)
  have lv: "live k' = {0..4}" "sched_inv k'" "current k' = a" using k'(2,3) by (simp_all add: booted_def)
  have each: "runnable k' (task k' i) \<and> x19 (cpu_ctx (tcb k' (task k' i))) = (if i = 4 then process_fn else foo_fn)"
    if "i \<in> {1..4}" for i
  proof -
    have "nat (i - 1) < 4" "int (nat (i - 1)) + 1 = i" using that by (auto simp: nat_less_iff)
    moreover have "(replicate 3 foo_fn @ [process_fn]) ! nat (i - 1) = (if i = 4 then process_fn else foo_fn)"
      using that by (auto simp: nth_append)
    ultimately show ?thesis using k'(4) [rule_format, of "nat (i - 1)"] by (simp add: Let_def)
  qed
  show thesis using that [of k' qs] run k'(1-3) lv each z by simp
qed

text \<open>
  C38. The boot sequence, from the state the loader leaves: if the line accepts the message
  of the driver, \<open>main\<close> creates its four kernel threads, in slots 1 to 4, each ready to run with
  the function it is to start at, and the pool is well-formed. The first round of the loop of
  task 0 then fails: \<open>kill_zombies\<close> follows the null pointers of the empty slots.
\<close>

theorem main_boot:
  assumes "a \<noteq> 0" "uint a < LOW_MEMORY" "tm_mm t = bss_mm" "26 \<le> tx_room u"
  shows "\<exists>k'. main_start freq foo_fn process_fn (kernel_start a u t m) = Inr (k', True) \<and> sched_inv k' \<and> live k' = {0..4} \<and>
    current k' = a \<and> (\<forall>i\<in>{1..4}. runnable k' (task k' i) \<and>
      x19 (cpu_ctx (tcb k' (task k' i))) = (if i = 4 then process_fn else foo_fn)) \<and>
    main_round k' = Inl Null_Deref"
proof -
  obtain k' where k': "main_start freq foo_fn process_fn (kernel_start a u t m) = Inr (k', True)" "sched_inv k'" "live k' = {0..4}"
    "current k' = a" "\<And>i. i \<in> {1..4} \<Longrightarrow> runnable k' (task k' i) \<and>
      x19 (cpu_ctx (tcb k' (task k' i))) = (if i = 4 then process_fn else foo_fn)"
    by (rule boot_runs [OF assms], rule that)
  have "5 \<notin> live k'" unfolding k'(3) by simp
  then have "task k' 5 = 0" unfolding live_def by simp
  moreover have "5 \<in> set [0..NR_TASKS - 1]" unfolding slots_set by simp
  ultimately have "kill_zombies k' = Inl Null_Deref"
    unfolding kill_zombies_def by (rule_tac kill_zombies_from_empty_slot)
  then have "main_round k' = Inl Null_Deref" by (simp add: main_round_def)
  then show ?thesis using k' by (intro exI [of _ k']) simp
qed

theorem main_boot_witness:
  "\<exists>k'. main_start 62500000 0x80900 0x80a00 (kernel_start 0x90000 (uart_reset (replicate 26 0x20) []) (timer_start\<lparr>tm_mm := bss_mm\<rparr>) (\<lambda>_. NUL)) = Inr (k', True) \<and>
     main_round k' = Inl Null_Deref"
proof -
  have "tm_mm (timer_start\<lparr>tm_mm := bss_mm\<rparr>) = bss_mm" by simp
  moreover have "26 \<le> tx_room (uart_reset (replicate 26 0x20) [])" by (simp add: tx_room_def uart_reset_def)
  ultimately show ?thesis
    using main_boot [of "0x90000" "timer_start\<lparr>tm_mm := bss_mm\<rparr>" "uart_reset (replicate 26 0x20) []" 62500000 "0x80900" "0x80a00" "\<lambda>_. NUL"] by auto
qed

end
