(* ===== verification/Kernel_Steps.thy ===== *)
theory Kernel_Steps
  imports Main_Props
begin

text \<open>
  The kernel as one system: whatever the running task does, system calls, interrupts and thread
  switches in any order. The invariant ties the pool, the wait queue and the allocator together:
  task structures and user stacks are pages the allocator has handed out and not taken back.
\<close>

section \<open>Pages the kernel owns\<close>

text \<open>
  \<open>T\<close> are the task structures, \<open>U\<close> the tasks with a user stack, and \<open>S\<close> gives their stacks. No
  page has two uses.
\<close>

definition owns :: "mm_state \<Rightarrow> u64 set \<Rightarrow> u64 set \<Rightarrow> (u64 \<Rightarrow> u64) \<Rightarrow> bool" where
  "owns m T U S \<longleftrightarrow> inj_on S U \<and> S ` U \<inter> T = {} \<and> (\<exists>M A L. heap_inv m M A L \<and> T \<union> S ` U \<subseteq> set_mset L)"

lemma ownsI: "inj_on S U \<Longrightarrow> S ` U \<inter> T = {} \<Longrightarrow> heap_inv m M A L \<Longrightarrow> T \<union> S ` U \<subseteq> set_mset L \<Longrightarrow> owns m T U S"
  unfolding owns_def by blast

lemma owns_cong: "(\<And>p. p \<in> U \<Longrightarrow> S p = S' p) \<Longrightarrow> owns m T U S = owns m T U S'"
  by (simp add: owns_def inj_on_def cong: image_cong)

lemma owns_mono: "owns m T U S \<Longrightarrow> T' \<subseteq> T \<Longrightarrow> U' \<subseteq> U \<Longrightarrow> owns m T' U' S"
proof -
  assume o: "owns m T U S" and s: "T' \<subseteq> T" "U' \<subseteq> U"
  have "T' \<union> S ` U' \<subseteq> T \<union> S ` U" using s by auto
  moreover have "inj_on S U'" "S ` U' \<inter> T' = {}" using o s inj_on_subset [of S U U'] by (auto simp: owns_def)
  ultimately show "owns m T' U' S" using o unfolding owns_def by (meson subset_trans)
qed

lemma fresh_page:
  assumes h: "heap_inv m M A L" and r: "kmalloc 4096 m = Inr (m', p)"
  obtains M' A' where "heap_inv m' M' A' (add_mset p L)" "p \<notin># L" "p \<noteq> 0" "heap_range 4096 p"
proof (rule kmalloc_large_step [OF h, of 4096])
  fix s' a M' A' q k
  assume a: "kmalloc 4096 m = Inr (s', a)" "a \<noteq> 0" "heap_range 4096 a" "heap_inv s' M' A' (add_mset a L)"
    "frames (q, k) \<inter> occupied A = {}" "uint a = LOW_MEMORY + q * PAGE_SIZE"
  have q: "in_bookkeep q" using a(3,6) by (auto simp: heap_range_def in_bookkeep_def)
  have w: "word_of_int (LOW_MEMORY + q * PAGE_SIZE) = a" unfolding a(6) [symmetric] by simp
  then have "obj_slot q 4096 a" unfolding obj_slot_def by (intro exI [of _ 0]) simp
  from obj_slot_bounds [OF this _ q] have pfn: "addr_pfn a = q" by simp
  have "a \<notin># L"
  proof
    assume "a \<in># L"
    then obtain j where "(q, j) \<in> A"
      using h live_in_block [of m M A a] pfn by (auto simp: heap_inv_def live_ok_def)
    then have "q \<in> occupied A" unfolding occupied_def by (rule UN_I) simp
    then show False using a(5) frames_self(1) [of q k] by blast
  qed
  then show thesis using that a(1-4) r by simp
qed (use r in simp_all)

lemma owns_page:
  assumes "owns m T U S" "kmalloc 4096 m = Inr (m', p)"
  shows "p \<notin> T" "p \<notin> S ` U" "p \<noteq> 0" "heap_range 4096 p" "owns m' T U S" "owns m' (insert p T) U S"
    "p \<notin> T \<Longrightarrow> owns m' T (insert q U) (S(q := p))"
proof -
  obtain M A L where h: "heap_inv m M A L" and sub: "T \<union> S ` U \<subseteq> set_mset L" and d: "inj_on S U" "S ` U \<inter> T = {}"
    using assms(1) by (auto simp: owns_def)
  obtain M' A' where h': "heap_inv m' M' A' (add_mset p L)" and p: "p \<notin># L" "p \<noteq> 0" "heap_range 4096 p"
    by (rule fresh_page [OF h assms(2)])
  show "p \<notin> T" "p \<notin> S ` U" "p \<noteq> 0" "heap_range 4096 p" using p sub by auto
  have l: "T \<union> S ` U \<subseteq> set_mset (add_mset p L)" "insert p T \<union> S ` U \<subseteq> set_mset (add_mset p L)" using sub by auto
  show "owns m' T U S" unfolding owns_def using d h' l(1) by blast
  show "owns m' (insert p T) U S" unfolding owns_def using d h' l(2) \<open>p \<notin> S ` U\<close> by blast
  have "inj_on (S(q := p)) (insert q U)" using d(1) \<open>p \<notin> S ` U\<close> by (auto simp: inj_on_def)
  moreover have "S(q := p) ` insert q U \<subseteq> insert p (S ` U)" by auto
  ultimately show "owns m' T (insert q U) (S(q := p))"
    unfolding owns_def using h' sub d(2) \<open>p \<notin> T\<close> by (intro conjI exI [of _ M'] exI [of _ A'] exI [of _ "add_mset p L"]) auto
qed

lemma owns_kmalloc:
  assumes "owns m T U S" "kmalloc sz m = Inr (m', p)"
  shows "owns m' T U S"
proof -
  obtain M A L where h: "heap_inv m M A L" and sub: "T \<union> S ` U \<subseteq> set_mset L" and d: "inj_on S U" "S ` U \<inter> T = {}"
    using assms(1) by (auto simp: owns_def)
  have "\<exists>M' A' L'. heap_inv m' M' A' L' \<and> set_mset L \<subseteq> set_mset L'"
    by (cases rule: kmalloc_step [OF h, of sz]) (use assms(2) h in \<open>auto intro!: exI\<close>)
  then show ?thesis unfolding owns_def using sub d by blast
qed

lemma owns_kfree:
  assumes "owns m T U S" "x \<in> T \<union> S ` U"
  obtains m' where "kfree x m = Inr m'" "x \<in> T \<Longrightarrow> owns m' (T - {x}) U S" "\<And>q. q \<in> U \<Longrightarrow> x = S q \<Longrightarrow> owns m' T (U - {q}) S"
proof -
  obtain M A L where h: "heap_inv m M A L" and sub: "T \<union> S ` U \<subseteq> set_mset L" and d: "inj_on S U" "S ` U \<inter> T = {}"
    using assms(1) by (auto simp: owns_def)
  have x: "x \<in># L" using assms(2) sub by auto
  obtain m' M' A' where h': "kfree x m = Inr m'" "heap_inv m' M' A' (L - {#x#})" using kfree_step [OF h x] by blast
  have keep: "set_mset L - {x} \<subseteq> set_mset (L - {#x#})" using insert_DiffM [OF x] by (metis Diff_subset_conv insert_is_Un order_refl set_mset_add_mset_insert)
  have "owns m' (T - {x}) U S" if "x \<in> T"
  proof -
    have "T - {x} \<union> S ` U \<subseteq> set_mset L - {x}" using sub d(2) that by blast
    from subset_trans [OF this keep] show ?thesis by (rule ownsI [OF d(1) _ h'(2), rotated]) (use d(2) in blast)
  qed
  moreover have "owns m' T (U - {q}) S" if q: "q \<in> U" "x = S q" for q
  proof -
    have "T \<union> S ` (U - {q}) \<subseteq> set_mset L - {x}" using sub d q by (auto dest: inj_onD)
    from subset_trans [OF this keep] show ?thesis
      by (rule ownsI [OF _ _ h'(2), rotated 2]) (use d inj_on_subset [of S U "U - {q}"] in auto)
  qed
  ultimately show thesis using that h'(1) by blast
qed

section \<open>Steps\<close>

text \<open>
  Task 0 runs the loop of \<open>main\<close>, of which only the call of \<open>schedule\<close> changes the state: it neither
  waits nor exits nor enters user mode. That \<open>kill_zombies\<close> reads through null pointers there is left
  to the property of the boot sequence. \<open>user_code\<close> is whatever a program in user mode does: it changes user memory,
  registers and the frame it enters the kernel with. A task that waits is not killed; what
  happens otherwise is shown below.
\<close>

inductive kernel_step :: "kernel \<Rightarrow> kernel \<Rightarrow> bool" where
  yield: "schedule k = Inr k' \<Longrightarrow> kernel_step k k'"
| interrupt: "irq_exc_handler env k = Inr k' \<Longrightarrow> kernel_step k k'"
| user_code: "kernel_step k (k\<lparr>mem := m, cpu := c, ptregs := (ptregs k)(task_pt_regs (current k) := r)\<rparr>)"
| thread: "copy_process PF_KTHREAD fn arg 0 k = Inr (k', i) \<Longrightarrow> kernel_step k k'"
| enter_user: "current k \<noteq> task k 0 \<Longrightarrow> move_to_user_mode pc k = Inr (k', err) \<Longrightarrow> kernel_step k k'"
| uart_read: "sys_uart_read buf sz k = Inr (k', n) \<Longrightarrow> kernel_step k k'"
| uart_write: "sys_uart_write buf sz k = Inr (k', n) \<Longrightarrow> kernel_step k k'"
| exec: "sys_exec fuel name argv k = Inr (k', n) \<Longrightarrow> kernel_step k k'"
| fork: "sys_fork k = Inr (k', i) \<Longrightarrow> kernel_step k k'"
| exit: "current k \<noteq> task k 0 \<Longrightarrow> sys_exit k = Inr k' \<Longrightarrow> kernel_step k k'"
| mbox: "sys_mbox_call ch mbox response k = Inr (k', n) \<Longrightarrow> kernel_step k k'"
| kill: "state (tcb k (task k i)) \<noteq> TASK_WAITING \<Longrightarrow> sys_kill i k = Inr k' \<Longrightarrow> kernel_step k k'"
| malloc: "sys_malloc bytes k = Inr (k', a) \<Longrightarrow> kernel_step k k'"
| print_text: "kernel_step k (kprintf fmt va k)"
| timer_on: "kernel_step k (sys_coreTimer_on freq k)"
| timer_off: "kernel_step k (sys_coreTimer_off k)"
| block_read: "current k \<noteq> task k 0 \<Longrightarrow> block_uart_read k = Inr k' \<Longrightarrow> kernel_step k k'"

inductive_cases kernel_stepE: "kernel_step k k'"

section \<open>The invariant\<close>

definition stack_users :: "kernel \<Rightarrow> u64 set" where
  "stack_users k = {p \<in> live_tasks k. state (tcb k p) \<noteq> TASK_ZOMBIE \<and> stack (tcb k p) \<noteq> 0}"

definition waiters_ok :: "kernel \<Rightarrow> bool" where
  "waiters_ok k \<longleftrightarrow> (\<exists>ws. wait_ok k ws \<and> (\<forall>p\<in>set ws. p \<in> live_tasks k \<and> state (tcb k p) = TASK_WAITING))"

definition memory_ok :: "kernel \<Rightarrow> bool" where
  "memory_ok k \<longleftrightarrow> uint (task k 0) < LOW_MEMORY \<and>
     owns (kmm k) (live_tasks k - {task k 0}) (stack_users k) (\<lambda>p. stack (tcb k p))"

definition kernel_inv :: "kernel \<Rightarrow> bool" where
  "kernel_inv k \<longleftrightarrow> ready k \<and> runnable k (current k) \<and> runnable k (task k 0) \<and> memory_ok k \<and> waiters_ok k \<and>
     kernel_shell_status k \<noteq> 1 \<and> \<not> isTimerMultiplexingEventIRQ (ktimer k)"

lemma memory_ok_cong:
  assumes "task k' = task k" "kmm k' = kmm k" "\<And>p. p \<in> live_tasks k \<Longrightarrow> stack (tcb k' p) = stack (tcb k p)"
    "\<And>p. p \<in> live_tasks k \<Longrightarrow> (state (tcb k' p) = TASK_ZOMBIE) = (state (tcb k p) = TASK_ZOMBIE)"
  shows "memory_ok k' = memory_ok k"
proof -
  have u: "stack_users k' = stack_users k"
    using assms(3,4) live_cong(2) [OF assms(1)] by (auto simp: stack_users_def)
  have "owns m T (stack_users k) (\<lambda>p. stack (tcb k' p)) = owns m T (stack_users k) (\<lambda>p. stack (tcb k p))" for m T
    by (rule owns_cong) (use assms(3) in \<open>auto simp: stack_users_def\<close>)
  then show ?thesis by (simp add: memory_ok_def u assms(1,2) live_cong(2) [OF assms(1)])
qed

lemma waiters_ok_cong:
  assumes "task k' = task k" "wlinks k' = wlinks k" "wprivate k' = wprivate k" "\<And>p. p \<in> live_tasks k \<Longrightarrow> state (tcb k' p) = state (tcb k p)"
  shows "waiters_ok k' = waiters_ok k"
proof -
  have "wait_ok k' ws = wait_ok k ws" for ws by (simp add: wait_ok_def assms(2,3))
  moreover have "(\<forall>p\<in>set ws. p \<in> live_tasks k \<and> state (tcb k' p) = TASK_WAITING) \<longleftrightarrow>
      (\<forall>p\<in>set ws. p \<in> live_tasks k \<and> state (tcb k p) = TASK_WAITING)" for ws using assms(4) by auto
  ultimately show ?thesis by (simp add: waiters_ok_def live_cong(2) [OF assms(1)])
qed

text \<open>Steps that touch no task and no queue.\<close>

lemma kernel_inv_frame:
  assumes inv: "kernel_inv k"
    and f: "task k' = task k" "nr_tasks k' = nr_tasks k" "current k' = current k" "tcb k' = tcb k" "wlinks k' = wlinks k"
      "wprivate k' = wprivate k" "kernel_shell_status k' = kernel_shell_status k"
      "isTimerMultiplexingEventIRQ (ktimer k') = isTimerMultiplexingEventIRQ (ktimer k)"
    and o: "\<And>T U S. owns (kmm k) T U S \<Longrightarrow> owns (kmm k') T U S"
  shows "kernel_inv k'"
proof -
  have l: "live_tasks k' = live_tasks k" by (rule live_cong(2) [OF f(1)])
  have "ready k'" using inv sched_inv_cong [of k' k] f by (simp add: kernel_inv_def ready_def)
  moreover have "memory_ok k'" using inv o f by (simp add: kernel_inv_def memory_ok_def l stack_users_def)
  moreover have "waiters_ok k'" using inv waiters_ok_cong [of k' k] f by (simp add: kernel_inv_def)
  ultimately show ?thesis using inv f l by (simp add: kernel_inv_def runnable_def)
qed

lemma kernel_inv_switch:
  assumes inv: "kernel_inv k" and s: "same_tasks k k'" "ready k'" "runnable k (current k')"
  shows "kernel_inv k'"
proof -
  have f: "task k' = task k" "\<And>p. state (tcb k' p) = state (tcb k p)" "\<And>p. stack (tcb k' p) = stack (tcb k p)"
    "wlinks k' = wlinks k" "wprivate k' = wprivate k" "ktimer k' = ktimer k" "kernel_shell_status k' = kernel_shell_status k"
    using s(1) by (simp_all add: same_tasks_def)
  have "memory_ok k'" "waiters_ok k'"
    using inv memory_ok_cong [of k' k] waiters_ok_cong [of k' k] f by (simp_all add: kernel_inv_def)
  then show ?thesis
    using inv s f same_tasks_runnable [OF s(1)] by (simp add: kernel_inv_def)
qed

text \<open>What a switch and an interrupt leave alone: the pool, the frames and the messages with arguments.\<close>

definition reports :: "kernel \<Rightarrow> (string \<times> vararg list) list" where
  "reports k = filter (\<lambda>l. snd l \<noteq> []) (console k)"

definition same_pool :: "kernel \<Rightarrow> kernel \<Rightarrow> bool" where
  "same_pool k k' \<longleftrightarrow> task k' = task k \<and> nr_tasks k' = nr_tasks k \<and> kmm k' = kmm k \<and> ptregs k' = ptregs k \<and> reports k' = reports k \<and>
     (\<forall>p. stack (tcb k' p) = stack (tcb k p) \<and> pid (tcb k' p) = pid (tcb k p) \<and>
        (state (tcb k' p) = TASK_ZOMBIE) = (state (tcb k p) = TASK_ZOMBIE))"

definition same_slots :: "kernel \<Rightarrow> kernel \<Rightarrow> bool" where
  "same_slots k k' \<longleftrightarrow> task k' = task k \<and> nr_tasks k' = nr_tasks k \<and> reports k' = reports k \<and> (\<forall>p. pid (tcb k' p) = pid (tcb k p))"

lemma same_pool_slots: "same_pool k k' \<Longrightarrow> same_slots k k'"
  by (simp add: same_pool_def same_slots_def)

lemma reports_cong: "console k' = console k \<Longrightarrow> reports k' = reports k"
  by (simp add: reports_def)

lemma same_poolI: "same_tasks k k' \<Longrightarrow> same_pool k k'"
  by (simp add: same_pool_def same_tasks_def reports_def)

lemma same_pool_trans: "same_pool k k1 \<Longrightarrow> same_pool k1 k2 \<Longrightarrow> same_pool k k2"
  by (simp add: same_pool_def)

lemma schedule_inv:
  assumes "kernel_inv k"
  obtains k' where "schedule k = Inr k'" "kernel_inv k'" "same_pool k k'"
proof -
  have "ready k" "runnable k (current k)" using assms by (simp_all add: kernel_inv_def)
  then obtain k' where "schedule k = Inr k'" "ready k'" "same_tasks k k'" "runnable k (current k')"
    using schedule_round by metis
  then show thesis using that kernel_inv_switch [OF assms] same_poolI by blast
qed

section \<open>Interrupts\<close>

lemma task_preemption_inv:
  assumes "kernel_inv k"
  obtains k' where "task_preemption k = Inr k'" "kernel_inv k'" "same_pool k k'"
proof (cases "0 < counter (tcb k (current k)) \<or> 0 < preempt_count (tcb k (current k))")
  case True
  then show thesis using that assms by (simp add: task_preemption_def same_pool_def)
next
  case False
  then have "task_preemption k = schedule k" by (simp add: task_preemption_def schedule_def)
  then show thesis using schedule_inv [OF assms] that by metis
qed

lemma timer_tick_inv:
  assumes inv: "kernel_inv k"
  shows "kernel_inv (timer_tick k)" "same_pool k (timer_tick k)"
proof -
  let ?k = "timer_tick k"
  have s: "same_tasks k ?k" by (simp add: timer_tick_def same_tasks_def)
  have c: "current ?k = current k" "\<And>p. preempt_count (tcb ?k p) = preempt_count (tcb k p)"
    "\<And>p. counter (tcb ?k p) = (if p = current k then counter (tcb k p) - 1 else counter (tcb k p))"
    by (simp_all add: timer_tick_def)
  have r: "sched_inv k" "preempt_count (tcb k (current k)) = 0" using inv by (simp_all add: kernel_inv_def ready_def)
  have pool: "pool_ok k" using r(1) by (simp add: sched_inv_def)
  then have "counter (tcb ?k p) \<le> 2 * priority (tcb k p)" if "p \<in> live_tasks k" for p
    using that unfolding c by (auto simp: pool_ok_def live_tasks_def)
  then have "pool_ok ?k" using same_tasks_pool [OF pool s] by blast
  then have "ready ?k" using r by (simp add: ready_def sched_inv_def same_tasks_live(2) [OF s] c)
  moreover have "runnable k (current ?k)" using inv by (simp add: kernel_inv_def c)
  ultimately show "kernel_inv ?k" by (rule kernel_inv_switch [OF inv s])
  show "same_pool k ?k" by (rule same_poolI [OF s])
qed

lemma wake_up_from_console: "wake_up_from n h pos k = Inr k' \<Longrightarrow> console k' = console k"
proof (induction n arbitrary: pos k)
  case (Suc n)
  then show ?case by (fastforce simp: wake_up_from.simps(2) remove_wait_queue_def Let_def split: if_splits)
qed simp

lemma wake_up_inv:
  assumes inv: "kernel_inv k"
  obtains k' where "wake_up Wait_Head k = Inr k'" "kernel_inv k'" "same_pool k k'"
proof -
  obtain ws where w: "wait_ok k ws" "\<forall>p\<in>set ws. p \<in> live_tasks k \<and> state (tcb k p) = TASK_WAITING"
    using inv by (auto simp: kernel_inv_def waiters_ok_def)
  have "sched_inv k" using inv by (simp add: kernel_inv_def ready_def)
  from wake_up_step [OF w(1) this] obtain k' where k': "wake_up Wait_Head k = Inr k'" "sched_inv k'" "wait_ok k' []"
    "\<forall>p. tcb k' p = (if p \<in> set ws then (tcb k p)\<lparr>state := TASK_RUNNING\<rparr> else tcb k p)" "same_but_tasks k k'" by blast
  have f: "task k' = task k" "current k' = current k" "ktimer k' = ktimer k" "kernel_shell_status k' = kernel_shell_status k"
    using k'(5) by (simp_all add: same_but_tasks_def)
  have "memory_ok k'"
    using memory_ok_cong [of k' k] f w(2) k'(4) inv by (simp add: kernel_inv_def)
  moreover have "waiters_ok k'" using k'(3) by (auto simp: waiters_ok_def intro: exI [of _ "[]"])
  moreover have "runnable k' p" if "runnable k p" for p
    using that k'(4) live_cong(2) [OF f(1)] by (simp add: runnable_def)
  ultimately have "kernel_inv k'" using inv k'(2,4) f by (simp add: kernel_inv_def ready_def)
  moreover have "reports k' = reports k"
    using k'(1) unfolding wake_up_def by (intro reports_cong) (rule wake_up_from_console)
  then have "same_pool k k'" using k'(4,5) w(2) by (simp add: same_pool_def same_but_tasks_def)
  ultimately show thesis using that k'(1) by blast
qed

lemma irq_inv:
  assumes inv: "kernel_inv k"
  obtains k' where "irq_exc_handler env k = Inr k'" "kernel_inv k'" "same_pool k k'"
proof -
  have "\<exists>k1. irq_exc_router env k = Inr k1 \<and> kernel_inv k1 \<and> same_pool k k1"
  proof -
    have st: "kernel_shell_status k \<noteq> 1" "\<not> isTimerMultiplexingEventIRQ (ktimer k)" using inv by (simp_all add: kernel_inv_def)
    obtain k2 where k2: "wake_up Wait_Head k = Inr k2" "kernel_inv k2" "same_pool k k2" by (rule wake_up_inv [OF inv])
    have a: "kernel_inv (k2\<lparr>uart := disable_uart_read_interrupt (uart k2)\<rparr>)" "same_pool k (k2\<lparr>uart := disable_uart_read_interrupt (uart k2)\<rparr>)"
      using k2(3) by (auto simp: same_pool_def reports_def intro: kernel_inv_frame [OF k2(2)])
    let ?k = "k\<lparr>ktimer := core_timer_handler (irq_freq env) (ktimer k)\<rparr>"
    have "kernel_inv ?k" by (rule kernel_inv_frame [OF inv]) (simp_all add: core_timer_handler_def)
    moreover have "same_pool k ?k" by (simp add: same_pool_def reports_def core_timer_handler_def)
    ultimately have b: "kernel_inv (timer_tick ?k)" "same_pool k (timer_tick ?k)"
      using timer_tick_inv [of ?k] same_pool_trans [of k ?k] by simp_all
    have c: "kernel_inv (kprintf fmt va k)" for fmt va by (rule kernel_inv_frame [OF inv]) simp_all
    have d: "same_pool k (kprintf fmt [] k)" for fmt by (simp add: same_pool_def reports_def) (simp add: kprintf_def)
    show ?thesis
      using st k2(1) a b c d by (simp add: irq_exc_router_def uart_read_irq_wakeUp_handler_def)
  qed
  then obtain k1 where k1: "irq_exc_router env k = Inr k1" "kernel_inv k1" "same_pool k k1" by blast
  then show thesis
    using that task_preemption_inv [OF k1(2)] same_pool_trans by (metis irq_exc_handler_def bind_result_simps(2))
qed

section \<open>Tasks\<close>

text \<open>A new task in a page of its own.\<close>

lemma new_task_inv:
  assumes inv: "kernel_inv k" and i: "first_free k i" and p: "p \<noteq> 0" "p \<notin> live_tasks k"
    and k': "task k' = (task k)(i := p)" "nr_tasks k' = nr_tasks k + 1" "tcb k' = (tcb k)(p := new_task p fl fn arg stk i k)"
      "current k' = current k" "wlinks k' = wlinks k" "wprivate k' = wprivate k" "kernel_shell_status k' = kernel_shell_status k"
      "isTimerMultiplexingEventIRQ (ktimer k') = isTimerMultiplexingEventIRQ (ktimer k)"
    and o: "owns (kmm k') (insert p (live_tasks k - {task k 0}))
      (if fl AND PF_KTHREAD \<noteq> 0 \<or> stk = 0 then stack_users k else insert p (stack_users k)) ((\<lambda>q. stack (tcb k q))(p := stk))"
  shows "kernel_inv k'"
proof -
  have r: "sched_inv k" "preempt_count (tcb k (current k)) = 0" using inv by (simp_all add: kernel_inv_def ready_def)
  then have cur: "current k \<in> live_tasks k" and pool: "pool_ok k" by (simp_all add: sched_inv_def)
  have pr: "1 \<le> priority (tcb k (current k)) \<and> priority (tcb k (current k)) < 2 ^ 29"
    using cur pool by (auto simp: pool_ok_def live_tasks_def)
  have a: "sched_inv k'" "live_tasks k' = insert p (live_tasks k)"
    using pr by (rule_tac [1-2] add_task_inv [OF r(1) i p, of "new_task p fl fn arg stk i k"], simp_all add: new_task_def k')
  have z: "task k' 0 = task k 0" "task k 0 \<in> live_tasks k" "p \<noteq> task k 0"
    using i inv p pool by (auto simp: k' first_free_def pool_ok_def kernel_inv_def runnable_def)
  have old: "tcb k' q = tcb k q" if "q \<in> live_tasks k" for q using that p(2) by (auto simp: k')
  have u: "stack_users k' = (if fl AND PF_KTHREAD \<noteq> 0 \<or> stk = 0 then stack_users k else insert p (stack_users k))"
    using p(2) by (auto simp: stack_users_def a(2) k' new_task_def)
  have "owns (kmm k') (live_tasks k' - {task k 0}) (stack_users k') (\<lambda>q. stack (tcb k' q))"
  proof -
    have T: "live_tasks k' - {task k 0} = insert p (live_tasks k - {task k 0})" using z by (auto simp: a(2))
    have "owns (kmm k') (live_tasks k' - {task k 0}) (stack_users k') ((\<lambda>q. stack (tcb k q))(p := stk))"
      unfolding T u by (rule o)
    moreover have "stack (tcb k' q) = ((\<lambda>q. stack (tcb k q))(p := stk)) q" if "q \<in> stack_users k'" for q
      using that p(2) by (auto simp: u k' new_task_def stack_users_def split: if_splits)
    ultimately show ?thesis by (simp cong: owns_cong)
  qed
  then have "memory_ok k'" using inv z by (simp add: memory_ok_def kernel_inv_def)
  moreover have "waiters_ok k'"
  proof -
    obtain ws where "wait_ok k ws" "\<forall>q\<in>set ws. q \<in> live_tasks k \<and> state (tcb k q) = TASK_WAITING"
      using inv by (auto simp: kernel_inv_def waiters_ok_def)
    then show ?thesis using old by (auto simp: waiters_ok_def wait_ok_def a(2) k'(5,6) intro!: exI [of _ ws])
  qed
  moreover have "runnable k' q" if "runnable k q" for q using that old by (simp add: runnable_def a(2))
  moreover have "preempt_count (tcb k' (current k')) = 0" using r(2) old cur by (simp add: k'(4))
  ultimately show ?thesis using inv a(1) k' z(1) by (simp add: kernel_inv_def ready_def)
qed

lemma page_not_task:
  assumes "kernel_inv k" "kmalloc 4096 (kmm k) = Inr (m, p)"
  shows "p \<noteq> 0" "p \<notin> live_tasks k" "p \<noteq> current k"
    "owns m (live_tasks k - {task k 0}) (stack_users k) (\<lambda>q. stack (tcb k q))"
    "owns m (insert p (live_tasks k - {task k 0})) (stack_users k) (\<lambda>q. stack (tcb k q))"
    "owns m (live_tasks k - {task k 0}) (insert q (stack_users k)) ((\<lambda>q. stack (tcb k q))(q := p))"
proof -
  have o: "owns (kmm k) (live_tasks k - {task k 0}) (stack_users k) (\<lambda>q. stack (tcb k q))" and z: "uint (task k 0) < LOW_MEMORY"
    and c: "current k \<in> live_tasks k" using assms(1) by (simp_all add: kernel_inv_def memory_ok_def runnable_def)
  note p = owns_page [OF o assms(2)]
  show "p \<noteq> 0" by (rule p(3))
  show n: "p \<notin> live_tasks k" using p(1,4) z by (auto simp: heap_range_def)
  then show "p \<noteq> current k" using c by blast
  show "owns m (live_tasks k - {task k 0}) (stack_users k) (\<lambda>q. stack (tcb k q))"
    "owns m (insert p (live_tasks k - {task k 0})) (stack_users k) (\<lambda>q. stack (tcb k q))"
    "owns m (live_tasks k - {task k 0}) (insert q (stack_users k)) ((\<lambda>q. stack (tcb k q))(q := p))"
    using p(5-7) n by simp_all
qed

lemma free_slot:
  assumes "copy_process fl fn arg stk k = Inr r" "sched_inv k" "kmalloc 4096 (kmm k) = Inr (m, p)" "p \<noteq> 0" "p \<notin> live_tasks k"
  obtains i where "first_free k i"
proof -
  have "\<exists>i. 0 \<le> i \<and> i < NR_TASKS \<and> task k i = 0"
    using copy_process_step(2) [OF assms(2-5), of fl fn arg stk] assms(1) by auto
  then show thesis using that first_free_exists by metis
qed

lemma thread_obtain:
  assumes inv: "kernel_inv k" and r: "copy_process PF_KTHREAD fn arg 0 k = Inr (k', i)"
  obtains m p where "p \<noteq> 0" "p \<notin> live_tasks k" "first_free k i"
    "owns m (insert p (live_tasks k - {task k 0})) (stack_users k) ((\<lambda>q. stack (tcb k q))(p := 0))"
    "k' = k\<lparr>ktimer := (ktimer k)\<lparr>tm_mm := m\<rparr>, task := (task k)(i := p), nr_tasks := nr_tasks k + 1,
      tcb := (tcb k)(p := new_task p PF_KTHREAD fn arg 0 i k), ptregs := (ptregs k)(task_pt_regs p := new_frame PF_KTHREAD 0 k)\<rparr>"
proof -
  obtain m p where km: "kmalloc 4096 (kmm k) = Inr (m, p)"
    using r by (cases "kmalloc 4096 (kmm k)") (auto simp: copy_process_def k_malloc_def)
  note p = page_not_task [OF inv km]
  have s: "sched_inv k" using inv by (simp add: kernel_inv_def ready_def)
  obtain j where j: "first_free k j" by (rule free_slot [OF r s km p(1,2)])
  have km': "kmalloc PAGE_SIZE (kmm k) = Inr (m, p)" using km by simp
  note k' = copy_process_eq [OF km' p(1,3) j, of PF_KTHREAD fn arg 0]
  have "owns m (insert p (live_tasks k - {task k 0})) (stack_users k) ((\<lambda>q. stack (tcb k q))(p := 0))"
    by (subst owns_cong [where S' = "\<lambda>q. stack (tcb k q)"]) (use p(2,5) in \<open>auto simp: stack_users_def\<close>)
  then show thesis using that [OF p(1,2), of m] r k' j by auto
qed

lemma thread_inv:
  assumes inv: "kernel_inv k" and r: "copy_process PF_KTHREAD fn arg 0 k = Inr (k', i)"
  shows "kernel_inv k'"
  by (rule thread_obtain [OF inv r]) (rule new_task_inv [OF inv], auto)

lemma fork_obtain:
  assumes inv: "kernel_inv k" and r: "sys_fork k = Inr (k', i)"
  obtains m1 stk m2 p where "kmalloc PAGE_SIZE (kmm k) = Inr (m1, stk)" "kmalloc PAGE_SIZE m1 = Inr (m2, p)"
    "stk \<noteq> 0" "p \<noteq> 0" "p \<notin> live_tasks k" "p \<noteq> current k" "first_free k i"
    "owns m2 (insert p (live_tasks k - {task k 0})) (insert p (stack_users k)) ((\<lambda>q. stack (tcb k q))(p := stk))"
    "k' = k\<lparr>ktimer := (ktimer k)\<lparr>tm_mm := m2\<rparr>, mem := memcpy stk (stack (tcb k (current k))) PAGE_SIZE (mem k),
      task := (task k)(i := p), nr_tasks := nr_tasks k + 1, tcb := (tcb k)(p := new_task p 0 0 0 stk i k),
      ptregs := (ptregs k)(task_pt_regs p := forked_frame stk k)\<rparr>"
proof -
  obtain m1 stk where k1: "kmalloc 4096 (kmm k) = Inr (m1, stk)"
    using r by (cases "kmalloc 4096 (kmm k)") (auto simp: sys_fork_def k_malloc_def)
  then obtain r1 where r1: "copy_process 0 0 0 stk (set_mm m1 (preempt_disable k)) = Inr r1"
    using r by (cases "copy_process 0 0 0 stk (set_mm m1 (preempt_disable k))") (auto simp: sys_fork_def k_malloc_def)
  then obtain m2 p where k2: "kmalloc 4096 m1 = Inr (m2, p)"
    by (cases "kmalloc 4096 m1") (auto simp: copy_process_def k_malloc_def)
  have s: "sched_inv k" "uint (task k 0) < LOW_MEMORY" "current k \<in> live_tasks k"
    using inv by (simp_all add: kernel_inv_def ready_def memory_ok_def runnable_def)
  note o1 = page_not_task [OF inv k1]
  note o2 = owns_page [OF o1(6) k2]
  have p: "p \<notin> live_tasks k" using o2(1,4) s(2) by (auto simp: heap_range_def)
  then have pc: "p \<noteq> current k" using s(3) by blast
  let ?k1 = "set_mm m1 (preempt_disable k)"
  have "sched_inv ?k1" using sched_inv_cong [of ?k1 k] s(1) by (simp add: preempt_tcb)
  moreover have "live_tasks ?k1 = live_tasks k" by (rule live_cong(2)) simp
  ultimately obtain j where "first_free ?k1 j"
    using free_slot [OF r1, of m2 p] k2 o2(3) p by auto
  then have j: "first_free k j" by (simp add: first_free_def)
  have eq: "kmalloc PAGE_SIZE (kmm k) = Inr (m1, stk)" "kmalloc PAGE_SIZE m1 = Inr (m2, p)" using k1 k2 by simp_all
  have "i = j" using r sys_fork_run [OF eq o2(3) pc j] by simp
  with r sys_fork_run [OF eq o2(3) pc j] show thesis
    using that [OF eq o1(1) o2(3) p pc _ o2(6)] j by auto
qed

lemma fork_inv:
  assumes inv: "kernel_inv k" and r: "sys_fork k = Inr (k', i)"
  shows "kernel_inv k'"
  by (rule fork_obtain [OF inv r]) (rule new_task_inv [OF inv], auto)

lemma enter_user_inv:
  assumes inv: "kernel_inv k" and c: "current k \<noteq> task k 0" and r: "move_to_user_mode pc k = Inr (k', err)"
  shows "kernel_inv k'" "same_slots k k'" "err = 0" "current k' = current k"
proof -
  obtain m p where km: "kmalloc 4096 (kmm k) = Inr (m, p)"
    using r by (cases "kmalloc 4096 (kmm k)") (auto simp: move_to_user_mode_def k_malloc_def)
  note p = page_not_task [OF inv km]
  have f: "task k' = task k" "nr_tasks k' = nr_tasks k" "current k' = current k" "wlinks k' = wlinks k" "wprivate k' = wprivate k"
    "kernel_shell_status k' = kernel_shell_status k" "ktimer k' = (ktimer k)\<lparr>tm_mm := m\<rparr>"
    "tcb k' = (tcb k)(current k := (tcb k (current k))\<lparr>stack := p\<rparr>)" "console k' = console k"
    using r km p(1) by (auto simp: move_to_user_mode_def k_malloc_def Let_def)
  show "err = 0" using r km p(1) by (auto simp: move_to_user_mode_def k_malloc_def Let_def)
  show "same_slots k k'" using f by (simp add: same_slots_def reports_def)
  show "current k' = current k" by (rule f(3))
  have l: "live_tasks k' = live_tasks k" by (rule live_cong(2) [OF f(1)])
  have rd: "ready k" "runnable k (current k)" using inv by (simp_all add: kernel_inv_def)
  have "ready k'" using rd(1) sched_inv_cong [of k' k] f by (simp add: ready_def)
  moreover have "memory_ok k'"
  proof -
    have "stack_users k' = insert (current k) (stack_users k)"
      using rd(2) p(1) by (auto simp: stack_users_def l f(8) runnable_def)
    moreover have "(\<lambda>q. stack (tcb k' q)) = (\<lambda>q. stack (tcb k q))(current k := p)" by (auto simp: f(8))
    ultimately show ?thesis using p(6) [of "current k"] inv f(7) by (simp add: memory_ok_def kernel_inv_def l f(1))
  qed
  moreover have "waiters_ok k'" using inv waiters_ok_cong [of k' k] f by (simp add: kernel_inv_def)
  ultimately show "kernel_inv k'" using inv f l by (simp add: kernel_inv_def runnable_def)
qed

lemma exit_inv:
  assumes inv: "kernel_inv k" and c: "current k \<noteq> task k 0"
  obtains k' where "exit_process k = Inr k'" "kernel_inv k'" "same_slots k k'"
proof -
  let ?c = "current k"
  have s: "sched_inv k" "preempt_count (tcb k ?c) = 0" "runnable k ?c" "runnable k (task k 0)"
    using inv by (simp_all add: kernel_inv_def ready_def)
  have o: "owns (kmm k) (live_tasks k - {task k 0}) (stack_users k) (\<lambda>q. stack (tcb k q))"
    using inv by (simp add: kernel_inv_def memory_ok_def)
  have "\<exists>m. (if stack (tcb k ?c) = 0 then m = kmm k else kfree (stack (tcb k ?c)) (kmm k) = Inr m) \<and>
      owns m (live_tasks k - {task k 0}) (stack_users k - {?c}) (\<lambda>q. stack (tcb k q))"
  proof (cases "stack (tcb k ?c) = 0")
    case True
    then show ?thesis using owns_mono [OF o, of _ "stack_users k - {?c}"] by auto
  next
    case False
    then have u: "?c \<in> stack_users k" using s(3) by (simp add: stack_users_def runnable_def)
    then show ?thesis using owns_kfree [OF o, of "stack (tcb k ?c)"] False by auto
  qed
  then obtain m where m: "if stack (tcb k ?c) = 0 then m = kmm k else kfree (stack (tcb k ?c)) (kmm k) = Inr m"
    "owns m (live_tasks k - {task k 0}) (stack_users k - {?c}) (\<lambda>q. stack (tcb k q))" by blast
  show thesis
  proof (rule exit_process_step [OF s(1,2,4) _ m(1)])
    fix k'
    assume k': "exit_process k = Inr k'" "ready k'" "runnable k (current k')" "current k' \<noteq> ?c" "task k' = task k"
      "ktimer k' = (ktimer k)\<lparr>tm_mm := m\<rparr>" "wlinks k' = wlinks k" "wprivate k' = wprivate k"
      "kernel_shell_status k' = kernel_shell_status k"
      "\<forall>q. state (tcb k' q) = (if q = ?c then TASK_ZOMBIE else state (tcb k q)) \<and> stack (tcb k' q) = stack (tcb k q)" "\<forall>q. pid (tcb k' q) = pid (tcb k q)" "console k' = console k" "nr_tasks k' = nr_tasks k"
    have l: "live_tasks k' = live_tasks k" by (rule live_cong(2) [OF k'(5)])
    have sl: "same_slots k k'" using k'(5,11-13) by (simp add: same_slots_def reports_def)
    have "stack_users k' = stack_users k - {?c}" using k'(10) by (auto simp: stack_users_def l)
    then have "memory_ok k'" using m(2) k' inv by (simp add: memory_ok_def l kernel_inv_def)
    moreover have "waiters_ok k'"
    proof -
      obtain ws where ws: "wait_ok k ws" "\<forall>q\<in>set ws. q \<in> live_tasks k \<and> state (tcb k q) = TASK_WAITING"
        using inv by (auto simp: kernel_inv_def waiters_ok_def)
      then have "?c \<notin> set ws" using s(3) by (auto simp: runnable_def)
      then show ?thesis using ws k'(7,8,10) by (auto simp: waiters_ok_def wait_ok_def l intro!: exI [of _ ws])
    qed
    moreover have "runnable k' q" if "runnable k q" "q \<noteq> ?c" for q using that k'(10) by (simp add: runnable_def l)
    ultimately have "kernel_inv k'" using inv k' c by (simp add: kernel_inv_def)
    then show thesis using that k'(1) sl by blast
  qed (use c in auto)
qed

lemma kill_inv:
  assumes inv: "kernel_inv k" and w: "state (tcb k (task k i)) \<noteq> TASK_WAITING" and r: "sys_kill i k = Inr k'"
  shows "kernel_inv k'"
proof -
  have s: "sched_inv k" "preempt_count (tcb k (current k)) = 0" "runnable k (current k)" "runnable k (task k 0)"
    using inv by (simp_all add: kernel_inv_def ready_def)
  have o: "owns (kmm k) (live_tasks k - {task k 0}) (stack_users k) (\<lambda>q. stack (tcb k q))"
    using inv by (simp add: kernel_inv_def memory_ok_def)
  have pool: "pool_ok k" using s(1) by (simp add: sched_inv_def)
  consider (self) "pid (tcb k (current k)) = i" | (idle) "pid (tcb k (current k)) \<noteq> i" "i = 0"
    | (other) "pid (tcb k (current k)) \<noteq> i" "i \<noteq> 0" by blast
  then show ?thesis
  proof cases
    case self
    then show ?thesis using r by (auto simp: sys_kill_def intro!: kernel_inv_frame [OF inv])
  next
    case idle
    let ?k1 = "kprintf ''[sys_kill] You can't kill idle thread'' [] k"
    have "same_but_tasks ?k1 k'" "tcb k' = tcb ?k1" "wlinks k' = wlinks ?k1"
      using r idle dumpTasksState_fields [of ?k1] by (auto simp: sys_kill_def)
    then show ?thesis by (intro kernel_inv_frame [OF inv]) (simp_all add: same_but_tasks_def)
  next
    case other
    let ?p = "task k i"
    have i: "i \<in> live k" using r other by (auto simp: sys_kill_def task_at_def deref_def live_def split: if_splits)
    then have lp: "?p \<in> live_tasks k" by (simp add: live_tasks_def)
    have np: "?p \<noteq> current k" using other(1) i s(3) pool by (auto simp: pool_ok_def runnable_def live_tasks_def)
    have "0 \<in> live k" using pool by (simp add: live_def pool_ok_def)
    then have n0: "?p \<noteq> task k 0" using inj_onD [of "task k" "live k" i 0] i other(2) pool by (auto simp: pool_ok_def)
    have mem: "?p \<in> live_tasks k - {task k 0}" using lp n0 by simp
    then obtain m where m: "kfree ?p (kmm k) = Inr m"
      "owns m (live_tasks k - {task k 0} - {?p}) (stack_users k) (\<lambda>q. stack (tcb k q))"
      using owns_kfree [OF o, of ?p] by auto
    obtain k2 where k2: "sys_kill i k = Inr k2" "sched_inv k2" "live_tasks k2 = live_tasks k - {?p}" "task k2 0 = task k 0"
      "ktimer k2 = (ktimer k)\<lparr>tm_mm := m\<rparr>" "current k2 = current k" "\<forall>q. q \<noteq> ?p \<longrightarrow> tcb k2 q = tcb k q"
      "wlinks k2 = wlinks k" "wprivate k2 = wprivate k" "kernel_shell_status k2 = kernel_shell_status k"
      by (rule sys_kill_step [OF s(1) i other(2) np m(1)], rule that)
    have e: "k2 = k'" using r k2(1) by simp
    have "stack_users k' = stack_users k - {?p}" using k2(3,7) by (auto simp: stack_users_def e)
    moreover have "owns m (live_tasks k - {?p} - {task k 0}) (stack_users k - {?p}) (\<lambda>q. stack (tcb k' q))"
      by (subst owns_cong [where S' = "\<lambda>q. stack (tcb k q)"])
        (use k2(7) in \<open>auto simp: e intro: owns_mono [OF m(2)]\<close>)
    ultimately have "memory_ok k'" using k2(3-5) inv by (simp add: memory_ok_def kernel_inv_def e)
    moreover have "waiters_ok k'"
    proof -
      obtain ws where ws: "wait_ok k ws" "\<forall>q\<in>set ws. q \<in> live_tasks k \<and> state (tcb k q) = TASK_WAITING"
        using inv by (auto simp: kernel_inv_def waiters_ok_def)
      then have np: "?p \<notin> set ws" using w by auto
      have "tcb k' q = tcb k q" if "q \<in> set ws" for q
      proof -
        have "q \<noteq> ?p" using np that by blast
        then show ?thesis using k2(7) by (simp add: e)
      qed
      then show ?thesis using ws k2(3,8,9) np by (auto simp: waiters_ok_def wait_ok_def e intro!: exI [of _ ws])
    qed
    moreover have "runnable k' q" if "runnable k q" "q \<noteq> ?p" for q using that k2(3,7) by (simp add: runnable_def e)
    moreover have "preempt_count (tcb k' (current k')) = 0" using s(2) k2(6,7) np by (simp add: e)
    ultimately show ?thesis using inv s n0 np k2(2,4-6,10) by (simp add: kernel_inv_def ready_def e)
  qed
qed

lemma wait_inv:
  assumes inv: "kernel_inv k" and c: "current k \<noteq> task k 0"
  obtains k' where "wait Wait_Head k = Inr k'" "kernel_inv k'"
proof -
  let ?c = "current k"
  have s: "sched_inv k" "preempt_count (tcb k ?c) = 0" "runnable k ?c" "runnable k (task k 0)"
    using inv by (simp_all add: kernel_inv_def ready_def)
  obtain ws where ws: "wait_ok k ws" "\<forall>q\<in>set ws. q \<in> live_tasks k \<and> state (tcb k q) = TASK_WAITING"
    using inv by (auto simp: kernel_inv_def waiters_ok_def)
  have nc: "?c \<notin> set ws" using ws(2) s(3) by (auto simp: runnable_def)
  have "distinct ws" using ws(1) by (simp add: wait_ok_def dlist_def distinct_map)
  moreover have "set ws \<subseteq> task k ` {0..<NR_TASKS}" using ws(2) by (auto simp: live_tasks_image)
  moreover have "card (task k ` {0..<NR_TASKS}) \<le> 64" using card_image_le [of "{0..<NR_TASKS}" "task k"] by simp
  ultimately have "length ws \<le> 64" by (metis card_mono distinct_card finite_imageI finite_atLeastLessThan_int le_trans)
  then have len: "length ws < WALK_BOUND" by (simp add: WALK_BOUND_def)
  show thesis
  proof (rule wait_step [OF s(1,2) ws(1) len nc])
    show "\<exists>p. runnable k p \<and> p \<noteq> ?c" using s(4) c by auto
  next
    fix k'
    assume k': "wait Wait_Head k = Inr k'" "sched_inv k'" "preempt_count (tcb k' (current k')) = 0" "wait_ok k' (ws @ [?c])"
      "runnable k (current k')" "current k' \<noteq> ?c" "task k' = task k" "ktimer k' = ktimer k"
      "kernel_shell_status k' = kernel_shell_status k"
      "\<forall>p. state (tcb k' p) = (if p = ?c then TASK_WAITING else state (tcb k p)) \<and> stack (tcb k' p) = stack (tcb k p)"
    have l: "live_tasks k' = live_tasks k" by (rule live_cong(2) [OF k'(7)])
    have "state (tcb k ?c) \<noteq> TASK_ZOMBIE" using s(3) by (simp add: runnable_def)
    then have "memory_ok k'" using inv memory_ok_cong [of k' k] k' by (simp add: kernel_inv_def)
    moreover have "waiters_ok k'"
      using k'(4,10) ws(2) s(3) unfolding waiters_ok_def l by (intro exI [of _ "ws @ [?c]"]) (auto simp: runnable_def)
    moreover have "runnable k' q" if "runnable k q" "q \<noteq> ?c" for q using that k'(10) by (simp add: runnable_def l)
    ultimately have "kernel_inv k'" using inv k' c by (simp add: kernel_inv_def ready_def)
    then show thesis using that k'(1) by blast
  qed
qed

lemma block_read_inv:
  assumes inv: "kernel_inv k" and c: "current k \<noteq> task k 0" and r: "block_uart_read k = Inr k'"
  shows "kernel_inv k'"
proof -
  obtain v vs where v: "lsr_reads (uart k) = v # vs" using r by (cases "lsr_reads (uart k)") (auto simp: block_uart_read_def)
  have inv': "kernel_inv (k\<lparr>uart := u\<rparr>)" for u by (rule kernel_inv_frame [OF inv]) simp_all
  have w: "\<exists>k2. wait Wait_Head (k\<lparr>uart := u\<rparr>) = Inr k2 \<and> kernel_inv k2" for u
  proof -
    have "current (k\<lparr>uart := u\<rparr>) \<noteq> task (k\<lparr>uart := u\<rparr>) 0" using c by simp
    then show ?thesis using wait_inv [OF inv' [of u]] by blast
  qed
  let ?u = "(uart k)\<lparr>lsr_reads := vs\<rparr>"
  have "block_uart_read k = (if uart_read_status v = 1 then Inr (k\<lparr>uart := ?u\<rparr>)
      else wait Wait_Head (k\<lparr>uart := enable_uart_read_interrupt ?u\<rparr>))"
    by (simp add: block_uart_read_def v Let_def)
  then show ?thesis using r inv' [of ?u] w [of "enable_uart_read_interrupt ?u"] by (simp split: if_splits)
qed

section \<open>System calls that touch no task\<close>

lemma user_code_inv:
  "kernel_inv k \<Longrightarrow> kernel_inv (k\<lparr>mem := m, cpu := c, ptregs := (ptregs k)(task_pt_regs (current k) := r)\<rparr>)"
  by (erule kernel_inv_frame) simp_all

text \<open>What may differ after a call that only reads and writes memory, the line and the console.\<close>

definition same_kernel :: "kernel \<Rightarrow> kernel \<Rightarrow> bool" where
  "same_kernel k k' \<longleftrightarrow> task k' = task k \<and> nr_tasks k' = nr_tasks k \<and> current k' = current k \<and> tcb k' = tcb k \<and>
     wlinks k' = wlinks k \<and> wprivate k' = wprivate k \<and> kernel_shell_status k' = kernel_shell_status k \<and>
     isTimerMultiplexingEventIRQ (ktimer k') = isTimerMultiplexingEventIRQ (ktimer k)"

lemma same_kernel_inv:
  assumes "kernel_inv k" "same_kernel k k'" "\<And>T U S. owns (kmm k) T U S \<Longrightarrow> owns (kmm k') T U S"
  shows "kernel_inv k'"
  by (rule kernel_inv_frame [OF assms(1)]) (use assms(2,3) in \<open>auto simp: same_kernel_def\<close>)

lemma uart_write_from_same: "uart_write_from n buf k = Inr k' \<Longrightarrow> same_kernel k k' \<and> kmm k' = kmm k"
  by (induction n arbitrary: buf k) (fastforce simp: same_kernel_def bind_result_Inr_iff)+

lemma uart_read_from_same: "uart_read_from n buf k = Inr k' \<Longrightarrow> same_kernel k k' \<and> kmm k' = kmm k"
  by (induction n arbitrary: buf k) (fastforce simp: same_kernel_def bind_result_Inr_iff)+

lemma exec_inv:
  assumes inv: "kernel_inv k" and r: "sys_exec fuel name argv k = Inr (k', n)"
  shows "kernel_inv k'"
proof -
  obtain m2 b where b: "kmalloc 4096 (kmm k) = Inr (m2, b)" "kmm k' = m2"
    and s: "same_kernel k k'"
    using r by (auto simp: sys_exec_def k_malloc_def bind_result_Inr_iff Let_def same_kernel_def preempt_tcb fun_eq_iff split: if_splits)
  show ?thesis by (rule same_kernel_inv [OF inv s]) (use owns_kmalloc b in auto)
qed

lemma io_inv:
  assumes "kernel_inv k"
  shows "sys_uart_write buf sz k = Inr (k', n) \<Longrightarrow> kernel_inv k'" "sys_uart_read buf sz k = Inr (k', n) \<Longrightarrow> kernel_inv k'"
    "sys_mbox_call ch mbox response k = Inr (k', n) \<Longrightarrow> kernel_inv k'" "kernel_inv (sys_coreTimer_on freq k)"
    "kernel_inv (sys_coreTimer_off k)" "kernel_inv (kprintf fmt va k)" "sys_malloc sz' k = Inr (k', a) \<Longrightarrow> kernel_inv k'"
proof -
  show "kernel_inv k'" if "sys_uart_write buf sz k = Inr (k', n)"
    using that uart_write_from_same [of "unat sz" buf k k']
    by (auto simp: sys_uart_write_def bind_result_Inr_iff intro: same_kernel_inv [OF assms])
  show "kernel_inv k'" if "sys_uart_read buf sz k = Inr (k', n)"
    using that uart_read_from_same [of "unat sz" buf k k']
    by (auto simp: sys_uart_read_def bind_result_Inr_iff intro: same_kernel_inv [OF assms])
  show "kernel_inv k'" if "sys_mbox_call ch mbox response k = Inr (k', n)"
    using that by (auto simp: sys_mbox_call_def bind_result_Inr_iff intro!: kernel_inv_frame [OF assms])
  show "kernel_inv (sys_coreTimer_on freq k)" "kernel_inv (sys_coreTimer_off k)" "kernel_inv (kprintf fmt va k)"
    by (rule kernel_inv_frame [OF assms], simp_all add: sys_coreTimer_on_def sys_coreTimer_off_def core_timer_enable_def core_timer_disable_def)+
  show "kernel_inv k'" if "sys_malloc sz' k = Inr (k', a)"
    using that owns_kmalloc by (auto simp: sys_malloc_def k_malloc_def bind_result_Inr_iff intro!: kernel_inv_frame [OF assms])
qed

section \<open>From boot on\<close>

definition kernel_begins :: "kernel \<Rightarrow> bool" where
  "kernel_begins k \<longleftrightarrow> (\<exists>freq foo_fn process_fn a u t m. main_start freq foo_fn process_fn (kernel_start a u t m) = Inr (k, True) \<and>
     a \<noteq> 0 \<and> uint a < LOW_MEMORY \<and> tm_mm t = bss_mm \<and> \<not> isTimerMultiplexingEventIRQ t)"

lemma start_threads_inv: "kernel_inv k \<Longrightarrow> start_threads fns k = Inr (k', b) \<Longrightarrow> kernel_inv k'"
proof (induction fns arbitrary: k)
  case (Cons fn fns)
  then obtain k1 i where "copy_process PF_KTHREAD fn 0 0 k = Inr (k1, i)"
    "k' = kprintf ''error while starting kernel process'' [] k1 \<or> start_threads fns k1 = Inr (k', b)"
    by (auto simp: bind_result_Inr_iff split: if_splits)
  moreover from this have "kernel_inv k1" using thread_inv Cons.prems(1) by blast
  moreover from this have "kernel_inv (kprintf fmt va k1)" for fmt va by (rule kernel_inv_frame) simp_all
  ultimately show ?case using Cons.IH by blast
qed simp

lemma kernel_begins_obtain:
  assumes "kernel_begins k"
  obtains k0 fns where "start_threads fns k0 = Inr (k, True)" "length fns = 4" "kernel_inv k0" "live k0 = {0}" "nr_tasks k0 = 1" "console k0 = []"
proof -
  from assms obtain freq foo_fn process_fn a u t m where
    r: "main_start freq foo_fn process_fn (kernel_start a u t m) = Inr (k, True)" and
    a: "a \<noteq> 0" "uint a < LOW_MEMORY" "tm_mm t = bss_mm" "\<not> isTimerMultiplexingEventIRQ t" by (auto simp: kernel_begins_def)
  let ?s = "kernel_start a u t m"
  define w where "w = core_timer_enable freq (t\<lparr>tm_mm := mm_init bss_mm\<rparr>)"
  have w: "tm_mm w = mm_init bss_mm" "\<not> isTimerMultiplexingEventIRQ w" using a(4) by (simp_all add: w_def core_timer_enable_def)
  obtain v where run: "start_threads (replicate 3 foo_fn @ [process_fn]) (?s\<lparr>uart := v, ktimer := w\<rparr>) = Inr (k, True)"
    using r a(3) by (cases "enable_uart_interrupt (uart_init u)")
      (auto simp: main_start_def Let_def kernel_start_def set_mm_def w_def)
  let ?k = "?s\<lparr>uart := v, ktimer := w\<rparr>"
  note s = kernel_start_inv [OF a(1), of u t m] and l = kernel_start_live [OF a(1), of u t m]
  have f: "task ?k = task ?s" "nr_tasks ?k = nr_tasks ?s" "current ?k = a" "tcb ?k = (\<lambda>_. INIT_TASK)" "task ?k 0 = a"
    "wlinks ?k Wait_Head = \<lparr>nxt = Wait_Head, prv = Wait_Head\<rparr>" "kernel_shell_status ?k = 0" "current ?s = a" "tcb ?s = (\<lambda>_. INIT_TASK)"
    by (simp_all add: kernel_start_def)
  have live: "live_tasks ?k = {a}" using live_cong(2) [OF f(1)] l by simp
  have "ready ?k" using s(1) sched_inv_cong [of ?k ?s] f by (simp add: ready_def INIT_TASK_def)
  moreover have "runnable ?k a" by (simp add: runnable_def live f(4) INIT_TASK_def)
  moreover have "memory_ok ?k"
  proof -
    obtain M where M: "heap_inv (mm_init bss_mm) M {} {#}" using mm_init_heap by blast
    have "stack_users ?k = {}" by (simp add: stack_users_def f(4) INIT_TASK_def)
    then show ?thesis using a(2) w(1) f(5) ownsI [OF _ _ M] by (simp add: memory_ok_def live)
  qed
  moreover have "waiters_ok ?k"
    unfolding waiters_ok_def using f(6) by (intro exI [of _ "[]"]) (simp add: wait_ok_def dlist_def)
  ultimately have "kernel_inv ?k" using w(2) f by (simp add: kernel_inv_def)
  moreover have "live ?k = {0}" "nr_tasks ?k = 1" "console ?k = []"
    using live_cong(1) [OF f(1)] l by (simp_all add: kernel_start_def)
  ultimately show thesis using that run by simp
qed

lemma kernel_begins_inv: "kernel_begins k \<Longrightarrow> kernel_inv k"
  by (erule kernel_begins_obtain) (rule start_threads_inv)

text \<open>When the slots in use are the first ones, a new task goes behind them.\<close>

lemma packed_add:
  assumes "live k = {0..<nr_tasks k}" "first_free k i" "p \<noteq> 0" "task k' = (task k)(i := p)" "nr_tasks k' = nr_tasks k + 1" "kernel_inv k"
  shows "i = nr_tasks k" "live k' = {0..<nr_tasks k'}"
proof -
  have i: "0 \<le> i" "i < NR_TASKS" "i \<notin> live k" "\<forall>j. 0 \<le> j \<longrightarrow> j < i \<longrightarrow> j \<in> live k"
    using assms(2) by (auto simp: first_free_def live_def)
  show e: "i = nr_tasks k"
  proof (rule ccontr)
    assume "i \<noteq> nr_tasks k"
    then have "nr_tasks k < i" using i(1,3) assms(1) by auto
    moreover have "0 \<le> nr_tasks k" using assms(6) by (simp add: kernel_inv_def ready_def sched_inv_def pool_ok_def)
    ultimately show False using i(4) assms(1) by auto
  qed
  have "live k' = insert i (live k)" using i(1,2) assms(3,4) by (auto simp: live_def)
  then show "live k' = {0..<nr_tasks k'}" using assms(1,5) e i(1) by auto
qed

text \<open>The boot sequence fills the first five slots and prints nothing with an argument.\<close>

lemma start_threads_packed:
  assumes "kernel_inv k" "live k = {0..<nr_tasks k}" "start_threads fns k = Inr (k', True)"
  shows "live k' = {0..<nr_tasks k'} \<and> nr_tasks k' = nr_tasks k + int (length fns) \<and> reports k' = reports k"
  using assms
proof (induction fns arbitrary: k)
  case (Cons fn fns)
  then obtain k1 i where c: "copy_process PF_KTHREAD fn 0 0 k = Inr (k1, i)" "start_threads fns k1 = Inr (k', True)"
    by (auto simp: bind_result_Inr_iff split: if_splits)
  note inv = thread_inv [OF Cons.prems(1) c(1)]
  obtain p where p: "p \<noteq> 0" "first_free k i" "task k1 = (task k)(i := p)" "nr_tasks k1 = nr_tasks k + 1" "console k1 = console k"
    by (rule thread_obtain [OF Cons.prems(1) c(1)]) (rule that, auto)
  have "live k1 = {0..<nr_tasks k1}" by (rule packed_add(2) [OF Cons.prems(2) p(2,1,3,4) Cons.prems(1)])
  moreover have "nr_tasks k1 = nr_tasks k + 1" "reports k1 = reports k" using p(4,5) by (simp_all add: reports_def)
  ultimately show ?case using Cons.IH [OF inv _ c(2)] by simp
qed simp

lemma kernel_begins_packed:
  assumes "kernel_begins k"
  shows "live k = {0..<nr_tasks k}" "nr_tasks k = 5" "reports k = []"
proof -
  have "live k = {0..<nr_tasks k} \<and> nr_tasks k = 5 \<and> reports k = []"
  proof (rule kernel_begins_obtain [OF assms])
    fix k0 fns
    assume k0: "start_threads fns k0 = Inr (k, True)" "length fns = 4" "kernel_inv k0" "live k0 = {0}" "nr_tasks k0 = 1" "console k0 = []"
    have "live k0 = {0..<nr_tasks k0}" unfolding k0(4,5) by auto
    from start_threads_packed [OF k0(3) this k0(1)] show ?thesis by (simp add: reports_def k0(2,5,6))
  qed
  then show "live k = {0..<nr_tasks k}" "nr_tasks k = 5" "reports k = []" by simp_all
qed

interpretation kernel_system: invariant kernel_begins kernel_step kernel_inv
proof
  show "kernel_begins k \<Longrightarrow> kernel_inv k" for k by (rule kernel_begins_inv)
  show "kernel_inv k'" if inv: "kernel_inv k" and step: "kernel_step k k'" for k k'
    using step
  proof cases
    case yield
    then show ?thesis using schedule_inv [OF inv] by auto
  next
    case (interrupt env)
    then show ?thesis using irq_inv [OF inv, of env] by auto
  next
    case exit
    then show ?thesis using exit_inv [OF inv] by (auto simp: sys_exit_def)
  qed (auto intro: user_code_inv thread_inv enter_user_inv io_inv exec_inv fork_inv kill_inv block_read_inv inv)
qed


lemma boot_example:
  obtains k qs where "reachable kernel_begins kernel_step k" "live k = {0..4}" "booted k 0x90000 qs" "length qs = 4"
    "tcb k 0x90000 = INIT_TASK" "kernel_begins k"
proof -
  let ?t = "timer_start\<lparr>tm_mm := bss_mm\<rparr>" and ?u = "uart_reset (replicate 26 0x20) []"
  have room: "26 \<le> tx_room ?u" by (simp add: tx_room_def uart_reset_def)
  obtain k qs where k: "main_start 62500000 0x80900 0x80a00 (kernel_start 0x90000 ?u ?t (\<lambda>_. NUL)) = Inr (k, True)" "live k = {0..4}"
    "booted k 0x90000 qs" "length qs = 4" "tcb k 0x90000 = INIT_TASK"
    by (rule boot_runs [OF _ _ _ room, of "0x90000" ?t 62500000 "0x80900" "0x80a00" "\<lambda>_. NUL"]) (simp, simp, simp, rule that)
  have "\<not> isTimerMultiplexingEventIRQ ?t" by (simp add: timer_start_def)
  with k(1) have "kernel_begins k" unfolding kernel_begins_def
    by (intro exI [of _ "0x90000 :: u64"] exI [of _ ?t] exI conjI) (assumption | simp)+
  moreover from this have "reachable kernel_begins kernel_step k" by (rule reachable.at_start)
  ultimately show thesis using that k by blast
qed


text \<open>
  A waiting task that is killed stays in the queue: the next \<open>wake_up\<close> writes to its structure,
  which has been given back to the allocator.
\<close>

lemma kill_waiting_dangles:
  assumes inv: "kernel_inv k" and i: "i \<in> live k" "i \<noteq> 0" "task k i \<noteq> current k" and w: "wait_ok k ws" "task k i \<in> set ws"
  shows "\<exists>k1 k2. sys_kill i k = Inr k1 \<and> task k i \<notin> live_tasks k1 \<and> wait_ok k1 ws \<and> wake_up Wait_Head k1 = Inr k2 \<and>
    state (tcb k2 (task k i)) = TASK_RUNNING"
proof -
  have s: "sched_inv k" and pool: "pool_ok k" using inv by (simp_all add: kernel_inv_def ready_def sched_inv_def)
  have "0 \<in> live k" using pool by (simp add: live_def pool_ok_def)
  then have "task k i \<noteq> task k 0" using inj_onD [of "task k" "live k" i 0] i(1,2) pool by (auto simp: pool_ok_def)
  then have "task k i \<in> live_tasks k - {task k 0}" using i(1) by (simp add: live_tasks_def)
  then obtain m where m: "kfree (task k i) (kmm k) = Inr m"
    using inv owns_kfree [of "kmm k" "live_tasks k - {task k 0}"] by (metis UnI1 kernel_inv_def memory_ok_def)
  obtain k1 where k1: "sys_kill i k = Inr k1" "sched_inv k1" "live_tasks k1 = live_tasks k - {task k i}"
    "wlinks k1 = wlinks k" "wprivate k1 = wprivate k"
    by (rule sys_kill_step [OF s i m], rule that)
  have w1: "wait_ok k1 ws" using w(1) k1(4,5) by (simp add: wait_ok_def)
  obtain k2 where "wake_up Wait_Head k1 = Inr k2"
    "\<forall>p. tcb k2 p = (if p \<in> set ws then (tcb k1 p)\<lparr>state := TASK_RUNNING\<rparr> else tcb k1 p)"
    using wake_up_step [OF w1 k1(2)] by metis
  then show ?thesis using k1(1,3) w1 w(2) by auto
qed

end
