(* ===== verification/Shell.thy ===== *)
theory Shell
  imports Sys
begin

text \<open>
  The kernel's shell, \<open>src/shell.c\<close>, with the commands of \<open>src/command.c\<close>. The local buffer of
  \<open>shell_start\<close> is an array of 256 bytes; \<open>buffer + n\<close> is the array without its first \<open>n\<close> bytes.
  \<open>uart_puts\<close> writes to the line, \<open>printf\<close> is recorded in \<open>console\<close>. The counter, its frequency,
  the exception level and the bound of walks along the ram disk are inputs. A command that does
  not come back is an outcome of its own.
\<close>

record cpu_inputs =
  in_freq :: u64
  in_cnt :: u64
  in_el :: u64
  in_fuel :: nat

text \<open>\<open>Eret\<close>: the exception return to a user program, with \<open>spsr_el1\<close>, \<open>elr_el1\<close> and \<open>sp_el0\<close>.\<close>

datatype outcome =
    Returns kernel
  | Rebooting kernel
  | Eret kernel u64 u64 u64

abbreviation TAB :: char where "TAB \<equiv> CHR 0x09"
abbreviation BS :: char where "BS \<equiv> CHR 0x08"
abbreviation DEL :: char where "DEL \<equiv> CHR 0x7F"
abbreviation DQ :: char where "DQ \<equiv> CHR 0x22"

section \<open>Commands\<close>

definition k_puts :: "cbuf \<Rightarrow> kernel \<Rightarrow> kernel result" where
  "k_puts s k = bind_result (uart_puts s (uart k)) (\<lambda>u. Inr (k\<lparr>uart := u\<rparr>))"

fun puts_all :: "cbuf list \<Rightarrow> kernel \<Rightarrow> kernel result" where
  "puts_all [] k = Inr k"
| "puts_all (s # ss) k = bind_result (k_puts s k) (puts_all ss)"

definition input_buffer_overflow_message :: "cbuf \<Rightarrow> kernel \<Rightarrow> kernel result" where
  "input_buffer_overflow_message cmd =
     puts_all [''Follow command: '' @ [DQ, NUL], cmd, [DQ] @ ''... is too long to process.'' @ [NL, NUL],
       ''The maximum length of input is 128.'' @ [NL, NUL]]"

definition command_help :: "kernel \<Rightarrow> kernel result" where
  "command_help =
     puts_all (map (\<lambda>s. s @ [NL, NUL])
       ['''', ''Valid Command:'',
        [TAB] @ ''help:'' @ [TAB, TAB] @ ''print all available commands.'',
        [TAB] @ ''hello:'' @ [TAB, TAB] @ ''print '' @ [DQ] @ ''Hello World!'' @ [DQ] @ ''.'',
        [TAB] @ ''timestamp:'' @ [TAB] @ ''get current timestamp.'',
        [TAB] @ ''reboot:'' @ [TAB, TAB] @ ''reset rpi3.'',
        [TAB] @ ''ls:'' @ [TAB, TAB] @ ''Print cpio file list.'',
        [TAB] @ ''cat {filename}:'' @ [TAB] @ ''Print content in {filename} '',
        [TAB] @ ''ma:'' @ [TAB, TAB] @ ''System of memory allcator '',
        [TAB] @ ''currentEL:'' @ [TAB] @ ''Piint current exception level(You can't use it in EL0)'',
        [TAB] @ ''cpio_svc:'' @ [TAB] @ ''Jump to user program in cpio archive '',
        [TAB] @ ''coreTimerOn:'' @ [TAB] @ ''Enable core0 timer interrupt (Interrupt periodically) '',
        [TAB] @ ''coreTimerOff:'' @ [TAB] @ ''Disable core0 timer interrupt '',
        [TAB] @ ''setTimeout [MESSAGE] [SECONDS]:'' @ [TAB] @ ''prints [MESSAGE] after [SECONDS] ([SECONDS] need lower than 45)'',
        ''''])"

definition command_hello :: "kernel \<Rightarrow> kernel result" where
  "command_hello = k_puts (''Hello World!'' @ [NL, NUL])"

definition command_not_found :: "cbuf \<Rightarrow> kernel \<Rightarrow> kernel result" where
  "command_not_found s = puts_all [''Err: command '' @ [NUL], s, '' not found, try <help>'' @ [NL, NUL]]"

abbreviation PM_PASSWORD :: u32 where "PM_PASSWORD \<equiv> 0x5a000000"

definition command_reboot :: "kernel \<Rightarrow> outcome result" where
  "command_reboot k =
     bind_result (k_puts (''Start Rebooting...'' @ [NL, NUL]) k) (\<lambda>k1.
       Inr (Rebooting (k1\<lparr>pm_wdog := PM_PASSWORD OR 0x20, pm_rstc := PM_PASSWORD OR 100\<rparr>)))"

definition command_cpio_ls :: "cpu_inputs \<Rightarrow> u64 \<Rightarrow> kernel \<Rightarrow> kernel result" where
  "command_cpio_ls env initramfs_addr k =
     bind_result (cpio_ls (in_fuel env) (mem k) initramfs_addr) (\<lambda>names.
       Inr (fold (\<lambda>a. kprintf (''%s'' @ [NL]) [VInt (uint a)]) names k))"

text \<open>The initial value of \<open>fileSize\<close> is not set; it is not used when the file is not found.\<close>

definition command_getCpioFile :: "cpu_inputs \<Rightarrow> u64 \<Rightarrow> cbuf \<Rightarrow> kernel \<Rightarrow> kernel result" where
  "command_getCpioFile env initramfs_addr buf k =
     bind_result (cpio_get_file (in_fuel env) (mem k) initramfs_addr (lit buf) 0) (\<lambda>(res, fileSize).
       if res \<noteq> 0 then
         Inr (kprintf [NL] []
           (fold (\<lambda>i. kprintf ''%c'' [VInt (of_char (mem k (res + of_nat i)))]) [0..<unat fileSize] k))
       else Inr (kprintf (CHR 0x27 # ''%s'' @ CHR 0x27 # '' file  not exist!'' @ [NL]) [VStr buf] k))"

definition command_cpio_svc :: "cpu_inputs \<Rightarrow> kernel \<Rightarrow> outcome result" where
  "command_cpio_svc env k =
     bind_result (cpio_get_file (in_fuel env) (mem k) INITRAMFS_ADDR (lit ''test_svc.elf'') 0) (\<lambda>(res, fileSize).
       let program_address = res + 120;
           k1 = kprintf (''program starting address: 0x{%x}'' @ [NL]) [VInt (uint program_address)]
                  (kprintf (''cpio starting addres0x{%x}'' @ [NL]) [VInt (uint res)] k)
       in Inr (Eret k1 0x340 (0x8000000 + 0x28c) 0x40000))"

definition command_current_el :: "cpu_inputs \<Rightarrow> kernel \<Rightarrow> kernel" where
  "command_current_el env k = kprintf (''Current Exception Level: %d '' @ [CR, NL]) [VInt (uint (in_el env))] k"

definition commnad_coreTimerOn :: "cpu_inputs \<Rightarrow> kernel \<Rightarrow> kernel" where
  "commnad_coreTimerOn env k = k\<lparr>ktimer := core_timer_enable (in_freq env) (ktimer k)\<rparr>"

definition commnad_coreTimerOff :: "kernel \<Rightarrow> kernel" where
  "commnad_coreTimerOff k = k\<lparr>ktimer := core_timer_disable (ktimer k)\<rparr>"

text \<open>The loops of \<open>coomand_setTimeout\<close>: the seconds behind the first blank, which ends the message.\<close>

function timeout_seconds :: "cbuf \<Rightarrow> nat \<Rightarrow> u64 \<Rightarrow> u64 result" where
  "timeout_seconds buf j d =
     bind_result (rd buf j) (\<lambda>c.
       if c = NUL then Inr d
       else timeout_seconds buf (j + 1) (d * 10 + word_of_int (int_of_char c - int_of_char CHR ''0'')))"
  by pat_completeness auto
termination
  by (relation "measure (\<lambda>(b, j, d). length b - j)") (auto simp: rd_def split: if_splits)

function split_timeout :: "cbuf \<Rightarrow> nat \<Rightarrow> (cbuf \<times> u64) result" where
  "split_timeout buf i =
     bind_result (rd buf i) (\<lambda>c.
       if c = NUL then Inr (buf, 0)
       else if c = CHR '' '' then
         bind_result (timeout_seconds buf (i + 1) 0) (\<lambda>d. bind_result (wr buf i NUL) (\<lambda>b. Inr (b, d)))
       else split_timeout buf (i + 1))"
  by pat_completeness auto
termination
  by (relation "measure (\<lambda>(b, i). length b - i)") (auto simp: rd_def split: if_splits)

declare timeout_seconds.simps [simp del] split_timeout.simps [simp del]

definition coomand_setTimeout :: "cpu_inputs \<Rightarrow> cbuf \<Rightarrow> kernel \<Rightarrow> kernel result" where
  "coomand_setTimeout env buf k =
     bind_result (split_timeout buf 0) (\<lambda>(b, d).
     bind_result (add_timer (in_freq env) (in_cnt env) b d (ktimer k)) (\<lambda>t. Inr (k\<lparr>ktimer := t\<rparr>)))"

section \<open>The line editor\<close>

datatype SPECIAL_CHARACTER = BACK_SPACE | REGULAR_INPUT | NEW_LINE | UNKNOWN

definition parse :: "char \<Rightarrow> SPECIAL_CHARACTER" where
  "parse c =
     (if c = DEL then BACK_SPACE
      else if \<not> (int_of_char c < 128 \<and> 0 \<le> int_of_char c) then UNKNOWN
      else if c = NL \<or> c = CR then NEW_LINE
      else REGULAR_INPUT)"

text \<open>
  The chain of comparisons of \<open>command_controller\<close>: the first test that holds decides. A test is
  a string and, for \<open>strncmp\<close>, the number of bytes to compare.
\<close>

datatype shell_command =
    Cmd_help | Cmd_hello | Cmd_reboot | Cmd_ls | Cmd_cat | Cmd_ma | Cmd_cpio_svc | Cmd_currentEL
  | Cmd_coreTimerOn | Cmd_coreTimerOff | Cmd_setTimeout | Cmd_not_found

definition command_tests :: "(string \<times> nat option \<times> shell_command) list" where
  "command_tests =
     [(''help'', None, Cmd_help), (''hello'', None, Cmd_hello), (''reboot'', None, Cmd_reboot), (''ls'', None, Cmd_ls),
      (''cat '', Some 3, Cmd_cat), (''ma'', None, Cmd_ma), (''cpio_svc'', None, Cmd_cpio_svc), (''currentEL'', None, Cmd_currentEL),
      (''coreTimerOn'', None, Cmd_coreTimerOn), (''coreTimerOff'', None, Cmd_coreTimerOff), (''setTimeout '', Some 10, Cmd_setTimeout)]"

fun select_command :: "(string \<times> nat option \<times> shell_command) list \<Rightarrow> cbuf \<Rightarrow> shell_command result" where
  "select_command [] buffer = Inr Cmd_not_found"
| "select_command ((name, n, cmd) # tests) buffer =
     bind_result (case n of None \<Rightarrow> strcmp buffer (name @ [NUL]) | Some m \<Rightarrow> strncmp buffer (name @ [NUL]) m) (\<lambda>d.
       if d = 0 then Inr cmd else select_command tests buffer)"

definition returning :: "kernel result \<Rightarrow> outcome result" where
  "returning r = bind_result r (\<lambda>k. Inr (Returns k))"

definition run_command :: "cpu_inputs \<Rightarrow> shell_command \<Rightarrow> cbuf \<Rightarrow> kernel \<Rightarrow> outcome result" where
  "run_command env cmd buffer k =
     (case cmd of
        Cmd_help \<Rightarrow> returning (command_help k)
      | Cmd_hello \<Rightarrow> returning (command_hello k)
      | Cmd_reboot \<Rightarrow> command_reboot k
      | Cmd_ls \<Rightarrow> returning (command_cpio_ls env INITRAMFS_ADDR k)
      | Cmd_cat \<Rightarrow> returning (command_getCpioFile env INITRAMFS_ADDR (drop 4 buffer) k)
      | Cmd_ma \<Rightarrow> Inr (Returns (set_mm (mm_init (kmm k)) k))
      | Cmd_cpio_svc \<Rightarrow> command_cpio_svc env k
      | Cmd_currentEL \<Rightarrow> Inr (Returns (command_current_el env k))
      | Cmd_coreTimerOn \<Rightarrow> Inr (Returns (commnad_coreTimerOn env k))
      | Cmd_coreTimerOff \<Rightarrow> Inr (Returns (commnad_coreTimerOff k))
      | Cmd_setTimeout \<Rightarrow> returning (coomand_setTimeout env (drop 11 buffer) k)
      | Cmd_not_found \<Rightarrow> returning (command_not_found buffer k))"

text \<open>What follows a command: the buffer is emptied and a new prompt is printed.\<close>

definition next_line :: "cbuf \<Rightarrow> outcome \<Rightarrow> (outcome \<times> cbuf \<times> int) result" where
  "next_line buffer out =
     (case out of
        Returns k \<Rightarrow>
          bind_result (strset buffer 0 MAX_BUFFER_LEN) (\<lambda>b.
          bind_result (k_puts (''# '' @ [NUL]) k) (\<lambda>k1. Inr (Returns k1, b, 0)))
      | _ \<Rightarrow> Inr (out, buffer, 0))"

definition command_controller ::
  "cpu_inputs \<Rightarrow> SPECIAL_CHARACTER \<Rightarrow> char \<Rightarrow> cbuf \<Rightarrow> int \<Rightarrow> kernel \<Rightarrow> (outcome \<times> cbuf \<times> int) result" where
  "command_controller env input_parse c buffer cnt k =
     (case input_parse of
        UNKNOWN \<Rightarrow> Inr (Returns k, buffer, cnt)
      | BACK_SPACE \<Rightarrow>
          if 0 < cnt then bind_result (k_puts [BS, CHR '' '', BS, NUL] k) (\<lambda>k1. Inr (Returns k1, buffer, cnt - 1))
          else Inr (Returns k, buffer, cnt)
      | NEW_LINE \<Rightarrow>
          if cnt = MAX_BUFFER_LEN then
            bind_result (returning (input_buffer_overflow_message buffer k)) (next_line buffer)
          else
            bind_result (wr buffer (nat cnt) NUL) (\<lambda>b.
            bind_result (select_command command_tests b) (\<lambda>cmd.
            bind_result (run_command env cmd b k) (next_line b)))
      | REGULAR_INPUT \<Rightarrow>
          if cnt < MAX_BUFFER_LEN then bind_result (wr buffer (nat cnt) c) (\<lambda>b. Inr (Returns k, b, cnt + 1))
          else Inr (Returns k, buffer, cnt))"

section \<open>The shell loop and the interrupts\<close>

text \<open>
  \<open>read_transmit_asynchronous_procoessing\<close> with \<open>command_controller\<close>, cut where an interrupt can
  come: it has two critical sections, and switches the transmit interrupt on after the second
  one. The shell is at the test of its read buffer (\<open>Poll\<close>), has taken a character out of it
  (\<open>Popped\<close>), has put the character into the transmit buffer (\<open>Pushed\<close>), is about to handle it
  (\<open>Handle\<close>), or is in the loop that waits for the transmit buffer to drain (\<open>Drain\<close>).
\<close>

datatype shell_pc = Poll | Popped char | Pushed char | Handle char | Drain

record shell_state =
  ker :: kernel
  buffer :: cbuf
  buffer_counter :: int
  shell_pc :: shell_pc

definition shell_start :: "cbuf \<Rightarrow> kernel \<Rightarrow> shell_state result" where
  "shell_start garbage k =
     bind_result (strset garbage 0 MAX_BUFFER_LEN) (\<lambda>b.
     bind_result (enable_uart_interrupt (uart k)) (\<lambda>u.
     bind_result (k_puts (''# '' @ [NUL]) (k\<lparr>uart := u\<rparr>)) (\<lambda>k1.
       Inr \<lparr>ker = k1, buffer = b, buffer_counter = 0, shell_pc = Poll\<rparr>)))"

text \<open>The critical sections.\<close>

definition read_buffer_pop :: "uart_state \<Rightarrow> (uart_state \<times> char) result" where
  "read_buffer_pop u =
     bind_result (rd (UART_READ_BUFFER u) (nat (uart_read_idx u - 1))) (\<lambda>input_char.
       Inr (u\<lparr>uart_read_idx := uart_read_idx u - 1\<rparr>, input_char))"

definition transmit_buffer_push :: "char \<Rightarrow> uart_state \<Rightarrow> uart_state result" where
  "transmit_buffer_push input_char u =
     (if uart_transmit_idx u < 0 then Inl Out_Of_Bounds
      else bind_result (wr (UART_TRANSMIT_BUFFER u) (nat (uart_transmit_idx u)) input_char) (\<lambda>b.
        Inr (u\<lparr>UART_TRANSMIT_BUFFER := b, uart_transmit_idx := uart_transmit_idx u + 1\<rparr>)))"

text \<open>One turn of the loop: the next state, or the outcome of a command that did not come back.\<close>

definition set_uart :: "uart_state \<Rightarrow> shell_state \<Rightarrow> shell_state" where
  "set_uart u s = s\<lparr>ker := (ker s)\<lparr>uart := u\<rparr>\<rparr>"

definition shell_turn :: "cpu_inputs \<Rightarrow> shell_state \<Rightarrow> (outcome + shell_state) result" where
  "shell_turn env s =
     (case shell_pc s of
        Poll \<Rightarrow>
          if 0 < uart_read_idx (uart (ker s)) then
            bind_result (read_buffer_pop (uart (ker s))) (\<lambda>(u, c). Inr (Inr ((set_uart u s)\<lparr>shell_pc := Popped c\<rparr>)))
          else Inr (Inr (s\<lparr>shell_pc := Drain\<rparr>))
      | Popped c \<Rightarrow>
          bind_result (transmit_buffer_push c (uart (ker s))) (\<lambda>u. Inr (Inr ((set_uart u s)\<lparr>shell_pc := Pushed c\<rparr>)))
      | Pushed c \<Rightarrow> Inr (Inr ((set_uart (enable_uart_transmit_interrupt (uart (ker s))) s)\<lparr>shell_pc := Handle c\<rparr>))
      | Handle c \<Rightarrow>
          bind_result (command_controller env (parse c) c (buffer s) (buffer_counter s) (ker s)) (\<lambda>(out, b, n).
            case out of
              Returns k \<Rightarrow> Inr (Inr \<lparr>ker = k, buffer = b, buffer_counter = n, shell_pc = Poll\<rparr>)
            | _ \<Rightarrow> Inr (Inl out))
      | Drain \<Rightarrow> Inr (Inr (if uart_transmit_idx (uart (ker s)) \<noteq> 0 then s else s\<lparr>shell_pc := Poll\<rparr>)))"

definition shell_irq :: "u32 \<Rightarrow> shell_state \<Rightarrow> shell_state result" where
  "shell_irq iir s = bind_result (shell_uart_irq_handler iir (uart (ker s))) (\<lambda>u. Inr (set_uart u s))"

end
