(* ===== verification/Shell_Props.thy ===== *)
theory Shell_Props
  imports Shell Sched_Props
begin

text \<open>The line editor as an edited string, and the command a line selects.\<close>

section \<open>Specification\<close>

text \<open>What a key other than the end of the line does to the line.\<close>

definition edit :: "string \<Rightarrow> char \<Rightarrow> string" where
  "edit u c =
     (if c = DEL then butlast u
      else if int_of_char c < 128 \<and> int (length u) < MAX_BUFFER_LEN then u @ [c]
      else u)"

definition test_holds :: "string \<Rightarrow> string \<times> nat option \<times> shell_command \<Rightarrow> bool" where
  "test_holds u t = (case t of (name, None, _) \<Rightarrow> u = name | (name, Some n, _) \<Rightarrow> take n u = take n name)"

definition spec_command :: "string \<Rightarrow> shell_command" where
  "spec_command u = (case find (test_holds u) command_tests of None \<Rightarrow> Cmd_not_found | Some (_, _, cmd) \<Rightarrow> cmd)"

definition line_ok :: "cbuf \<Rightarrow> int \<Rightarrow> string \<Rightarrow> bool" where
  "line_ok b n u \<longleftrightarrow> int (length b) = MAX_BUFFER_LEN \<and> n = int (length u) \<and> length u \<le> length b \<and> take (length u) b = u"

text \<open>The shell fed with keys, one after the other.\<close>

fun type_keys :: "cpu_inputs \<Rightarrow> string \<Rightarrow> cbuf \<Rightarrow> int \<Rightarrow> kernel \<Rightarrow> (outcome \<times> cbuf \<times> int) result" where
  "type_keys env [] b n k = Inr (Returns k, b, n)"
| "type_keys env (c # cs) b n k =
     bind_result (command_controller env (parse c) c b n k) (\<lambda>(out, b1, n1).
       case out of Returns k1 \<Rightarrow> type_keys env cs b1 n1 k1 | _ \<Rightarrow> Inr (out, b1, n1))"

section \<open>The chain of comparisons\<close>

lemma select_command_spec:
  assumes "cstr b u" "\<forall>(name, _, _) \<in> set tests. NUL \<notin> set name"
  shows "select_command tests b = Inr (case find (test_holds u) tests of None \<Rightarrow> Cmd_not_found | Some (_, _, cmd) \<Rightarrow> cmd)"
  using assms(2)
proof (induction tests)
  case (Cons t tests)
  obtain name n cmd where t: "t = (name, n, cmd)" by (cases t)
  have c: "cstr (name @ [NUL]) name" using Cons.prems by (simp add: t cstr_def)
  obtain d where d: "(case n of None \<Rightarrow> strcmp b (name @ [NUL]) | Some m \<Rightarrow> strncmp b (name @ [NUL]) m) = Inr d"
    "d = 0 \<longleftrightarrow> test_holds u t"
  proof (cases n)
    case None
    with strcmp_from_cstr [OF assms(1) c, of 0] strlen_cstr [OF assms(1)] that show thesis
      by (auto simp: strcmp_def t test_holds_def)
  next
    case (Some m)
    with strncmp_from_cstr [OF assms(1) c, of 0 m] that show thesis by (auto simp: strncmp_def t test_holds_def)
  qed
  then show ?case using Cons by (auto simp: t)
qed simp

lemma command_tests_names: "\<forall>(name, _, _) \<in> set command_tests. NUL \<notin> set name"
  by (simp add: command_tests_def)

section \<open>Editing\<close>

lemma parse_key:
  assumes "c \<noteq> NL" "c \<noteq> CR"
  shows "parse c = (if c = DEL then BACK_SPACE else if int_of_char c < 128 then REGULAR_INPUT else UNKNOWN)"
  using assms of_char_nonneg [of c] by (simp add: parse_def)

lemma line_ok_append:
  assumes "line_ok b n u" "length u < length b"
  shows "wr b (nat n) c = Inr (b[length u := c]) \<and> line_ok (b[length u := c]) (n + 1) (u @ [c])"
  using assms by (auto simp: line_ok_def wr_def take_Suc_conv_app_nth)

lemma line_ok_butlast:
  assumes "line_ok b n u" "0 < n"
  shows "line_ok b (n - 1) (butlast u)"
proof -
  have u: "take (length u) b = u" "u \<noteq> []" "length u \<le> length b" using assms by (auto simp: line_ok_def)
  have "butlast u = take (length u - 1) u" by (rule butlast_conv_take)
  also have "\<dots> = take (length u - 1) (take (length u) b)" using u(1) by simp
  also have "\<dots> = take (length u - 1) b" by simp
  finally show ?thesis using assms u(2) by (auto simp: line_ok_def of_nat_diff Suc_le_eq)
qed

text \<open>One key: the line follows the specification, and nothing of the kernel changes but the line to the screen.\<close>

lemma edit_step:
  assumes l: "line_ok b n u" and c: "c \<noteq> NL" "c \<noteq> CR" and room: "c = DEL \<Longrightarrow> 3 \<le> tx_room (uart k)"
  obtains b1 n1 s where "command_controller env (parse c) c b n k = Inr (Returns (k\<lparr>uart := s\<rparr>), b1, n1)"
    "line_ok b1 n1 (edit u c)" "tx_room (uart k) \<le> tx_room s + (if c = DEL then 3 else 0)"
proof -
  have k: "k\<lparr>uart := uart k\<rparr> = k" by simp
  note p = parse_key [OF c]
  have len: "int (length u) = n" "int (length b) = 256" using l by (simp_all add: line_ok_def)
  consider (del) "c = DEL" "0 < n" | (empty) "c = DEL" "\<not> 0 < n" | (key) "c \<noteq> DEL" "int_of_char c < 128" "n < 256"
    | (other) "c \<noteq> DEL" "\<not> (int_of_char c < 128 \<and> n < 256)" by blast
  then show thesis
  proof cases
    case del
    have "\<exists>s'. uart_puts ([BS, CHR '' '', BS] @ [NUL]) (uart k) = Inr s' \<and> tx_sent s' = tx_sent (uart k) @ concat (map crlf [BS, CHR '' '', BS]) \<and>
        tx_room (uart k) = tx_room s' + length (concat (map crlf [BS, CHR '' '', BS]))"
      by (rule uart_puts_sends) (use room [OF del(1)] in \<open>simp_all add: crlf_def\<close>)
    then obtain s where s: "uart_puts [BS, CHR '' '', BS, NUL] (uart k) = Inr s" "tx_room (uart k) = tx_room s + 3"
      by (auto simp: crlf_def)
    then show thesis
      using that [of s b "n - 1"] line_ok_butlast [OF l del(2)] del p
      by (simp add: command_controller_def k_puts_def edit_def)
  next
    case empty
    then have "length u = 0" using len by linarith
    then have "u = []" by simp
    then have "edit u c = u" using empty by (simp add: edit_def)
    with empty p l that [of "uart k" b n] k show thesis by (simp add: command_controller_def)
  next
    case key
    then have "length u < length b" using len by linarith
    note a = line_ok_append [OF l this, of c]
    have "edit u c = u @ [c]" using key len by (simp add: edit_def)
    with key p a that [of "uart k" "b[length u := c]" "n + 1"] k show thesis by (simp add: command_controller_def)
  next
    case other
    then have "edit u c = u" using len by (auto simp: edit_def)
    with other p l that [of "uart k" b n] k show thesis by (auto simp: command_controller_def)
  qed
qed

lemma edit_line:
  assumes "line_ok b n u" "NL \<notin> set cs" "CR \<notin> set cs" "3 * length (filter (\<lambda>c. c = DEL) cs) \<le> tx_room (uart k)"
  shows "\<exists>b1 n1 s. line_ok b1 n1 (foldl edit u cs) \<and>
    type_keys env (cs @ ds) b n k = type_keys env ds b1 n1 (k\<lparr>uart := s\<rparr>)"
  using assms
proof (induction cs arbitrary: b n u k)
  case Nil
  then show ?case by (intro exI [of _ b] exI [of _ n] exI [of _ "uart k"]) simp
next
  case (Cons c cs)
  obtain b1 n1 s where s: "command_controller env (parse c) c b n k = Inr (Returns (k\<lparr>uart := s\<rparr>), b1, n1)"
    "line_ok b1 n1 (edit u c)" "tx_room (uart k) \<le> tx_room s + (if c = DEL then 3 else 0)"
    by (rule edit_step [OF Cons.prems(1), of c k env]) (use Cons.prems in auto)
  have "3 * length (filter (\<lambda>c. c = DEL) cs) \<le> tx_room (uart (k\<lparr>uart := s\<rparr>))" using s(3) Cons.prems(4) by (auto split: if_splits)
  from Cons.IH [OF s(2) _ _ this] Cons.prems(2,3) obtain b2 n2 s2 where
    "line_ok b2 n2 (foldl edit (edit u c) cs)" "type_keys env (cs @ ds) b1 n1 (k\<lparr>uart := s\<rparr>) = type_keys env ds b2 n2 (k\<lparr>uart := s2\<rparr>)"
    by auto
  then show ?case using s(1) by auto
qed

lemma edit_keeps: "NUL \<notin> set u \<Longrightarrow> c \<noteq> NUL \<Longrightarrow> NUL \<notin> set (edit u c)" "length u \<le> 256 \<Longrightarrow> length (edit u c) \<le> 256"
  by (auto simp: edit_def dest: in_set_butlastD)

lemma foldl_edit_keeps:
  "NUL \<notin> set u \<Longrightarrow> NUL \<notin> set cs \<Longrightarrow> NUL \<notin> set (foldl edit u cs)"
  "length u \<le> 256 \<Longrightarrow> length (foldl edit u cs) \<le> 256"
  by (induction cs arbitrary: u) (auto simp: edit_keeps)

lemma puts_all_unterminated:
  assumes "s \<in> set ss" "NUL \<notin> set s"
  shows "\<exists>e. puts_all ss k = Inl e"
  using assms
proof (induction ss arbitrary: k)
  case (Cons t ss)
  show ?case
  proof (cases "k_puts t k")
    case (Inr k1)
    obtain e where "uart_puts s (uart k) = Inl e" using uart_puts_unterminated [OF Cons.prems(2)] by blast
    then have "t \<noteq> s" using Inr by (auto simp: k_puts_def)
    with Cons Inr show ?thesis by simp
  qed simp
qed simp



end
