(* ===== verification/Shell_Steps.thy ===== *)
theory Shell_Steps
  imports Shell Sched_Props
begin

text \<open>
  The shell and the interrupt handler of the serial line as one step relation: the handler runs
  between any two turns of the shell. The two buffers they share, and the enable bit of the
  transmit interrupt.
\<close>

section \<open>What a command leaves alone\<close>

definition buffers_same :: "uart_state \<Rightarrow> uart_state \<Rightarrow> bool" where
  "buffers_same u u' \<longleftrightarrow> uart_read_idx u' = uart_read_idx u \<and> uart_transmit_idx u' = uart_transmit_idx u \<and>
     UART_READ_BUFFER u' = UART_READ_BUFFER u \<and> UART_TRANSMIT_BUFFER u' = UART_TRANSMIT_BUFFER u \<and> AUX_MU_IER u' = AUX_MU_IER u"

lemma buffers_same_refl [simp]: "buffers_same u u"
  by (simp add: buffers_same_def)

lemma buffers_same_trans: "buffers_same u u1 \<Longrightarrow> buffers_same u1 u2 \<Longrightarrow> buffers_same u u2"
  by (simp add: buffers_same_def)

lemma uart_send_buffers: "uart_send c u = Inr u' \<Longrightarrow> buffers_same u u'"
  by (auto simp: uart_send_def io_write_def bind_result_Inr_iff buffers_same_def split: if_splits)

interpretation serial_buffers: output_frame putc buffers_same
  by unfold_locales (auto simp: putc_def dest: uart_send_buffers intro: buffers_same_trans)

lemma uart_puts_buffers: "uart_puts t u = Inr u' \<Longrightarrow> buffers_same u u'"
  by (induction t arbitrary: u)
    (auto simp: bind_result_Inr_iff split: if_splits dest!: uart_send_buffers intro: buffers_same_trans)

lemma uart_puts_rx: "uart_puts t u = Inr u' \<Longrightarrow> rx_same u u'"
  by (induction t arbitrary: u)
    (auto simp: bind_result_Inr_iff serial_frame.keep_refl split: if_splits
      intro: serial_frame.keep_trans [OF serial_frame.put_keeps] simp flip: putc_def)

lemma k_puts_buffers: "k_puts t k = Inr k' \<Longrightarrow> buffers_same (uart k) (uart k')"
  by (auto simp: k_puts_def bind_result_Inr_iff dest: uart_puts_buffers)

lemma puts_all_buffers: "puts_all ts k = Inr k' \<Longrightarrow> buffers_same (uart k) (uart k')"
  by (induction ts arbitrary: k) (auto simp: bind_result_Inr_iff dest!: k_puts_buffers intro: buffers_same_trans)

declare puts_all.simps [simp del]

lemma fold_kprintf_uart [simp]: "uart (fold (\<lambda>x. kprintf (f x) (g x)) xs k) = uart k"
  by (induction xs arbitrary: k) simp_all

fun kernel_of :: "outcome \<Rightarrow> kernel" where
  "kernel_of (Returns k) = k"
| "kernel_of (Rebooting k) = k"
| "kernel_of (Eret k spsr elr sp) = k"

lemmas command_defs = command_help_def command_hello_def command_not_found_def command_reboot_def command_cpio_ls_def
  command_getCpioFile_def command_cpio_svc_def command_current_el_def commnad_coreTimerOn_def commnad_coreTimerOff_def
  coomand_setTimeout_def input_buffer_overflow_message_def returning_def

lemma run_command_buffers: "run_command env cmd b k = Inr out \<Longrightarrow> buffers_same (uart k) (uart (kernel_of out))"
  by (cases cmd)
    (auto simp: run_command_def command_defs bind_result_Inr_iff split: if_splits dest: k_puts_buffers puts_all_buffers)

lemma next_line_buffers: "next_line b out = Inr (out', b', n) \<Longrightarrow> buffers_same (uart (kernel_of out)) (uart (kernel_of out'))"
  by (cases out) (auto simp: next_line_def bind_result_Inr_iff dest: k_puts_buffers)

lemma command_controller_buffers:
  "command_controller env key c b n k = Inr (out, b', n') \<Longrightarrow> buffers_same (uart k) (uart (kernel_of out))"
  by (cases key)
    (auto simp: command_controller_def returning_def input_buffer_overflow_message_def bind_result_Inr_iff split: if_splits
      dest!: k_puts_buffers puts_all_buffers run_command_buffers next_line_buffers intro: buffers_same_trans)

section \<open>The steps\<close>

text \<open>An interrupt comes only when the device has been told to raise it.\<close>

definition irq_raised :: "u32 \<Rightarrow> uart_state \<Rightarrow> bool" where
  "irq_raised iir u \<longleftrightarrow> iir AND 0x06 = 0x04 \<and> AUX_MU_IER u AND 1 \<noteq> 0 \<or> iir AND 0x06 = 0x02 \<and> AUX_MU_IER u AND 2 \<noteq> 0"

text \<open>
  The window between the second critical section and the switching on of the transmit interrupt.
  With \<open>w\<close> an interrupt may come there, without \<open>w\<close> it comes before or after.
\<close>

fun in_window :: "shell_pc \<Rightarrow> bool" where
  "in_window (Pushed c) = True"
| "in_window _ = False"

inductive shell_step :: "bool \<Rightarrow> shell_state \<Rightarrow> shell_state \<Rightarrow> bool" for w :: bool where
  turn: "shell_turn env s = Inr (Inr s') \<Longrightarrow> shell_step w s s'"
| irq: "w \<or> \<not> in_window (shell_pc s) \<Longrightarrow> irq_raised iir (uart (ker s)) \<Longrightarrow> shell_irq iir s = Inr s' \<Longrightarrow> shell_step w s s'"

definition shell_begins :: "shell_state \<Rightarrow> bool" where
  "shell_begins s \<longleftrightarrow> (\<exists>garbage k. shell_start garbage k = Inr s \<and> uart_read_idx (uart k) = 0 \<and> uart_transmit_idx (uart k) = 0 \<and>
     length (UART_READ_BUFFER (uart k)) = 256 \<and> length (UART_TRANSMIT_BUFFER (uart k)) = 256)"

abbreviation shell_reach :: "bool \<Rightarrow> shell_state \<Rightarrow> bool" where
  "shell_reach w \<equiv> reachable shell_begins (shell_step w)"

inductive_cases shell_stepE: "shell_step w s s'"

section \<open>The invariant\<close>

definition shell_inv :: "shell_state \<Rightarrow> bool" where
  "shell_inv s \<longleftrightarrow> (let u = uart (ker s) in
     length (UART_READ_BUFFER u) = 256 \<and> length (UART_TRANSMIT_BUFFER u) = 256 \<and>
     0 \<le> uart_read_idx u \<and> uart_read_idx u \<le> 256 \<and> 0 \<le> uart_transmit_idx u \<and> uart_transmit_idx u \<le> 256 \<and>
     (if in_window (shell_pc s) then 0 < uart_transmit_idx u \<and> (AUX_MU_IER u = 1 \<or> AUX_MU_IER u = 3)
      else AUX_MU_IER u = (if 0 < uart_transmit_idx u then 3 else 1)))"

lemma shell_inv_frame:
  "shell_inv s \<Longrightarrow> buffers_same (uart (ker s)) (uart (ker s')) \<Longrightarrow> in_window (shell_pc s') = in_window (shell_pc s) \<Longrightarrow> shell_inv s'"
  by (simp add: shell_inv_def buffers_same_def Let_def)

lemma uart_getc_buffers: "uart_getc u = Inr (u', c) \<Longrightarrow> buffers_same u u'"
  by (cases "io_reads u") (auto simp: uart_getc_def bind_result_Inr_iff buffers_same_def Let_def)

lemma uart_printf_buffers: "uart_printf fmt va u = Inr u' \<Longrightarrow> buffers_same u u'"
  unfolding uart_printf_def by (rule serial_buffers.format_keeps)

lemma shell_start_inv:
  assumes "uart_read_idx (uart k) = 0" "uart_transmit_idx (uart k) = 0" "length (UART_READ_BUFFER (uart k)) = 256"
    "length (UART_TRANSMIT_BUFFER (uart k)) = 256" "shell_start garbage k = Inr s"
  shows "shell_inv s"
proof -
  obtain b u k1 where s: "enable_uart_interrupt (uart k) = Inr u" "k_puts (''# '' @ [NUL]) (k\<lparr>uart := u\<rparr>) = Inr k1"
    "s = \<lparr>ker = k1, buffer = b, buffer_counter = 0, shell_pc = Poll\<rparr>"
    using assms(5) by (auto simp: shell_start_def bind_result_Inr_iff)
  have "buffers_same ((enable_uart_read_interrupt ((uart k)\<lparr>AUX_MU_IER := 0\<rparr>))\<lparr>ENABLE_IRQS_1 := AUX_IRQ\<rparr>) u"
    using s(1) unfolding enable_uart_interrupt_def by (rule uart_printf_buffers)
  moreover have "buffers_same u (uart k1)" using k_puts_buffers [OF s(2)] by simp
  ultimately show ?thesis
    using assms(1-4) s(3) by (simp add: shell_inv_def buffers_same_def enable_uart_read_interrupt_def)
qed

lemma shell_turn_inv:
  assumes "shell_inv s" "shell_turn env s = Inr (Inr s')"
  shows "shell_inv s'"
proof (cases "shell_pc s")
  case (Handle c)
  then obtain out b n where out: "command_controller env (parse c) c (buffer s) (buffer_counter s) (ker s) = Inr (out, b, n)"
    "(case out of Returns k \<Rightarrow> Inr (Inr \<lparr>ker = k, buffer = b, buffer_counter = n, shell_pc = Poll\<rparr>) | _ \<Rightarrow> Inr (Inl out)) =
      (Inr (Inr s') :: (outcome + shell_state) result)"
    using assms(2) by (auto simp: shell_turn_def bind_result_Inr_iff)
  from out(2) obtain k where "out = Returns k" "s' = \<lparr>ker = k, buffer = b, buffer_counter = n, shell_pc = Poll\<rparr>"
    by (cases out) simp_all
  then show ?thesis using command_controller_buffers [OF out(1)] Handle by (intro shell_inv_frame [OF assms(1)]) simp_all
qed (use assms in \<open>auto simp: shell_turn_def shell_inv_def read_buffer_pop_def transmit_buffer_push_def set_uart_def
       enable_uart_transmit_interrupt_def rd_def wr_def bind_result_Inr_iff Let_def split: if_splits\<close>)

lemma shell_irq_inv:
  assumes "shell_inv s" "\<not> in_window (shell_pc s)" "irq_raised iir (uart (ker s))" "shell_irq iir s = Inr s'"
  shows "shell_inv s'"
proof -
  obtain u' where h: "shell_uart_irq_handler iir (uart (ker s)) = Inr u'" "s' = set_uart u' s"
    using assms(4) by (auto simp: shell_irq_def bind_result_Inr_iff)
  consider (rx) "iir AND 0x06 = 0x04" | (tx) "iir AND 0x06 = 0x02" "0 < uart_transmit_idx (uart (ker s))"
    using assms(1-3) by (auto simp: irq_raised_def shell_inv_def Let_def split: if_splits)
  then show ?thesis
  proof cases
    case rx
    then obtain u1 c where "uart_getc (uart (ker s)) = Inr (u1, c)" "read_buffer_put c u1 = Inr u'"
      using h(1) by (auto simp: shell_uart_irq_handler_def bind_result_Inr_iff)
    then show ?thesis
      using assms(1,2) h(2) uart_getc_buffers [of "uart (ker s)" u1 c]
      by (auto simp: shell_inv_def buffers_same_def read_buffer_put_def set_uart_def wr_def bind_result_Inr_iff Let_def split: if_splits)
  next
    case tx
    then obtain c u1 where u1: "uart_send c (uart (ker s)) = Inr u1"
      "u' = (let s2 = u1\<lparr>uart_transmit_idx := uart_transmit_idx u1 - 1\<rparr>
             in if uart_transmit_idx s2 = 0 then disable_uart_transmit_interrupt s2 else s2)"
      using h(1) by (auto simp: shell_uart_irq_handler_def bind_result_Inr_iff Let_def split: if_splits)
    then show ?thesis
      using assms(1,2) tx(2) h(2) uart_send_buffers [OF u1(1)]
      by (auto simp: shell_inv_def buffers_same_def disable_uart_transmit_interrupt_def set_uart_def Let_def)
  qed
qed

interpretation shell_loop: invariant shell_begins "shell_step False" shell_inv
  by unfold_locales (auto simp: shell_begins_def elim!: shell_stepE intro: shell_start_inv shell_turn_inv shell_irq_inv)

section \<open>Failures\<close>

lemma uart_never_out_of_bounds: "uart_getc u \<noteq> Inl Out_Of_Bounds" "uart_send c u \<noteq> Inl Out_Of_Bounds"
proof -
  have p: "poll_set m vs \<noteq> Inl Out_Of_Bounds" for m vs by (induction vs) simp_all
  then have io: "io_write c u \<noteq> Inl Out_Of_Bounds" for c u
    by (cases "poll_set 0x20 (lsr_reads u)") (auto simp: io_write_def)
  show "uart_getc u \<noteq> Inl Out_Of_Bounds" using p
    by (cases "poll_set 0x01 (lsr_reads u)") (auto simp: uart_getc_def Let_def split: list.splits)
  show "uart_send c u \<noteq> Inl Out_Of_Bounds" using io by (cases "io_write c u") (auto simp: uart_send_def)
qed

lemma shell_irq_fails:
  assumes "shell_inv s" "\<not> in_window (shell_pc s)" "irq_raised iir (uart (ker s))" "shell_irq iir s = Inl Out_Of_Bounds"
  shows "iir AND 0x06 = 0x04 \<and> uart_read_idx (uart (ker s)) = 256"
proof -
  let ?u = "uart (ker s)"
  have h: "shell_uart_irq_handler iir ?u = Inl Out_Of_Bounds"
    using assms(4) by (cases "shell_uart_irq_handler iir ?u") (simp_all add: shell_irq_def)
  consider (rx) "iir AND 0x06 = 0x04" | (tx) "iir AND 0x06 = 0x02" "0 < uart_transmit_idx ?u"
    using assms(1-3) by (auto simp: irq_raised_def shell_inv_def Let_def split: if_splits)
  then show ?thesis
  proof cases
    case rx
    then obtain u1 c where u1: "uart_getc ?u = Inr (u1, c)" "read_buffer_put c u1 = Inl Out_Of_Bounds"
      using h uart_never_out_of_bounds(1) [of ?u] by (cases "uart_getc ?u") (auto simp: shell_uart_irq_handler_def)
    then show ?thesis
      using assms(1) rx uart_getc_buffers [OF u1(1)]
      by (auto simp: shell_inv_def buffers_same_def read_buffer_put_def wr_def Let_def split: if_splits)
  next
    case tx
    then have "nat (uart_transmit_idx ?u - 1) < length (UART_TRANSMIT_BUFFER ?u)" using assms(1) by (auto simp: shell_inv_def Let_def)
    then show ?thesis
      using h tx uart_never_out_of_bounds(2)
      by (cases "uart_send (of_char (UART_TRANSMIT_BUFFER ?u ! nat (uart_transmit_idx ?u - 1))) ?u")
        (auto simp: shell_uart_irq_handler_def rd_def Let_def)
  qed
qed

text \<open>The run through the window: two keys, and both are sent before the interrupt is switched on again.\<close>

lemma window_race:
  assumes s: "shell_pc s = Poll" "buffer_counter s = 0" "length (buffer s) = 256"
    and u: "uart_read_idx (uart (ker s)) = 0" "uart_transmit_idx (uart (ker s)) = 0" "AUX_MU_IER (uart (ker s)) = 1"
      "length (UART_READ_BUFFER (uart (ker s))) = 256" "length (UART_TRANSMIT_BUFFER (uart (ker s))) = 256"
      "lsr_reads (uart (ker s)) = 0x21 # 0x21 # 0x21 # 0x21 # ls" "io_reads (uart (ker s)) = 0x61 # 0x62 # ios"
    and r: "shell_reach True s"
  shows "\<exists>s'. shell_reach True s' \<and> irq_raised 2 (uart (ker s')) \<and> uart_transmit_idx (uart (ker s')) = 0 \<and>
    shell_irq 2 s' = Inl Out_Of_Bounds"
proof -
  have irq: "shell_reach True t'" if "shell_reach True t" "irq_raised iir (uart (ker t))" "shell_irq iir t = Inr t'" for iir t t'
    using that by (auto intro: reachable.next_step shell_step.irq)
  have turn: "shell_reach True t'" if "shell_reach True t" "shell_turn env t = Inr (Inr t')" for env t t'
    using that by (auto intro: reachable.next_step shell_step.turn)
  note ev = shell_irq_def shell_turn_def shell_uart_irq_handler_def uart_getc_def uart_send_def io_write_def read_buffer_put_def
    read_buffer_pop_def transmit_buffer_push_def set_uart_def irq_raised_def rd_def wr_def enable_uart_transmit_interrupt_def
    disable_uart_transmit_interrupt_def
  have ch: "char_of (97 :: nat) = CHR ''a''" "char_of (98 :: nat) = CHR ''b''" by code_simp+
  let ?u = "uart (ker s)"
  define rb where "rb = (UART_READ_BUFFER ?u)[0 := CHR ''a'', 1 := CHR ''b'']"
  define tb where "tb = (UART_TRANSMIT_BUFFER ?u)[0 := CHR ''b'', 1 := CHR ''a'']"
  define u1 where "u1 = ?u\<lparr>lsr_reads := 0x21 # 0x21 # 0x21 # ls, io_reads := 0x62 # ios,
    UART_READ_BUFFER := (UART_READ_BUFFER ?u)[0 := CHR ''a''], uart_read_idx := 1\<rparr>"
  define u2 where "u2 = u1\<lparr>lsr_reads := 0x21 # 0x21 # ls, io_reads := ios, UART_READ_BUFFER := rb, uart_read_idx := 2\<rparr>"
  define u3 where "u3 = u2\<lparr>uart_read_idx := 1\<rparr>"
  define u4 where "u4 = u3\<lparr>UART_TRANSMIT_BUFFER := (UART_TRANSMIT_BUFFER ?u)[0 := CHR ''b''], uart_transmit_idx := 1\<rparr>"
  define u5 where "u5 = u4\<lparr>AUX_MU_IER := 3\<rparr>"
  define u6 where "u6 = u5\<lparr>uart_read_idx := 0\<rparr>"
  define u7 where "u7 = u6\<lparr>UART_TRANSMIT_BUFFER := tb, uart_transmit_idx := 2\<rparr>"
  define u8 where "u8 = u7\<lparr>lsr_reads := 0x21 # ls, io_writes := io_writes ?u @ [0x61], uart_transmit_idx := 1\<rparr>"
  define u9 where "u9 = u8\<lparr>lsr_reads := ls, io_writes := io_writes ?u @ [0x61, 0x62], uart_transmit_idx := 0, AUX_MU_IER := 1\<rparr>"
  define st where "st = (\<lambda>v p. (set_uart v s)\<lparr>shell_pc := p\<rparr>)"
  define st' where "st' = (\<lambda>v p. (st v p)\<lparr>buffer := (buffer s)[0 := CHR ''b''], buffer_counter := 1\<rparr>)"
  have "s = st ?u Poll" using s(1) by (simp add: st_def set_uart_def)
  with r have "shell_reach True (st ?u Poll)" by simp
  then have "shell_reach True (st u1 Poll)"
    by (rule irq [of _ 4]) (simp_all add: ev st_def u u1_def Let_def ch)
  then have "shell_reach True (st u2 Poll)"
    by (rule irq [of _ 4]) (simp_all add: ev st_def u u1_def u2_def rb_def Let_def ch)
  then have "shell_reach True (st u3 (Popped CHR ''b''))"
    by (rule turn) (simp add: ev st_def u u1_def u2_def u3_def rb_def)
  then have "shell_reach True (st u4 (Pushed CHR ''b''))"
    by (rule turn) (simp add: ev st_def u u1_def u2_def u3_def u4_def)
  then have "shell_reach True (st u5 (Handle CHR ''b''))"
    by (rule turn) (simp add: ev st_def u u1_def u2_def u3_def u4_def u5_def)
  then have "shell_reach True (st' u5 Poll)"
    by (rule turn) (simp add: ev st_def st'_def s command_controller_def parse_def)
  then have "shell_reach True (st' u6 (Popped CHR ''a''))"
    by (rule turn) (simp add: ev st_def st'_def u u1_def u2_def u3_def u4_def u5_def u6_def rb_def)
  then have "shell_reach True (st' u7 (Pushed CHR ''a''))"
    by (rule turn) (simp add: ev st_def st'_def u u1_def u2_def u3_def u4_def u5_def u6_def u7_def tb_def)
  then have "shell_reach True (st' u8 (Pushed CHR ''a''))"
    by (rule irq [of _ 2]) (simp_all add: ev st_def st'_def u u1_def u2_def u3_def u4_def u5_def u6_def u7_def u8_def tb_def Let_def)
  then have "shell_reach True (st' u9 (Pushed CHR ''a''))"
    by (rule irq [of _ 2]) (simp_all add: ev st_def st'_def u u1_def u2_def u3_def u4_def u5_def u6_def u7_def u8_def u9_def tb_def Let_def)
  then have "shell_reach True (st' (u9\<lparr>AUX_MU_IER := 3\<rparr>) (Handle CHR ''a''))"
    by (rule turn) (simp add: ev st_def st'_def u9_def)
  moreover have "irq_raised 2 (uart (ker (st' (u9\<lparr>AUX_MU_IER := 3\<rparr>) (Handle CHR ''a''))))"
    "uart_transmit_idx (uart (ker (st' (u9\<lparr>AUX_MU_IER := 3\<rparr>) (Handle CHR ''a'')))) = 0"
    "shell_irq 2 (st' (u9\<lparr>AUX_MU_IER := 3\<rparr>) (Handle CHR ''a'')) = Inl Out_Of_Bounds"
    by (simp_all add: ev st_def st'_def u9_def)
  ultimately show ?thesis by blast
qed

section \<open>Properties\<close>

text \<open>A kernel whose line has two keys waiting.\<close>

definition two_keys :: kernel where
  "two_keys = sample_kernel\<lparr>uart := uart_reset (replicate 31 0x21) [0x61, 0x62]\<rparr>"

lemma two_keys_start:
  obtains s where "shell_start (replicate 256 NUL) two_keys = Inr s" "\<And>w. shell_reach w s"
    "buffer s = replicate 256 NUL" "buffer_counter s = 0" "shell_pc s = Poll"
    "lsr_reads (uart (ker s)) = [0x21, 0x21, 0x21, 0x21]" "io_reads (uart (ker s)) = [0x61, 0x62]"
    "uart_read_idx (uart (ker s)) = 0" "uart_transmit_idx (uart (ker s)) = 0"
proof -
  let ?u = "uart_reset (replicate 31 0x21) [0x61, 0x62]"
  have room: "tx_room ?u = 31" by (simp add: tx_room_def uart_reset_def)
  then obtain u where u: "enable_uart_interrupt ?u = Inr u" "tx_room ?u = tx_room u + 25"
    using enable_uart_interrupt_ready [of ?u] by auto
  have "\<exists>u'. uart_puts (''# '' @ [NUL]) u = Inr u' \<and> tx_sent u' = tx_sent u @ concat (map crlf ''# '') \<and>
      tx_room u = tx_room u' + length (concat (map crlf ''# ''))"
    by (rule uart_puts_sends) (use u(2) room in \<open>simp_all add: crlf_def\<close>)
  then obtain u' where u': "uart_puts (''# '' @ [NUL]) u = Inr u'" "tx_room u = tx_room u' + 2" by (auto simp: crlf_def)
  have "rx_same ((enable_uart_read_interrupt (?u\<lparr>AUX_MU_IER := 0\<rparr>))\<lparr>ENABLE_IRQS_1 := AUX_IRQ\<rparr>) u"
    using u(1) unfolding enable_uart_interrupt_def uart_printf_def by (rule serial_frame.format_keeps)
  moreover have "rx_same u u'" by (rule uart_puts_rx [OF u'(1)])
  ultimately have rx: "io_reads u' = [0x61, 0x62]" "set (lsr_reads u') \<subseteq> {0x21}"
    by (auto simp: rx_same_def enable_uart_read_interrupt_def uart_reset_def)
  then have all: "lsr_reads u' = replicate (length (lsr_reads u')) 0x21" by (intro replicate_eqI) auto
  have "filter (\<lambda>v. v AND 0x20 \<noteq> 0) (lsr_reads u') = lsr_reads u'" using rx(2) by (intro filter_True) auto
  then have "tx_room u' = length (lsr_reads u')" by (simp add: tx_room_def)
  then have ls: "lsr_reads u' = [0x21, 0x21, 0x21, 0x21]" using all u(2) u'(2) room by (simp add: numeral_eq_Suc)
  let ?s = "\<lparr>ker = two_keys\<lparr>uart := u'\<rparr>, buffer = replicate 256 NUL, buffer_counter = 0, shell_pc = Poll\<rparr>"
  have k: "uart two_keys = ?u" by (simp add: two_keys_def)
  have zero: "char_of (0 :: int) = NUL" by code_simp
  have "shell_start (replicate 256 NUL) two_keys = Inr ?s"
    using u(1) u'(1) by (simp add: shell_start_def k k_puts_def strset_fills zero)
  moreover from this have "shell_reach w ?s" for w
    by (intro reachable.at_start) (auto simp: shell_begins_def k uart_reset_def intro!: exI [of _ "replicate 256 NUL"] exI [of _ two_keys])
  moreover have "uart_read_idx u' = 0 \<and> uart_transmit_idx u' = 0"
    using uart_printf_buffers [OF u(1) [unfolded enable_uart_interrupt_def]] uart_puts_buffers [OF u'(1)]
    by (simp add: buffers_same_def enable_uart_read_interrupt_def uart_reset_def)
  ultimately show thesis using that [of ?s] rx(1) ls by simp
qed

text \<open>
  C28. The shell and the interrupt handler of the line. As long as no interrupt comes between the
  second critical section and the switching on of the transmit interrupt, both indices stay
  inside their buffers, the transmit interrupt is on exactly when there is something to send, and an access
  outside a buffer can only come from a key that arrives when 256 keys are unread, or from a
  character that is put into a full transmit buffer. An interrupt in that window breaks this:
  there is a run in which two keys are sent before the transmit interrupt is switched on, and
  the next interrupt reads the byte in front of the buffer.
\<close>

theorem shell_buffers_safe:
  assumes "shell_reach False s"
  shows "(let u = uart (ker s) in
      0 \<le> uart_read_idx u \<and> uart_read_idx u \<le> 256 \<and> 0 \<le> uart_transmit_idx u \<and> uart_transmit_idx u \<le> 256 \<and>
      (\<not> in_window (shell_pc s) \<longrightarrow> (AUX_MU_IER u AND 2 \<noteq> 0 \<longleftrightarrow> 0 < uart_transmit_idx u) \<and> AUX_MU_IER u AND 1 \<noteq> 0) \<and>
      (\<forall>iir. \<not> in_window (shell_pc s) \<and> irq_raised iir u \<and> shell_irq iir s = Inl Out_Of_Bounds \<longrightarrow>
         iir AND 0x06 = 0x04 \<and> uart_read_idx u = 256) \<and>
      (\<forall>env c. shell_pc s = Popped c \<longrightarrow> (shell_turn env s = Inl Out_Of_Bounds \<longleftrightarrow> uart_transmit_idx u = 256))) \<and>
    (\<exists>t. shell_reach True t \<and> irq_raised 2 (uart (ker t)) \<and> uart_transmit_idx (uart (ker t)) = 0 \<and>
       shell_irq 2 t = Inl Out_Of_Bounds)"
proof -
  have inv: "shell_inv s" by (rule shell_loop.reachable_inv [OF assms])
  obtain s0 where s0: "\<And>w. shell_reach w s0" "buffer s0 = replicate 256 NUL" "buffer_counter s0 = 0" "shell_pc s0 = Poll"
    "lsr_reads (uart (ker s0)) = [0x21, 0x21, 0x21, 0x21]" "io_reads (uart (ker s0)) = [0x61, 0x62]"
    "uart_read_idx (uart (ker s0)) = 0" "uart_transmit_idx (uart (ker s0)) = 0"
    by (rule two_keys_start) auto
  have "shell_inv s0" by (rule shell_loop.reachable_inv [OF s0(1)])
  then have "\<exists>t. shell_reach True t \<and> irq_raised 2 (uart (ker t)) \<and> uart_transmit_idx (uart (ker t)) = 0 \<and>
      shell_irq 2 t = Inl Out_Of_Bounds"
    using s0 by (intro window_race [where s = s0 and ls = "[]" and ios = "[]"])
      (simp_all add: shell_inv_def Let_def)
  moreover have "shell_turn env s = Inl Out_Of_Bounds \<longleftrightarrow> uart_transmit_idx (uart (ker s)) = 256" if "shell_pc s = Popped c" for env c
    using inv that by (auto simp: shell_turn_def shell_inv_def transmit_buffer_push_def wr_def Let_def)
  ultimately show ?thesis
    using inv shell_irq_fails [OF inv] by (auto simp: shell_inv_def Let_def split: if_splits)
qed

theorem shell_buffers_safe_witness:
  "\<exists>s. shell_reach False s \<and> shell_pc s = Popped CHR ''a'' \<and> 0 \<le> uart_transmit_idx (uart (ker s))"
proof -
  obtain s where s: "\<And>w. shell_reach w s" "shell_pc s = Poll" "lsr_reads (uart (ker s)) = [0x21, 0x21, 0x21, 0x21]"
    "io_reads (uart (ker s)) = [0x61, 0x62]" "uart_read_idx (uart (ker s)) = 0" "uart_transmit_idx (uart (ker s)) = 0"
    by (rule two_keys_start) auto
  have inv: "shell_inv s" by (rule shell_loop.reachable_inv [OF s(1)])
  have ch: "char_of (97 :: nat) = CHR ''a''" by code_simp
  let ?u = "uart (ker s)"
  define u1 where "u1 = ?u\<lparr>lsr_reads := [0x21, 0x21, 0x21], io_reads := [0x62],
    UART_READ_BUFFER := (UART_READ_BUFFER ?u)[0 := CHR ''a''], uart_read_idx := 1\<rparr>"
  have "shell_irq 4 s = Inr (set_uart u1 s)" "irq_raised 4 ?u"
    using s inv
    by (simp_all add: shell_irq_def shell_uart_irq_handler_def uart_getc_def read_buffer_put_def wr_def irq_raised_def
        shell_inv_def u1_def Let_def ch)
  then have "shell_step False s (set_uart u1 s)" using s(2) by (intro shell_step.irq [of _ _ 4]) simp_all
  with s(1) have "shell_reach False (set_uart u1 s)" by (rule reachable.next_step)
  moreover have "shell_turn undefined (set_uart u1 s) = Inr (Inr ((set_uart (u1\<lparr>uart_read_idx := 0\<rparr>) s)\<lparr>shell_pc := Popped CHR ''a''\<rparr>))"
    using s inv by (simp add: shell_turn_def read_buffer_pop_def rd_def set_uart_def u1_def shell_inv_def Let_def)
  then have "shell_step False (set_uart u1 s) ((set_uart (u1\<lparr>uart_read_idx := 0\<rparr>) s)\<lparr>shell_pc := Popped CHR ''a''\<rparr>)"
    by (rule shell_step.turn)
  ultimately have "shell_reach False ((set_uart (u1\<lparr>uart_read_idx := 0\<rparr>) s)\<lparr>shell_pc := Popped CHR ''a''\<rparr>)"
    by (rule reachable.next_step)
  from this shell_buffers_safe [OF this] show ?thesis by (intro exI conjI) (assumption, simp, simp add: Let_def)
qed

end
