(* ===== verification/Bootloader.thy ===== *)
theory Bootloader
  imports Uart
begin

text \<open>
  The bootloader under \<open>src/bootloader/\<close>: its line editor, its commands, and the loader that
  receives a kernel over the serial line. Its driver, string routines and \<open>printf\<close> are copies
  of the kernel's and share their models; only its \<open>reverse\<close> differs. It has no interrupts, so
  reading and writing wait for the line. Its own relocation, in \<open>start.S\<close>, is not modelled.
\<close>

record boot_state =
  b_uart :: uart_state
  b_mem :: "u64 \<Rightarrow> char"
  b_wdog :: u32
  b_rstc :: u32

text \<open>A command comes back, resets the machine, or jumps to an address.\<close>

datatype boot_outcome =
    B_Returns boot_state
  | B_Rebooting boot_state
  | B_Jump boot_state u64

abbreviation BOOT_BUFFER_LEN :: int where "BOOT_BUFFER_LEN \<equiv> 128"
abbreviation KERNEL_ADDR :: u64 where "KERNEL_ADDR \<equiv> 0x80000"

definition b_puts :: "cbuf \<Rightarrow> boot_state \<Rightarrow> boot_state result" where
  "b_puts t s = bind_result (uart_puts t (b_uart s)) (\<lambda>u. Inr (s\<lparr>b_uart := u\<rparr>))"

fun b_puts_all :: "cbuf list \<Rightarrow> boot_state \<Rightarrow> boot_state result" where
  "b_puts_all [] s = Inr s"
| "b_puts_all (t # ts) s = bind_result (b_puts t s) (b_puts_all ts)"

definition b_printf :: "string \<Rightarrow> vararg list \<Rightarrow> boot_state \<Rightarrow> boot_state result" where
  "b_printf fmt va s = bind_result (uart_printf fmt va (b_uart s)) (\<lambda>u. Inr (s\<lparr>b_uart := u\<rparr>))"

definition b_send :: "char \<Rightarrow> boot_state \<Rightarrow> boot_state result" where
  "b_send c s = bind_result (uart_send (of_char c) (b_uart s)) (\<lambda>u. Inr (s\<lparr>b_uart := u\<rparr>))"

definition b_getc :: "boot_state \<Rightarrow> (boot_state \<times> char) result" where
  "b_getc s = bind_result (uart_getc (b_uart s)) (\<lambda>(u, c). Inr (s\<lparr>b_uart := u\<rparr>, c))"

section \<open>Commands\<close>

definition boot_overflow_message :: "cbuf \<Rightarrow> boot_state \<Rightarrow> boot_state result" where
  "boot_overflow_message cmd =
     b_puts_all [''Follow command: '' @ [CHR 0x22, NUL], cmd, [CHR 0x22] @ ''... is too long to process.'' @ [NL, NUL],
       ''The maximum length of input is 128.'' @ [NL, NUL]]"

definition boot_help :: "boot_state \<Rightarrow> boot_state result" where
  "boot_help =
     b_puts_all (map (\<lambda>t. t @ [NL, NUL])
       ['''', ''Valid Command:'',
        [CHR 0x09] @ ''help:'' @ [CHR 0x09, CHR 0x09] @ ''print all available commands.'',
        [CHR 0x09] @ ''hello:'' @ [CHR 0x09, CHR 0x09] @ ''print '' @ [CHR 0x22] @ ''Hello World!'' @ [CHR 0x22] @ ''.'',
        [CHR 0x09] @ ''reboot:'' @ [CHR 0x09, CHR 0x09] @ ''reset rpi3.'',
        [CHR 0x09] @ ''loadKernel:'' @ [CHR 0x09, CHR 0x09] @ ''load new kernel to 0x80000.'',
        ''''])"

definition boot_hello :: "boot_state \<Rightarrow> boot_state result" where
  "boot_hello = b_puts (''Hello World!'' @ [NL, NUL])"

definition boot_not_found :: "cbuf \<Rightarrow> boot_state \<Rightarrow> boot_state result" where
  "boot_not_found cmd = b_puts_all [''Err: command '' @ [NUL], cmd, '' not found, try <help>'' @ [NL, NUL]]"

definition boot_reboot :: "boot_state \<Rightarrow> boot_outcome result" where
  "boot_reboot s =
     bind_result (b_puts (''Start Rebooting...'' @ [NL, NUL]) s) (\<lambda>s1.
       Inr (B_Rebooting (s1\<lparr>b_wdog := 0x5a000000 OR 0x20, b_rstc := 0x5a000000 OR 100\<rparr>)))"

text \<open>The loop that receives and echoes the digits of the size, up to the end of the line.\<close>

function read_size :: "cbuf \<Rightarrow> nat \<Rightarrow> boot_state \<Rightarrow> (cbuf \<times> boot_state) result" where
  "read_size buff count_digit s =
     bind_result (b_getc s) (\<lambda>(s1, char_recv).
     bind_result (b_printf ''%c'' [VInt (of_char char_recv)] s1) (\<lambda>s2.
     bind_result (wr buff count_digit char_recv) (\<lambda>b.
       if char_recv = NL then bind_result (wr b count_digit NUL) (\<lambda>b1. Inr (b1, s2))
       else read_size b (count_digit + 1) s2)))"
  by pat_completeness auto
termination
  by (relation "measure (\<lambda>(b, i, s). length b - i)") (auto simp: wr_def split: if_splits)

declare read_size.simps [simp del]

fun read_kernel :: "nat \<Rightarrow> u64 \<Rightarrow> boot_state \<Rightarrow> boot_state result" where
  "read_kernel 0 addr s = Inr s"
| "read_kernel (Suc n) addr s =
     bind_result (b_getc s) (\<lambda>(s1, c). read_kernel n (addr + 1) (s1\<lparr>b_mem := (b_mem s1)(addr := c)\<rparr>))"

text \<open>The loop over \<open>temp--\<close> counts the 32-bit pattern of the size down to zero.\<close>

definition command_loadkernel :: "cbuf \<Rightarrow> boot_state \<Rightarrow> boot_outcome result" where
  "command_loadkernel buff s =
     bind_result (b_printf (''Loading kernel size...'' @ [NL]) [] s) (\<lambda>s1.
     bind_result (read_size buff 0 s1) (\<lambda>(b, s2).
     bind_result (atoi b) (\<lambda>kernel_size.
     bind_result (b_printf (''Kernel size: %d'' @ [NL]) [VInt kernel_size] s2) (\<lambda>s3.
     bind_result (read_kernel (unat (word_of_int kernel_size :: u32)) KERNEL_ADDR s3) (\<lambda>s4.
     bind_result (b_printf (''Jumpy to new kernel'' @ [NL]) [] s4) (\<lambda>s5.
     bind_result (b_printf [NL, NL, NL, NL, NL] [] s5) (\<lambda>s6. Inr (B_Jump s6 KERNEL_ADDR))))))))"

section \<open>The line editor\<close>

datatype boot_key = Boot_BACK_SPACE | Boot_REGULAR_INPUT | Boot_NEW_LINE | Boot_UNKNOWN

definition boot_parse :: "char \<Rightarrow> boot_key" where
  "boot_parse c =
     (if c = CHR 0x7F then Boot_BACK_SPACE
      else if \<not> (int_of_char c < 128 \<and> 0 \<le> int_of_char c) then Boot_UNKNOWN
      else if c = NL \<or> c = CR then Boot_NEW_LINE
      else Boot_REGULAR_INPUT)"

definition b_returning :: "boot_state result \<Rightarrow> boot_outcome result" where
  "b_returning r = bind_result r (\<lambda>s. Inr (B_Returns s))"

text \<open>\<open>buff\<close> is what the local array of \<open>command_loadkernel\<close> holds.\<close>

definition boot_dispatch :: "cbuf \<Rightarrow> cbuf \<Rightarrow> boot_state \<Rightarrow> boot_outcome result" where
  "boot_dispatch buff buffer s =
     bind_result (strcmp buffer (''help'' @ [NUL])) (\<lambda>d. if d = 0 then b_returning (boot_help s) else
     bind_result (strcmp buffer (''hello'' @ [NUL])) (\<lambda>d. if d = 0 then b_returning (boot_hello s) else
     bind_result (strcmp buffer (''reboot'' @ [NUL])) (\<lambda>d. if d = 0 then boot_reboot s else
     bind_result (strcmp buffer (''loadKernel'' @ [NUL])) (\<lambda>d. if d = 0 then command_loadkernel buff s else
     b_returning (boot_not_found buffer s)))))"

definition boot_next_line :: "cbuf \<Rightarrow> boot_outcome \<Rightarrow> (boot_outcome \<times> cbuf \<times> int) result" where
  "boot_next_line buffer out =
     (case out of
        B_Returns s \<Rightarrow>
          bind_result (strset buffer 0 BOOT_BUFFER_LEN) (\<lambda>b.
          bind_result (b_puts (''# '' @ [NUL]) s) (\<lambda>s1. Inr (B_Returns s1, b, 0)))
      | _ \<Rightarrow> Inr (out, buffer, 0))"

definition boot_controller ::
  "cbuf \<Rightarrow> boot_key \<Rightarrow> char \<Rightarrow> cbuf \<Rightarrow> int \<Rightarrow> boot_state \<Rightarrow> (boot_outcome \<times> cbuf \<times> int) result" where
  "boot_controller buff key c buffer cnt s =
     (case key of
        Boot_UNKNOWN \<Rightarrow> Inr (B_Returns s, buffer, cnt)
      | Boot_BACK_SPACE \<Rightarrow>
          if 0 < cnt then bind_result (b_puts [CHR 0x08, CHR '' '', CHR 0x08, NUL] s) (\<lambda>s1. Inr (B_Returns s1, buffer, cnt - 1))
          else Inr (B_Returns s, buffer, cnt)
      | Boot_NEW_LINE \<Rightarrow>
          bind_result (b_send c s) (\<lambda>s1.
            if cnt = BOOT_BUFFER_LEN then
              bind_result (b_returning (boot_overflow_message buffer s1)) (boot_next_line buffer)
            else
              bind_result (wr buffer (nat cnt) NUL) (\<lambda>b.
              bind_result (boot_dispatch buff b s1) (boot_next_line b)))
      | Boot_REGULAR_INPUT \<Rightarrow>
          bind_result (b_send c s) (\<lambda>s1.
            if cnt < BOOT_BUFFER_LEN then bind_result (wr buffer (nat cnt) c) (\<lambda>b. Inr (B_Returns s1, b, cnt + 1))
            else Inr (B_Returns s1, buffer, cnt)))"

text \<open>One round of the loop of \<open>shell_start\<close>, and what comes before the loop.\<close>

definition boot_shell_round :: "cbuf \<Rightarrow> cbuf \<Rightarrow> int \<Rightarrow> boot_state \<Rightarrow> (boot_outcome \<times> cbuf \<times> int) result" where
  "boot_shell_round buff buffer cnt s =
     bind_result (b_getc s) (\<lambda>(s1, c). boot_controller buff (boot_parse c) c buffer cnt s1)"

definition boot_shell_start :: "cbuf \<Rightarrow> boot_state \<Rightarrow> (cbuf \<times> int \<times> boot_state) result" where
  "boot_shell_start garbage s =
     bind_result (strset garbage 0 BOOT_BUFFER_LEN) (\<lambda>b.
     bind_result (b_puts (''# '' @ [NUL]) s) (\<lambda>s1. Inr (b, 0, s1)))"

section \<open>Start\<close>

text \<open>\<open>0x5C\<close> is the backslash, \<open>0x27\<close> and \<open>0x60\<close> are the two quotes.\<close>

definition init_logo :: cbuf where
  "init_logo = [NL] @ concat (map (\<lambda>l. l @ [NL])
     [''  ___  ____  ____ ___   ____   ___ ____  _  __   __'',
      '' / _ '' @ [CHR 0x5C] @ ''/ ___||  _ '' @ [CHR 0x5C] @ ''_ _| |___ '' @ [CHR 0x5C] @ '' / _ '' @ [CHR 0x5C] @ ''___ '' @ [CHR 0x5C] @ ''/ | '' @ [CHR 0x5C] @ '' '' @ [CHR 0x5C] @ '' / /   _ _ __   __ _'',
      ''| | | '' @ [CHR 0x5C] @ ''___ '' @ [CHR 0x5C] @ ''| | | | |    __) | | | |__) | |  '' @ [CHR 0x5C] @ '' V / | | | '' @ [CHR 0x27] @ ''_ '' @ [CHR 0x5C] @ '' / _'' @ [CHR 0x60] @ '' |'',
      ''| |_| |___) | |_| | |   / __/| |_| / __/| |   | || |_| | | | | (_| |'',
      '' '' @ [CHR 0x5C] @ ''___/|____/|____/___| |_____|'' @ [CHR 0x5C] @ ''___/_____|_|   |_| '' @ [CHR 0x5C] @ ''__,_|_| |_|'' @ [CHR 0x5C] @ ''__, |'',
      ''                                                              |___/'']) @ [NL, NUL]"

definition boot_main :: "cbuf \<Rightarrow> boot_state \<Rightarrow> (cbuf \<times> int \<times> boot_state) result" where
  "boot_main garbage s =
     bind_result (b_printf ''%s'' [VStr init_logo] (s\<lparr>b_uart := uart_init (b_uart s)\<rparr>)) (boot_shell_start garbage)"

end
