(* ===== verification/Loader_Props.thy ===== *)
theory Loader_Props
  imports Bootloader Uart_Props
begin

text \<open>What the bootloader puts into memory, byte by byte.\<close>

section \<open>A line that is always ready\<close>

text \<open>Every status read reports data and an empty transmitter; \<open>rx\<close> is what will be received.\<close>

definition line_ready :: "nat \<Rightarrow> uart_state \<Rightarrow> bool" where
  "line_ready n u \<longleftrightarrow> (\<forall>v\<in>set (lsr_reads u). v AND 0x20 \<noteq> 0 \<and> v AND 0x01 \<noteq> 0) \<and> n \<le> length (lsr_reads u)"

definition rx :: "uart_state \<Rightarrow> string" where
  "rx u = map (\<lambda>v. char_of (unat v)) (io_reads u)"

definition received :: "char \<Rightarrow> char" where
  "received c = (if c = CR then NL else c)"

lemma line_ready_room: "line_ready n u \<Longrightarrow> tx_room u = length (lsr_reads u)"
  by (simp add: line_ready_def tx_room_def)

lemma b_printf_ready:
  assumes f: "tfp_format collect (replicate 12 NUL) (fmt @ [NUL]) va [] = Inr t" "length (concat (map crlf t)) \<le> n"
    and r: "line_ready (n + m) (b_uart s)"
  shows "\<exists>u. b_printf fmt va s = Inr (s\<lparr>b_uart := u\<rparr>) \<and> line_ready m u \<and> rx u = rx (b_uart s)"
proof -
  have "length (concat (map crlf t)) \<le> tx_room (b_uart s)"
    using line_ready_room [OF r] r f(2) by (simp add: line_ready_def)
  then obtain u where u: "uart_printf fmt va (b_uart s) = Inr u" "tx_room (b_uart s) = tx_room u + length (concat (map crlf t))"
    using serial.format_prints [of "replicate 12 NUL" "fmt @ [NUL]" va "[]" t "b_uart s"] f(1)
    by (auto simp: uart_printf_def serial.prints_def serial.encs_def)
  have k: "rx_same (b_uart s) u" using serial_frame.format_keeps u(1) by (simp add: uart_printf_def)
  have ready: "\<forall>v\<in>set (lsr_reads u). v AND 0x20 \<noteq> 0 \<and> v AND 0x01 \<noteq> 0"
    using k r by (auto simp: rx_same_def line_ready_def)
  then have "tx_room u = length (lsr_reads u)" using line_ready_room [of 0 u] by (simp add: line_ready_def)
  then have "line_ready m u"
    using ready u(2) line_ready_room [OF r] r f(2) by (simp add: line_ready_def)
  with u(1) k show ?thesis by (auto simp: b_printf_def rx_same_def rx_def)
qed

lemma b_getc_ready:
  assumes "line_ready (Suc n) (b_uart s)" "rx (b_uart s) = c # cs"
  shows "\<exists>u. b_getc s = Inr (s\<lparr>b_uart := u\<rparr>, received c) \<and> line_ready n u \<and> rx u = cs"
proof -
  obtain v vs where v: "lsr_reads (b_uart s) = v # vs" "v AND 0x01 \<noteq> 0"
    using assms(1) by (cases "lsr_reads (b_uart s)") (auto simp: line_ready_def)
  obtain w ws where w: "io_reads (b_uart s) = w # ws" "char_of (unat w) = c" "map (\<lambda>v. char_of (unat v)) ws = cs"
    using assms(2) by (cases "io_reads (b_uart s)") (auto simp: rx_def)
  let ?u = "(b_uart s)\<lparr>lsr_reads := vs, io_reads := ws\<rparr>"
  have "b_getc s = Inr (s\<lparr>b_uart := ?u\<rparr>, received c)"
    using v w by (simp add: b_getc_def uart_getc_def received_def Let_def)
  moreover have "line_ready n ?u" using assms(1) v(1) by (auto simp: line_ready_def)
  moreover have "rx ?u = cs" using w(3) by (simp add: rx_def)
  ultimately show ?thesis by blast
qed

section \<open>The size\<close>

lemma format_char: "tfp_format collect bf (''%c'' @ [NUL]) [VInt (of_char c)] [] = Inr [c]"
  by (simp add: format_unfold fmt_spec_def fmt_conv_def collect_apply)

lemma crlf_length: "length (crlf c) = (if c = NL then 2 else 1)"
  by (simp add: crlf_def)

lemma read_size_ready:
  assumes "rx (b_uart s) = t @ e # cs" "NL \<notin> set t" "CR \<notin> set t" "e \<in> {NL, CR}" "length t < length post"
    and "line_ready (2 * length t + 3 + m) (b_uart s)"
  shows "\<exists>u post'. read_size (pre @ post) (length pre) s = Inr (pre @ t @ NUL # post', s\<lparr>b_uart := u\<rparr>) \<and>
    line_ready m u \<and> rx u = cs"
  using assms
proof (induction t arbitrary: pre post s)
  case Nil
  from Nil.prems obtain d post' where post: "post = d # post'" by (cases post) auto
  have "line_ready (Suc (2 + m)) (b_uart s)" using Nil.prems(6) by (simp add: numeral_eq_Suc)
  from b_getc_ready [OF this, of e cs] Nil.prems(1,4) obtain u where u: "b_getc s = Inr (s\<lparr>b_uart := u\<rparr>, NL)" "line_ready (2 + m) u" "rx u = cs"
    by (auto simp: received_def)
  from b_printf_ready [OF format_char [of _ NL], of 2 m "s\<lparr>b_uart := u\<rparr>"] u obtain u1 where
    "b_printf ''%c'' [VInt (of_char NL)] (s\<lparr>b_uart := u\<rparr>) = Inr (s\<lparr>b_uart := u1\<rparr>)" "line_ready m u1" "rx u1 = cs"
    by (auto simp: crlf_length simp del: of_char_Char)
  with u(1) show ?case
    by (intro exI [of _ u1] exI [of _ post']) (subst read_size.simps, simp add: wr_def post del: of_char_Char)
next
  case (Cons c t)
  from Cons.prems obtain d post' where post: "post = d # post'" by (cases post) auto
  have c: "received c = c" "c \<noteq> NL" using Cons.prems(2,3) by (auto simp: received_def)
  have "line_ready (Suc (1 + (2 * length t + 3 + m))) (b_uart s)" using Cons.prems(6) by (simp add: numeral_eq_Suc)
  from b_getc_ready [OF this, of c "t @ e # cs"] Cons.prems(1) c(1) obtain u where
    u: "b_getc s = Inr (s\<lparr>b_uart := u\<rparr>, c)" "line_ready (1 + (2 * length t + 3 + m)) u" "rx u = t @ e # cs"
    by auto
  from b_printf_ready [OF format_char [of _ c], of 1 "2 * length t + 3 + m" "s\<lparr>b_uart := u\<rparr>"] u c(2) obtain u1 where
    u1: "b_printf ''%c'' [VInt (of_char c)] (s\<lparr>b_uart := u\<rparr>) = Inr (s\<lparr>b_uart := u1\<rparr>)" "line_ready (2 * length t + 3 + m) u1" "rx u1 = t @ e # cs"
    by (auto simp: crlf_length)
  from Cons.IH [of "s\<lparr>b_uart := u1\<rparr>" post' "pre @ [c]"] u1(2,3) Cons.prems(2-5) obtain u2 post2 where
    "read_size ((pre @ [c]) @ post') (length (pre @ [c])) (s\<lparr>b_uart := u1\<rparr>) = Inr ((pre @ [c]) @ t @ NUL # post2, s\<lparr>b_uart := u2\<rparr>)"
    "line_ready m u2" "rx u2 = cs"
    by (auto simp: post)
  with u(1) u1(1) c(2) show ?case
    by (intro exI [of _ u2] exI [of _ post2]) (subst read_size.simps, simp add: wr_def post)
qed

section \<open>The image\<close>

lemma unat_minus_1: "unat ((w :: u64) - 1) = (if w = 0 then 2 ^ 64 - 1 else unat w - 1)"
  by (cases "w = 0") (simp_all add: unat_minus_one unsigned_minus_1_eq_mask mask_eq_exp_minus_1)

lemma read_kernel_ready:
  assumes "rx (b_uart s) = img @ cs" "line_ready (length img + m) (b_uart s)" "length img < 2 ^ 64"
  shows "\<exists>u mm. read_kernel (length img) addr s = Inr (s\<lparr>b_uart := u, b_mem := mm\<rparr>) \<and> line_ready m u \<and> rx u = cs \<and>
    (\<forall>p. mm p = (if unat (p - addr) < length img then received (img ! unat (p - addr)) else b_mem s p))"
  using assms
proof (induction img arbitrary: addr s)
  case Nil
  then show ?case by (intro exI [of _ "b_uart s"] exI [of _ "b_mem s"]) simp
next
  case (Cons c img)
  from b_getc_ready [of "length img + m" s c "img @ cs"] Cons.prems obtain u where
    u: "b_getc s = Inr (s\<lparr>b_uart := u\<rparr>, received c)" "line_ready (length img + m) u" "rx u = img @ cs" by auto
  let ?s = "s\<lparr>b_uart := u, b_mem := (b_mem s)(addr := received c)\<rparr>"
  from Cons.IH [of ?s "addr + 1"] u Cons.prems(3) obtain v mm where
    v: "read_kernel (length img) (addr + 1) ?s = Inr (?s\<lparr>b_uart := v, b_mem := mm\<rparr>)" "line_ready m v" "rx v = cs"
    "\<forall>p. mm p = (if unat (p - (addr + 1)) < length img then received (img ! unat (p - (addr + 1))) else b_mem ?s p)"
    by auto
  have M: "mm p = (if unat (p - addr) < length (c # img) then received ((c # img) ! unat (p - addr)) else b_mem s p)" for p
  proof -
    have e: "p - (addr + 1) = (p - addr) - 1" by simp
    show ?thesis
    proof (cases "p = addr")
      case True
      then show ?thesis using v(4) [rule_format, of p] Cons.prems(3) unfolding e unat_minus_1 by simp
    next
      case False
      then have "p - addr \<noteq> 0" by simp
      then have "0 < unat (p - addr)" by (simp add: unat_gt_0)
      then obtain i where i: "unat (p - addr) = Suc i" using gr0_conv_Suc by blast
      then show ?thesis using v(4) [rule_format, of p] False \<open>p - addr \<noteq> 0\<close> unfolding e unat_minus_1 by simp
    qed
  qed
  have "read_kernel (length (c # img)) addr s = Inr (s\<lparr>b_uart := v, b_mem := mm\<rparr>)" using u(1) v(1) by simp
  then show ?case using v(2,3) M by blast
qed

section \<open>The loader\<close>

lemma size_message:
  assumes "0 \<le> x" "x < 2 ^ 31"
  obtains t where "tfp_format collect (replicate 12 NUL) ((''Kernel size: %d'' @ [NL]) @ [NUL]) [VInt x] [] = Inr t"
    "length (concat (map crlf t)) \<le> 50"
proof -
  have r: "- (2 ^ 31) \<le> x" using assms(1) by simp
  have x: "signed_take_bit 31 x = x" using r assms(2) by (intro signed_take_bit_int_eq_self) auto
  let ?t = "''Kernel size: '' @ show_int x @ [NL]"
  have "i2a x (replicate 12 NUL) = Inr (show_int x @ NUL # drop (Suc (length (show_int x))) (replicate 12 NUL))"
    by (rule i2a_show [OF r assms(2)]) simp
  then have "tfp_format collect (replicate 12 NUL) ((''Kernel size: %d'' @ [NL]) @ [NUL]) [VInt x] [] = Inr ?t"
    using x putchw_collect [OF show_int_not_NUL]
    by (simp add: format_unfold collect_apply fmt_spec_def fmt_conv_def fmt_number_def pad_def)
  moreover have "length (concat (map crlf ?t)) \<le> 50"
  proof -
    have "length (concat (map crlf u)) \<le> 2 * length u" for u by (induction u) (auto simp: crlf_def)
    from this [of "show_int x"] show_int_short [OF r assms(2)] show ?thesis by (simp add: crlf_def)
  qed
  ultimately show thesis by (rule that)
qed

text \<open>
  C40. The loader, on a line that is ready and carries the size of an image as a decimal line
  and then the image: it jumps to the load address with the image there and the rest of
  memory unchanged, except that every carriage return of the image has become a newline, since
  the image is received with the conversion meant for a terminal. So the image arrives as it
  was sent exactly when it has no byte 13.
\<close>

theorem loadkernel_correct:
  assumes ds: "set ds \<subseteq> {0..<10}" "foldl (\<lambda>n d. n * 10 + d) 0 ds = int (length img)" "length img < 2 ^ 31" "length ds < length buff"
    and line: "rx (b_uart s) = map digit_char ds @ e # img @ rest" "e \<in> {NL, CR}" "line_ready (2 * length ds + length img + 120) (b_uart s)"
  shows "\<exists>s'. command_loadkernel buff s = Inr (B_Jump s' KERNEL_ADDR) \<and> rx (b_uart s') = rest \<and>
    (\<forall>p. b_mem s' p = (if unat (p - KERNEL_ADDR) < length img then received (img ! unat (p - KERNEL_ADDR)) else b_mem s p)) \<and>
    ((\<forall>i<length img. b_mem s' (KERNEL_ADDR + of_nat i) = img ! i) \<longleftrightarrow> CR \<notin> set img)"
proof -
  let ?n = "length img"
  have dg: "NL \<notin> set (map digit_char ds)" "CR \<notin> set (map digit_char ds)"
  proof -
    have "\<forall>d\<in>{0..<10}. digit_char d \<noteq> NL \<and> digit_char d \<noteq> CR" by code_simp
    then show "NL \<notin> set (map digit_char ds)" "CR \<notin> set (map digit_char ds)" using ds(1) by (auto simp: subset_iff)
  qed
  have m1: "tfp_format collect (replicate 12 NUL) ((''Loading kernel size...'' @ [NL]) @ [NUL]) [] [] = Inr (''Loading kernel size...'' @ [NL])"
    "tfp_format collect (replicate 12 NUL) ((''Jumpy to new kernel'' @ [NL]) @ [NUL]) [] [] = Inr (''Jumpy to new kernel'' @ [NL])"
    "tfp_format collect (replicate 12 NUL) ([NL, NL, NL, NL, NL] @ [NUL]) [] [] = Inr [NL, NL, NL, NL, NL]"
    by (simp_all add: format_unfold collect_apply)
  have r0: "line_ready (24 + (2 * length ds + 3 + (50 + (?n + (21 + (10 + 12)))))) (b_uart s)" using line(3) by (simp add: line_ready_def)
  obtain u1 where u1: "b_printf (''Loading kernel size...'' @ [NL]) [] s = Inr (s\<lparr>b_uart := u1\<rparr>)"
    "line_ready (2 * length ds + 3 + (50 + (?n + (21 + (10 + 12))))) u1" "rx u1 = map digit_char ds @ e # img @ rest"
    using b_printf_ready [OF m1(1) _ r0] line(1) by (auto simp: crlf_def)
  obtain u2 post where u2: "read_size ([] @ buff) (length []) (s\<lparr>b_uart := u1\<rparr>) = Inr ([] @ map digit_char ds @ NUL # post, s\<lparr>b_uart := u2\<rparr>)"
    "line_ready (50 + (?n + (21 + (10 + 12)))) u2" "rx u2 = img @ rest"
    using read_size_ready [of "s\<lparr>b_uart := u1\<rparr>" "map digit_char ds" e "img @ rest" buff "50 + (?n + (21 + (10 + 12)))" "[]"]
      u1(2,3) line(2) dg ds(4) by auto
  have at: "atoi (map digit_char ds @ NUL # post) = Inr (int ?n)"
    using atoi_from_digits [OF ds(1), of "map digit_char ds @ NUL # post" "[]" post 0] ds(2,3) by (simp add: atoi_def)
  have un: "unat (word_of_int (int ?n) :: u32) = ?n" using ds(3) by (simp add: unat_of_nat take_bit_nat_eq_self)
  obtain t where t: "tfp_format collect (replicate 12 NUL) ((''Kernel size: %d'' @ [NL]) @ [NUL]) [VInt (int ?n)] [] = Inr t"
    "length (concat (map crlf t)) \<le> 50" using size_message [of "int ?n"] ds(3) by auto
  obtain u3 where u3: "b_printf (''Kernel size: %d'' @ [NL]) [VInt (int ?n)] (s\<lparr>b_uart := u2\<rparr>) = Inr (s\<lparr>b_uart := u3\<rparr>)"
    "line_ready (?n + (21 + (10 + 12))) u3" "rx u3 = img @ rest"
    using b_printf_ready [OF t, of "?n + (21 + (10 + 12))" "s\<lparr>b_uart := u2\<rparr>"] u2(2,3) by auto
  obtain u4 mm where u4: "read_kernel ?n KERNEL_ADDR (s\<lparr>b_uart := u3\<rparr>) = Inr (s\<lparr>b_uart := u4, b_mem := mm\<rparr>)"
    "line_ready (21 + (10 + 12)) u4" "rx u4 = rest"
    "\<forall>p. mm p = (if unat (p - KERNEL_ADDR) < ?n then received (img ! unat (p - KERNEL_ADDR)) else b_mem s p)"
    using read_kernel_ready [of "s\<lparr>b_uart := u3\<rparr>" img rest "21 + (10 + 12)" KERNEL_ADDR] u3(2,3) ds(3) by auto
  define s4 where "s4 = s\<lparr>b_uart := u4, b_mem := mm\<rparr>"
  have f4: "b_uart s4 = u4" "b_mem s4 = mm" by (simp_all add: s4_def)
  obtain u5 where u5: "b_printf (''Jumpy to new kernel'' @ [NL]) [] s4 = Inr (s4\<lparr>b_uart := u5\<rparr>)"
    "line_ready (10 + 12) u5" "rx u5 = rest"
    using b_printf_ready [OF m1(2), of 21 "10 + 12" s4] u4(2,3) f4(1) by (auto simp: crlf_def)
  obtain u6 where u6: "b_printf [NL, NL, NL, NL, NL] [] (s4\<lparr>b_uart := u5\<rparr>) = Inr (s4\<lparr>b_uart := u6\<rparr>)" "rx u6 = rest"
    using b_printf_ready [OF m1(3), of 10 12 "s4\<lparr>b_uart := u5\<rparr>"] u5(2,3) by (auto simp: crlf_def)
  let ?s = "s4\<lparr>b_uart := u6\<rparr>"
  have run: "command_loadkernel buff s = Inr (B_Jump ?s KERNEL_ADDR)"
    using u1(1) u2(1) at un u3(1) u4(1) [folded s4_def] u5(1) u6(1) by (simp add: command_loadkernel_def)
  have at_i: "mm (KERNEL_ADDR + of_nat i) = received (img ! i)" if "i < ?n" for i
  proof -
    have "unat (KERNEL_ADDR + of_nat i - KERNEL_ADDR) = i" using that ds(3) by (simp add: unat_of_nat take_bit_nat_eq_self)
    then show ?thesis using u4(4) that by simp
  qed
  have "(\<forall>i<?n. mm (KERNEL_ADDR + of_nat i) = img ! i) \<longleftrightarrow> CR \<notin> set img"
    using at_i by (auto simp: received_def in_set_conv_nth)
  then show ?thesis using run u4(4) u6(2) f4(2) by (intro exI [of _ ?s]) simp
qed

text \<open>A size line, an image of three bytes with a carriage return in it, and one byte more.\<close>

theorem loadkernel_correct_witness:
  "\<exists>s'. command_loadkernel (replicate 128 CHR ''?'')
      \<lparr>b_uart = uart_reset (replicate 200 0x21) (map of_char (''3'' @ [CR] @ [CHR ''A'', CR, CHR ''B''] @ ''z'')), b_mem = (\<lambda>_. NUL),
       b_wdog = 0, b_rstc = 0\<rparr> = Inr (B_Jump s' KERNEL_ADDR) \<and>
    b_mem s' 0x80000 = CHR ''A'' \<and> b_mem s' 0x80001 = NL \<and> b_mem s' 0x80002 = CHR ''B'' \<and> b_mem s' 0x80003 = NUL \<and>
    rx (b_uart s') = ''z''"
proof -
  let ?io = "''3'' @ [CR] @ [CHR ''A'', CR, CHR ''B''] @ ''z''"
  let ?s = "\<lparr>b_uart = uart_reset (replicate 200 0x21) (map of_char ?io), b_mem = (\<lambda>_. NUL), b_wdog = 0, b_rstc = 0\<rparr>"
  have d: "map digit_char [3] = ''3''" by code_simp
  have rx: "rx (b_uart ?s) = map digit_char [3] @ CR # [CHR ''A'', CR, CHR ''B''] @ ''z''"
    unfolding d by (simp add: rx_def uart_reset_def char_of_u32 del: of_char_Char)
  have l: "line_ready (2 * length [3 :: int] + length [CHR ''A'', CR, CHR ''B''] + 120) (b_uart ?s)"
    by (simp add: line_ready_def uart_reset_def)
  obtain s' where s': "command_loadkernel (replicate 128 CHR ''?'') ?s = Inr (B_Jump s' KERNEL_ADDR)" "rx (b_uart s') = ''z''"
    "\<forall>p. b_mem s' p = (if unat (p - KERNEL_ADDR) < 3 then received ([CHR ''A'', CR, CHR ''B''] ! unat (p - KERNEL_ADDR)) else NUL)"
    using loadkernel_correct [OF _ _ _ _ rx _ l, of "replicate 128 CHR ''?''"] by auto
  then show ?thesis by (auto simp: received_def)
qed

end
