(* ===== verification/Entry.thy ===== *)
theory Entry
  imports Sys Exception
begin

text \<open>
  Entering and leaving the kernel: the register frames of \<open>src/entry.S\<close>, the dispatch of system
  calls with their arguments and results, and \<open>ret_from_fork\<close>, where a new task begins. The
  state is that of the processor above the state of the kernel. What the hardware does on an exception and on
  \<open>eret\<close> is part of the model. \<open>enable_irq\<close> and \<open>disable_irq\<close> set the interrupt mask, which is not modelled.
\<close>

record machine =
  knl :: kernel
  xr :: "nat \<Rightarrow> u64"
  sp_el0 :: u64
  sp_el1 :: u64
  pc_reg :: u64
  psr :: u64
  elr_el1 :: u64
  spsr_el1 :: u64
  esr_el1 :: u64

abbreviation ESR_ELx_EC_SHIFT :: nat where "ESR_ELx_EC_SHIFT \<equiv> 26"
abbreviation ESR_ELx_EC_SVC64 :: u64 where "ESR_ELx_EC_SVC64 \<equiv> 0x15"
abbreviation S_FRAME_SIZE :: u64 where "S_FRAME_SIZE \<equiv> 272"

text \<open>
  An exception saves the address to return to, the processor state and the cause; \<open>eret\<close> restores
  the first two. An \<open>svc #0\<close> is four bytes long; its cause has the bit for a 32-bit instruction.
\<close>

definition take_exception :: "u64 \<Rightarrow> u64 \<Rightarrow> machine \<Rightarrow> machine" where
  "take_exception ret esr m = m\<lparr>elr_el1 := ret, spsr_el1 := psr m, esr_el1 := esr\<rparr>"

definition svc_0 :: "machine \<Rightarrow> machine" where
  "svc_0 m = take_exception (pc_reg m + 4) (push_bit ESR_ELx_EC_SHIFT ESR_ELx_EC_SVC64 OR 0x2000000) m"

definition eret :: "machine \<Rightarrow> machine" where
  "eret m = m\<lparr>pc_reg := elr_el1 m, psr := spsr_el1 m\<rparr>"

section \<open>Register frames\<close>

text \<open>The frame \<open>kernel_entry\<close> builds, of the type \<open>struct pt_regs\<close> of the C code.\<close>

definition entry_frame :: "nat \<Rightarrow> machine \<Rightarrow> pt_regs" where
  "entry_frame el m = \<lparr>regs = map (xr m) [0..<31], user_sp = if el = 0 then sp_el0 m else sp_el1 m,
     user_pc = elr_el1 m, pstate = spsr_el1 m\<rparr>"

definition kernel_entry :: "nat \<Rightarrow> machine \<Rightarrow> machine" where
  "kernel_entry el m =
     (let sp = sp_el1 m - S_FRAME_SIZE;
          x21 = (if el = 0 then sp_el0 m else sp + S_FRAME_SIZE)
      in m\<lparr>knl := upd_regs sp (\<lambda>_. entry_frame el m) (knl m), sp_el1 := sp,
           xr := (xr m)(21 := x21, 22 := elr_el1 m, 23 := spsr_el1 m)\<rparr>)"

definition kernel_exit :: "nat \<Rightarrow> machine \<Rightarrow> machine" where
  "kernel_exit el m =
     (let f = ptregs (knl m) (sp_el1 m)
      in eret (m\<lparr>sp_el0 := if el = 0 then user_sp f else sp_el0 m, elr_el1 := user_pc f, spsr_el1 := pstate f,
           xr := (\<lambda>n. if n < 31 then regs f ! n else xr m n), sp_el1 := sp_el1 m + S_FRAME_SIZE\<rparr>))"

text \<open>What becomes of the processor: it is back in the program, in the endless loop \<open>err_hang\<close>, or in another task.\<close>

datatype trap_end = Resumed machine | Hung kernel | Switched kernel

abbreviation SYNC_ERROR :: int where "SYNC_ERROR \<equiv> 16"
abbreviation SYSCALL_ERROR :: int where "SYSCALL_ERROR \<equiv> 17"

definition handle_invalid_entry :: "nat \<Rightarrow> int \<Rightarrow> machine \<Rightarrow> trap_end result" where
  "handle_invalid_entry el ty m =
     (let m1 = kernel_entry el m
      in bind_result (show_invalid_entry_message ty (esr_el1 m1) (elr_el1 m1) (knl m1)) (\<lambda>k. Inr (Hung k)))"

section \<open>System calls\<close>

text \<open>
  What a call finds outside: how long the ram disk is to be searched, the answer of the mailbox, the frequency of
  the timer, and what a function without a result leaves in \<open>x0\<close>. A negative result is sign-extended.
\<close>

record call_env =
  exec_fuel :: nat
  mbox_answer :: u32
  cntfrq :: u64
  x0_left :: u64

fun c_string :: "nat \<Rightarrow> memory \<Rightarrow> u64 \<Rightarrow> string result" where
  "c_string 0 m a = Inl No_Return"
| "c_string (Suc n) m a = (if m a = NUL then Inr [] else bind_result (c_string n m (a + 1)) (\<lambda>t. Inr (m a # t)))"

definition int_arg :: "u64 \<Rightarrow> int" where
  "int_arg x = sint (ucast x :: u32)"

definition no_result :: "call_env \<Rightarrow> kernel \<Rightarrow> (kernel \<times> u64 option) result" where
  "no_result env k = Inr (k, Some (x0_left env))"

definition int_result :: "(kernel \<times> int) result \<Rightarrow> (kernel \<times> u64 option) result" where
  "int_result r = bind_result r (\<lambda>(k, n). Inr (k, Some (word_of_int n)))"

text \<open>The call through the table, with the arguments in the registers \<open>x\<close>; \<open>None\<close> when it does not come back.\<close>

fun sys_call :: "call_env \<Rightarrow> sys_fn \<Rightarrow> (nat \<Rightarrow> u64) \<Rightarrow> kernel \<Rightarrow> (kernel \<times> u64 option) result" where
  "sys_call env Sys_gitPID x k = Inr (k, Some (word_of_int (sys_gitPID k)))"
| "sys_call env Sys_uart_read x k = int_result (sys_uart_read (x 0) (ucast (x 1)) k)"
| "sys_call env Sys_uart_write x k = int_result (sys_uart_write (x 0) (ucast (x 1)) k)"
| "sys_call env Sys_exec x k = int_result (sys_exec (exec_fuel env) (x 0) (x 1) k)"
| "sys_call env Sys_fork x k = int_result (sys_fork k)"
| "sys_call env Sys_exit x k = bind_result (sys_exit k) (\<lambda>k1. Inr (k1, None))"
| "sys_call env Sys_mbox_call x k = int_result (sys_mbox_call (ucast (x 0)) (x 1) (mbox_answer env) k)"
| "sys_call env Sys_kill x k = bind_result (sys_kill (int_arg (x 0)) k) (no_result env)"
| "sys_call env Sys_malloc x k = bind_result (sys_malloc (int_arg (x 0)) k) (\<lambda>(k1, a). Inr (k1, Some a))"
| "sys_call env Sys_clone x k = Inr (k, Some (word_of_int (sys_clone k)))"
| "sys_call env Sys_coreTimer_on x k = no_result env (sys_coreTimer_on (cntfrq env) k)"
| "sys_call env Sys_coreTimer_off x k = no_result env (sys_coreTimer_off k)"
| "sys_call env Sys_write x k = bind_result (c_string WALK_BOUND (mem k) (x 0)) (\<lambda>t. no_result env (sys_write t k))"

text \<open>\<open>ret_from_syscall\<close>: the result goes into the frame, in the place of \<open>x0\<close>.\<close>

definition ret_from_syscall :: "nat \<Rightarrow> u64 \<Rightarrow> machine \<Rightarrow> machine" where
  "ret_from_syscall el r m =
     kernel_exit el (m\<lparr>knl := upd_regs (sp_el1 m) (\<lambda>f. f\<lparr>regs := (regs f)[0 := r]\<rparr>) (knl m)\<rparr>)"

text \<open>
  The synchronous exception from level \<open>el\<close>. The code for level 1 leaves a number that is too large to the code for level 0.
\<close>

definition sync_exc_handler :: "call_env \<Rightarrow> nat \<Rightarrow> machine \<Rightarrow> trap_end result" where
  "sync_exc_handler env el m =
     (let m1 = kernel_entry el m
      in if drop_bit ESR_ELx_EC_SHIFT (esr_el1 m1) \<noteq> ESR_ELx_EC_SVC64 then handle_invalid_entry el SYNC_ERROR m1
         else case el0_svc (xr m1 8) of
             None \<Rightarrow> handle_invalid_entry 0 SYSCALL_ERROR m1
           | Some fn \<Rightarrow> bind_result (sys_call env fn (xr m1) (knl m1)) (\<lambda>(k, r).
               case r of
                 None \<Rightarrow> Inr (Switched k)
               | Some v \<Rightarrow> Inr (Resumed (ret_from_syscall el v (m1\<lparr>knl := k\<rparr>)))))"

text \<open>The stubs of \<open>sys.S\<close>: the number goes into \<open>w8\<close>, the arguments are in place.\<close>

definition svc_stub :: "u64 \<Rightarrow> machine \<Rightarrow> machine" where
  "svc_stub nr m = svc_0 (m\<lparr>xr := (xr m)(8 := nr)\<rparr>)"

definition syscall :: "call_env \<Rightarrow> nat \<Rightarrow> u64 \<Rightarrow> machine \<Rightarrow> trap_end result" where
  "syscall env el nr m = sync_exc_handler env el (svc_stub nr m)"

section \<open>Interrupts and new tasks\<close>

text \<open>An interrupt, taken at the address \<open>ret\<close>. If the task is switched out, the rest follows when it runs again.\<close>

definition irq_entry :: "irq_inputs \<Rightarrow> machine \<Rightarrow> trap_end result" where
  "irq_entry env m =
     (let m1 = kernel_entry 0 (take_exception (pc_reg m) (esr_el1 m) m)
      in bind_result (irq_exc_handler env (knl m1)) (\<lambda>k.
           Inr (if current k = current (knl m1) then Resumed (kernel_exit 0 (m1\<lparr>knl := k\<rparr>)) else Switched k)))"

text \<open>The registers \<open>cpu_switch_to\<close> loads.\<close>

definition load_context :: "cpu_context \<Rightarrow> machine \<Rightarrow> machine" where
  "load_context c m = m\<lparr>xr := (xr m)(19 := x19 c, 20 := x20 c, 21 := x21 c, 22 := x22 c, 23 := x23 c, 24 := x24 c,
     25 := x25 c, 26 := x26 c, 27 := x27 c, 28 := x28 c, 29 := ctx_fp c, 30 := ctx_pc c), sp_el1 := ctx_sp c, pc_reg := ctx_pc c\<rparr>"

text \<open>\<open>ret_from_fork\<close>: a kernel thread starts its function with its argument, any other task goes to user mode.\<close>

datatype task_begin = Thread_Starts u64 u64 machine | User_Starts machine

definition ret_to_user :: "machine \<Rightarrow> machine" where
  "ret_to_user m = kernel_exit 0 m"

definition run_ret_from_fork :: "machine \<Rightarrow> task_begin" where
  "run_ret_from_fork m =
     (let m1 = m\<lparr>knl := schedule_tail (knl m)\<rparr>
      in if xr m1 19 = 0 then User_Starts (ret_to_user m1)
         else Thread_Starts (xr m1 19) (xr m1 20) (m1\<lparr>xr := (xr m1)(0 := xr m1 20)\<rparr>))"

end
