(* ===== verification/Entry_Props.thy ===== *)
theory Entry_Props
  imports Entry Kernel_Steps
begin

text \<open>
  Entering and leaving the kernel: what a program sees of a system call, of an interrupt and of
  \<open>fork\<close>. It rests on the invariant of the kernel, which keeps the register frames of different tasks apart.
\<close>

section \<open>Frames\<close>

lemma kernel_entry_fields:
  "sp_el1 (kernel_entry el m) = sp_el1 m - S_FRAME_SIZE" "sp_el0 (kernel_entry el m) = sp_el0 m"
  "elr_el1 (kernel_entry el m) = elr_el1 m" "spsr_el1 (kernel_entry el m) = spsr_el1 m" "esr_el1 (kernel_entry el m) = esr_el1 m"
  "knl (kernel_entry el m) = upd_regs (sp_el1 m - S_FRAME_SIZE) (\<lambda>_. entry_frame el m) (knl m)"
  "n < 21 \<Longrightarrow> xr (kernel_entry el m) n = xr m n"
  by (simp_all add: kernel_entry_def Let_def)

lemma svc_stub_fields:
  "knl (svc_stub nr m) = knl m" "xr (svc_stub nr m) = (xr m)(8 := nr)" "sp_el0 (svc_stub nr m) = sp_el0 m" "sp_el1 (svc_stub nr m) = sp_el1 m"
  "elr_el1 (svc_stub nr m) = pc_reg m + 4" "spsr_el1 (svc_stub nr m) = psr m"
  "drop_bit ESR_ELx_EC_SHIFT (esr_el1 (svc_stub nr m)) = ESR_ELx_EC_SVC64"
  by (simp_all add: svc_stub_def svc_0_def take_exception_def)

text \<open>\<open>kernel_exit\<close> with the frame of an entry brings its registers back.\<close>

lemma kernel_exit_fields:
  assumes "ptregs (knl m') (sp_el1 m') = f"
  shows "n < 31 \<Longrightarrow> xr (kernel_exit el m') n = regs f ! n" "sp_el0 (kernel_exit 0 m') = user_sp f"
    "sp_el1 (kernel_exit el m') = sp_el1 m' + S_FRAME_SIZE" "pc_reg (kernel_exit el m') = user_pc f" "psr (kernel_exit el m') = pstate f"
    "knl (kernel_exit el m') = knl m'"
  using assms by (simp_all add: kernel_exit_def eret_def Let_def)

lemma entry_frame_fields:
  "n < 31 \<Longrightarrow> regs (entry_frame el m) ! n = xr m n" "length (regs (entry_frame el m)) = 31"
  "user_sp (entry_frame 0 m) = sp_el0 m" "user_pc (entry_frame el m) = elr_el1 m" "pstate (entry_frame el m) = spsr_el1 m"
  by (simp_all add: entry_frame_def)

text \<open>A program sees the registers of \<open>m\<close>, and the stack pointer of the kernel is back where it was.\<close>

definition same_registers :: "nat set \<Rightarrow> machine \<Rightarrow> machine \<Rightarrow> bool" where
  "same_registers R m m' \<longleftrightarrow> (\<forall>n\<in>R. xr m' n = xr m n) \<and> sp_el0 m' = sp_el0 m \<and> sp_el1 m' = sp_el1 m \<and> psr m' = psr m"

section \<open>System calls\<close>

lemma sys_call_args: "x 0 = y 0 \<Longrightarrow> x (Suc 0) = y (Suc 0) \<Longrightarrow> sys_call env fn x k = sys_call env fn y k"
  by (cases fn) simp_all

text \<open>The state in which a call from user mode finds the kernel.\<close>

definition entered :: "u64 \<Rightarrow> machine \<Rightarrow> kernel" where
  "entered nr m = upd_regs (sp_el1 m - S_FRAME_SIZE) (\<lambda>_. entry_frame 0 (svc_stub nr m)) (knl m)"

lemma entered_inv:
  assumes "kernel_inv (knl m)" "sp_el1 m = current (knl m) + THREAD_SIZE"
  shows "kernel_inv (entered nr m)" "current (entered nr m) = current (knl m)"
    "ptregs (entered nr m) (task_pt_regs (current (knl m))) = entry_frame 0 (svc_stub nr m)" "stack_users (entered nr m) = stack_users (knl m)"
proof -
  have sp: "sp_el1 m - S_FRAME_SIZE = task_pt_regs (current (knl m))" using assms(2) by (simp add: task_pt_regs_def)
  show "kernel_inv (entered nr m)" by (rule kernel_inv_frame [OF assms(1)]) (simp_all add: entered_def)
  show "current (entered nr m) = current (knl m)" "ptregs (entered nr m) (task_pt_regs (current (knl m))) = entry_frame 0 (svc_stub nr m)"
    "stack_users (entered nr m) = stack_users (knl m)"
    by (simp_all add: entered_def sp stack_users_def live_tasks_def live_def)
qed

lemma uart_write_from_frames: "uart_write_from n buf k = Inr k' \<Longrightarrow> ptregs k' = ptregs k"
  by (induction n arbitrary: buf k) (fastforce simp: bind_result_Inr_iff)+

lemma uart_read_from_frames: "uart_read_from n buf k = Inr k' \<Longrightarrow> ptregs k' = ptregs k"
  by (induction n arbitrary: buf k) (fastforce simp: bind_result_Inr_iff)+

lemma dump_task_frames: "ptregs (fold dump_task is k) = ptregs k \<and> current (fold dump_task is k) = current k"
  by (induction "is" arbitrary: k) (simp_all add: dump_task_def)

lemma dumpTasksState_frames [simp]: "ptregs (dumpTasksState k) = ptregs k" "current (dumpTasksState k) = current k"
  by (simp_all only: dumpTasksState_def dump_task_frames kprintf_simps)

text \<open>A call that comes back leaves the caller's frame alone, \<open>exec\<close> apart.\<close>

lemma sys_call_frame:
  assumes inv: "kernel_inv k" and fn: "fn \<noteq> Sys_exec" and r: "sys_call env fn x k = Inr (k', Some v)"
  shows "ptregs k' (task_pt_regs (current k)) = ptregs k (task_pt_regs (current k)) \<and> current k' = current k"
proof (cases fn)
  case Sys_fork
  then obtain i where f: "sys_fork k = Inr (k', i)" using r by (auto simp: int_result_def bind_result_Inr_iff)
  show ?thesis by (rule fork_obtain [OF inv f]) (simp add: task_pt_regs_inject)
next
  case Sys_uart_read
  then show ?thesis using r uart_read_from_frames uart_read_from_same
    by (fastforce simp: int_result_def sys_uart_read_def bind_result_Inr_iff same_kernel_def)
next
  case Sys_uart_write
  then show ?thesis using r uart_write_from_frames uart_write_from_same
    by (fastforce simp: int_result_def sys_uart_write_def bind_result_Inr_iff same_kernel_def)
next
  case Sys_kill
  then show ?thesis using r
    by (auto simp: no_result_def sys_kill_def bind_result_Inr_iff k_free_def set_task_def Let_def split: if_splits)
qed (use fn r in \<open>auto simp: int_result_def no_result_def sys_mbox_call_def sys_malloc_def k_malloc_def bind_result_Inr_iff
    sys_coreTimer_on_def sys_coreTimer_off_def sys_write_def\<close>)

lemma exec_frame:
  assumes "sys_exec fuel name argv k = Inr (k', n)"
  obtains sp t where "ptregs k' (task_pt_regs (current k)) = (ptregs k (task_pt_regs (current k)))\<lparr>user_sp := sp, user_pc := t,
    regs := (regs (ptregs k (task_pt_regs (current k))))[1 := sp]\<rparr>" "current k' = current k"
  using assms by (auto simp: sys_exec_def k_malloc_def bind_result_Inr_iff Let_def split: if_splits)

text \<open>The three ways a call from user mode ends.\<close>

lemma syscall_unfold:
  "syscall env 0 nr m =
     (case el0_svc nr of
        None \<Rightarrow> handle_invalid_entry 0 SYSCALL_ERROR (kernel_entry 0 (svc_stub nr m))
      | Some fn \<Rightarrow> bind_result (sys_call env fn (xr m) (entered nr m)) (\<lambda>(k, r).
          case r of None \<Rightarrow> Inr (Switched k)
          | Some v \<Rightarrow> Inr (Resumed (ret_from_syscall 0 v ((kernel_entry 0 (svc_stub nr m))\<lparr>knl := k\<rparr>)))))"
proof -
  let ?e = "kernel_entry 0 (svc_stub nr m)"
  have "knl ?e = entered nr m" by (simp add: kernel_entry_fields svc_stub_fields entered_def)
  moreover have "sys_call env fn (xr ?e) k = sys_call env fn (xr m) k" for fn k
    by (rule sys_call_args) (simp_all add: kernel_entry_fields svc_stub_fields)
  ultimately show ?thesis
    by (cases "el0_svc nr") (simp_all add: syscall_def sync_exc_handler_def Let_def kernel_entry_fields svc_stub_fields)
qed

text \<open>What the program finds after \<open>ret_from_syscall\<close>, given what the call did to its frame.\<close>

lemma ret_from_syscall_fields:
  assumes "sp_el1 m = current (knl m) + THREAD_SIZE" "f = ptregs k (task_pt_regs (current (knl m)))" "length (regs f) = 31"
    and m': "m' = ret_from_syscall 0 v ((kernel_entry 0 (svc_stub nr m))\<lparr>knl := k\<rparr>)"
  shows "xr m' 0 = v" "0 < n \<Longrightarrow> n < 31 \<Longrightarrow> xr m' n = regs f ! n" "sp_el0 m' = user_sp f" "sp_el1 m' = sp_el1 m" "pc_reg m' = user_pc f"
    "psr m' = pstate f" "knl m' = upd_regs (task_pt_regs (current (knl m))) (\<lambda>_. f\<lparr>regs := (regs f)[0 := v]\<rparr>) k"
proof -
  have sp: "sp_el1 m - S_FRAME_SIZE = task_pt_regs (current (knl m))" using assms(1) by (simp add: task_pt_regs_def)
  let ?k = "upd_regs (task_pt_regs (current (knl m))) (\<lambda>f. f\<lparr>regs := (regs f)[0 := v]\<rparr>) k"
  let ?x = "(kernel_entry 0 (svc_stub nr m))\<lparr>knl := ?k\<rparr>"
  have m: "m' = kernel_exit 0 ?x" by (simp add: m' ret_from_syscall_def kernel_entry_fields svc_stub_fields sp)
  have "ptregs (knl ?x) (sp_el1 ?x) = f\<lparr>regs := (regs f)[0 := v]\<rparr>"
    by (simp add: kernel_entry_fields svc_stub_fields sp assms(2))
  note K = kernel_exit_fields [OF this, folded m]
  show "xr m' 0 = v" using K(1) [of 0 0] assms(3) m by simp
  show "xr m' n = regs f ! n" if "0 < n" "n < 31" using K(1) [of n 0] that m by simp
  show "sp_el0 m' = user_sp f" "sp_el1 m' = sp_el1 m" "pc_reg m' = user_pc f" "psr m' = pstate f"
    using K(2) K(3-5) [of 0] m by (simp_all add: kernel_entry_fields svc_stub_fields)
  show "knl m' = upd_regs (task_pt_regs (current (knl m))) (\<lambda>_. f\<lparr>regs := (regs f)[0 := v]\<rparr>) k"
    using K(6) [of 0] m by (simp add: upd_regs_def assms(2))
qed

text \<open>
  C5. A system call from user mode, in every state the kernel can reach: the program goes on behind the
  call with the result in \<open>x0\<close>; the other registers, the number in \<open>x8\<close> apart, the stack pointers and the
  processor state are as they were. After \<open>exec\<close> it is at the new program with the new stack, \<open>x0\<close> is the number of
  arguments and \<open>x1\<close> points to them. A number above the limit of the table, which the
  stubs \<open>call_sys_write\<close> and \<open>call_sys_coreTimer_off\<close> pass, is never answered: the task
  ends in the endless loop \<open>err_hang\<close>.
\<close>

theorem svc_round_trip:
  assumes k: "reachable kernel_begins kernel_step (knl m)" and sp: "sp_el1 m = current (knl m) + THREAD_SIZE"
  shows "(\<forall>fn k v. el0_svc nr = Some fn \<longrightarrow> fn \<noteq> Sys_exec \<longrightarrow> sys_call env fn (xr m) (entered nr m) = Inr (k, Some v) \<longrightarrow>
      (\<exists>m'. syscall env 0 nr m = Inr (Resumed m') \<and> xr m' 0 = v \<and> xr m' 8 = nr \<and> same_registers ({1..30} - {8}) m m' \<and>
        pc_reg m' = pc_reg m + 4 \<and> (\<exists>f. knl m' = upd_regs (task_pt_regs (current (knl m))) f k))) \<and>
    (\<forall>k n. el0_svc nr = Some Sys_exec \<longrightarrow> sys_exec (exec_fuel env) (xr m 0) (xr m 1) (entered nr m) = Inr (k, n) \<longrightarrow>
      (\<exists>m'. syscall env 0 nr m = Inr (Resumed m') \<and> xr m' 0 = word_of_int n \<and> xr m' 1 = sp_el0 m' \<and>
        same_registers ({2..30} - {8}) (m\<lparr>sp_el0 := sp_el0 m'\<rparr>) m' \<and>
        sp_el0 m' = user_sp (ptregs k (task_pt_regs (current (knl m)))) \<and> pc_reg m' = user_pc (ptregs k (task_pt_regs (current (knl m)))))) \<and>
    (el0_svc nr = None \<longrightarrow> (\<exists>k. syscall env 0 nr m = Inr (Hung k)))"
proof (intro conjI allI impI)
  let ?c = "task_pt_regs (current (knl m))" and ?F = "entry_frame 0 (svc_stub nr m)"
  have "kernel_inv (knl m)" by (rule kernel_system.reachable_inv [OF k])
  note e = entered_inv [OF this sp, of nr]
  show "\<exists>m'. syscall env 0 nr m = Inr (Resumed m') \<and> xr m' 0 = v \<and> xr m' 8 = nr \<and> same_registers ({1..30} - {8}) m m' \<and>
      pc_reg m' = pc_reg m + 4 \<and> (\<exists>f. knl m' = upd_regs ?c f k)"
    if a: "el0_svc nr = Some fn" "fn \<noteq> Sys_exec" "sys_call env fn (xr m) (entered nr m) = Inr (k, Some v)" for fn k v
  proof -
    have f: "?F = ptregs k ?c" using sys_call_frame [OF e(1) a(2,3)] e(2,3) by simp
    note R = ret_from_syscall_fields [OF sp f entry_frame_fields(2) refl, where v = v and nr = nr]
    show ?thesis using a R by (auto simp: syscall_unfold same_registers_def entry_frame_fields svc_stub_fields)
  qed
  show "\<exists>m'. syscall env 0 nr m = Inr (Resumed m') \<and> xr m' 0 = word_of_int n \<and> xr m' 1 = sp_el0 m' \<and>
      same_registers ({2..30} - {8}) (m\<lparr>sp_el0 := sp_el0 m'\<rparr>) m' \<and> sp_el0 m' = user_sp (ptregs k ?c) \<and> pc_reg m' = user_pc (ptregs k ?c)"
    if a: "el0_svc nr = Some Sys_exec" "sys_exec (exec_fuel env) (xr m 0) (xr m 1) (entered nr m) = Inr (k, n)" for k n
  proof -
    obtain s t where f: "ptregs k ?c = ?F\<lparr>user_sp := s, user_pc := t, regs := (regs ?F)[1 := s]\<rparr>"
      using exec_frame [OF a(2)] e(2,3) by metis
    have l: "length (regs (ptregs k ?c)) = 31" by (simp add: f entry_frame_fields)
    note R = ret_from_syscall_fields [OF sp refl l refl, where v = "word_of_int n" and nr = nr]
    show ?thesis using a R by (auto simp: f syscall_unfold int_result_def same_registers_def entry_frame_fields svc_stub_fields)
  qed
  show "\<exists>k. syscall env 0 nr m = Inr (Hung k)" if "el0_svc nr = None"
    using that by (simp add: syscall_unfold handle_invalid_entry_def Let_def show_invalid_entry_message_def entry_error_messages_def)
qed

section \<open>New tasks\<close>

text \<open>
  C13. \<open>fork\<close> returns twice. When the call comes back to the parent, with the pid of the child in \<open>x0\<close>, the
  child is a task that can run. Whenever it is switched to for the first time, with its frame still as \<open>fork\<close> left it, it begins at
  \<open>ret_from_fork\<close> and goes to user mode at the same place as the parent, with 0 in \<open>x0\<close> and the
  parent's values in all other registers; its stack pointer has the place in its own stack that the parent's has in its own.
\<close>

theorem fork_returns_twice:
  assumes k: "reachable kernel_begins kernel_step (knl m)" and sp: "sp_el1 m = current (knl m) + THREAD_SIZE"
    and u: "unat (sp_el0 m - stack (tcb (knl m) (current (knl m)))) \<le> 4096"
    and r: "syscall env 0 4 m = Inr (Resumed m')"
  shows "\<exists>i p. xr m' 0 = word_of_int i \<and> 0 < i \<and> i < NR_TASKS \<and> pc_reg m' = pc_reg m + 4 \<and> task (knl m') i = p \<and> pid (tcb (knl m') p) = i \<and>
    p \<notin> live_tasks (knl m) \<and> runnable (knl m') p \<and> ctx_pc (cpu_ctx (tcb (knl m') p)) = ret_from_fork (knl m) \<and>
    (\<forall>mc. ptregs (knl mc) (task_pt_regs p) = ptregs (knl m') (task_pt_regs p) \<longrightarrow>
      (\<exists>mu. run_ret_from_fork (load_context (cpu_ctx (tcb (knl m') p)) mc) = User_Starts mu \<and> xr mu 0 = 0 \<and>
        (\<forall>n\<in>{1..30}. xr mu n = xr m' n) \<and> pc_reg mu = pc_reg m' \<and> psr mu = psr m' \<and> sp_el1 mu = p + THREAD_SIZE \<and>
        sp_el0 mu - stack (tcb (knl m') p) = sp_el0 m' - stack (tcb (knl m) (current (knl m)))))"
proof -
  let ?c = "current (knl m)" and ?k = "entered 4 m" and ?F = "entry_frame 0 (svc_stub 4 m)"
  have inv: "kernel_inv (knl m)" by (rule kernel_system.reachable_inv [OF k])
  note e = entered_inv [OF inv sp, of 4]
  have fn: "el0_svc 4 = Some Sys_fork" by (simp add: el0_svc_def NR_syscalls_def sys_call_table_def Let_def)
  obtain k' i where f: "sys_fork ?k = Inr (k', i)" and m': "m' = ret_from_syscall 0 (word_of_int i) ((kernel_entry 0 (svc_stub 4 m))\<lparr>knl := k'\<rparr>)"
    using r by (auto simp: syscall_unfold fn int_result_def bind_result_Inr_iff)
  have t: "tcb ?k = tcb (knl m)" "task ?k = task (knl m)" "ret_from_fork ?k = ret_from_fork (knl m)" by (simp_all add: entered_def)
  have l: "live_tasks ?k = live_tasks (knl m)" by (rule live_cong(2)) (rule t(2))
  show ?thesis
  proof (rule fork_obtain [OF e(1) f])
    fix m1 stk m2 p
    assume a: "p \<noteq> 0" "p \<notin> live_tasks ?k" "p \<noteq> current ?k" "first_free ?k i"
      "k' = ?k\<lparr>ktimer := (ktimer ?k)\<lparr>tm_mm := m2\<rparr>, mem := memcpy stk (stack (tcb ?k (current ?k))) PAGE_SIZE (mem ?k),
        task := (task ?k)(i := p), nr_tasks := nr_tasks ?k + 1, tcb := (tcb ?k)(p := new_task p 0 0 0 stk i ?k),
        ptregs := (ptregs ?k)(task_pt_regs p := forked_frame stk ?k)\<rparr>"
    have "ptregs k' (task_pt_regs ?c) = ?F" using a(3) e(2,3) by (simp add: a(5) task_pt_regs_inject)
    note R = ret_from_syscall_fields [OF sp this [symmetric] entry_frame_fields(2) m']
    have task: "task (knl m') i = p" "tcb (knl m') p = new_task p 0 0 0 stk i ?k" by (simp_all add: R(7) a(5))
    have fr: "ptregs (knl m') (task_pt_regs p) = ?F\<lparr>regs := (regs ?F)[0 := 0], user_sp := stk + (sp_el0 m - stack (tcb (knl m) ?c))\<rparr>"
      using a(3) e(2,3) u forked_frame_child [of ?k stk]
      by (simp add: R(7) a(5) task_pt_regs_inject child_frame_def t(1) entry_frame_fields svc_stub_fields Let_def)
    have i: "0 \<le> i" "i < NR_TASKS" "i \<noteq> 0" using a(4) inv by (auto simp: first_free_def kernel_inv_def runnable_def live_tasks_def live_def t(2))
    have run: "\<exists>mu. run_ret_from_fork (load_context (cpu_ctx (tcb (knl m') p)) mc) = User_Starts mu \<and> xr mu 0 = 0 \<and>
        (\<forall>n\<in>{1..30}. xr mu n = xr m' n) \<and> pc_reg mu = pc_reg m' \<and> psr mu = psr m' \<and> sp_el1 mu = p + THREAD_SIZE \<and>
        sp_el0 mu - stack (tcb (knl m') p) = sp_el0 m' - stack (tcb (knl m) ?c)"
      if "ptregs (knl mc) (task_pt_regs p) = ptregs (knl m') (task_pt_regs p)" for mc
    proof -
      let ?c = "cpu_ctx (new_task p 0 0 0 stk i ?k)"
      let ?m = "(load_context ?c mc)\<lparr>knl := schedule_tail (knl mc)\<rparr>"
      have c: "x19 ?c = 0" "ctx_sp ?c = task_pt_regs p" by (simp_all add: new_task_def zero_context_def)
      have "ptregs (knl ?m) (sp_el1 ?m) = ptregs (knl m') (task_pt_regs p)"
        using that c(2) by (simp add: load_context_def schedule_tail_def preempt_enable_def)
      note K = kernel_exit_fields [OF this [unfolded fr]]
      have "run_ret_from_fork (load_context ?c mc) = User_Starts (kernel_exit 0 ?m)"
        using c(1) by (simp add: run_ret_from_fork_def ret_to_user_def load_context_def Let_def)
      then show ?thesis
        using K(1) [where el = 0] K(2) K(3-5) [where el = 0] R(2-6) c(2)
        by (auto simp: task(2) entry_frame_fields svc_stub_fields new_task_def load_context_def task_pt_regs_def)
    qed
    have "i \<in> live (knl m')" using i a(1) by (simp add: live_def task)
    then have "p \<in> live_tasks (knl m')" unfolding live_tasks_def using task(1) by (rule_tac image_eqI [of _ _ i]) simp_all
    then have "runnable (knl m') p" by (simp add: runnable_def task new_task_def)
    moreover have "ctx_pc (cpu_ctx (tcb (knl m') p)) = ret_from_fork (knl m)" by (simp add: task new_task_def t(3))
    ultimately show ?thesis
      using run R(1,5) i task a(2) by (intro exI [of _ i] exI [of _ p]) (auto simp: l new_task_def entry_frame_fields svc_stub_fields)
  qed
qed

section \<open>Interrupts\<close>

text \<open>
  An interrupt, in any mode: either the interrupted program goes on with all its registers, or it is switched out and the
  frame with all its registers is kept until it runs again.
\<close>

theorem irq_transparent:
  assumes k: "reachable kernel_begins kernel_step (knl m)"
  shows "(\<exists>m'. irq_entry env m = Inr (Resumed m') \<and> same_registers {0..30} m m' \<and> pc_reg m' = pc_reg m) \<or>
    (\<exists>k'. irq_entry env m = Inr (Switched k') \<and>
      ptregs k' (sp_el1 m - S_FRAME_SIZE) = \<lparr>regs = map (xr m) [0..<31], user_sp = sp_el0 m, user_pc = pc_reg m, pstate = psr m\<rparr>)"
proof -
  let ?t = "take_exception (pc_reg m) (esr_el1 m) m"
  let ?e = "kernel_entry 0 ?t"
  have "kernel_inv (knl m)" by (rule kernel_system.reachable_inv [OF k])
  then have "kernel_inv (knl ?e)" by (rule kernel_inv_frame) (simp_all add: kernel_entry_fields take_exception_def)
  then obtain k' where k': "irq_exc_handler env (knl ?e) = Inr k'" "same_pool (knl ?e) k'" using irq_inv by metis
  have f: "ptregs k' (sp_el1 m - S_FRAME_SIZE) = entry_frame 0 ?t"
    using k'(2) by (simp add: same_pool_def kernel_entry_fields take_exception_def)
  show ?thesis
  proof (cases "current k' = current (knl ?e)")
    case True
    let ?m = "kernel_exit 0 (?e\<lparr>knl := k'\<rparr>)"
    have "ptregs (knl (?e\<lparr>knl := k'\<rparr>)) (sp_el1 (?e\<lparr>knl := k'\<rparr>)) = entry_frame 0 ?t"
      using f by (simp add: kernel_entry_fields take_exception_def)
    note K = kernel_exit_fields [OF this]
    have "same_registers {0..30} m ?m \<and> pc_reg ?m = pc_reg m"
      using K(1) [where el = 0] K(2) K(3-5) [where el = 0]
      by (auto simp: same_registers_def entry_frame_fields kernel_entry_fields take_exception_def)
    moreover have "irq_entry env m = Inr (Resumed ?m)" using k'(1) True by (simp add: irq_entry_def Let_def)
    ultimately show ?thesis by blast
  next
    case False
    then have "irq_entry env m = Inr (Switched k')" using k'(1) by (simp add: irq_entry_def Let_def)
    moreover have "entry_frame 0 ?t = \<lparr>regs = map (xr m) [0..<31], user_sp = sp_el0 m, user_pc = pc_reg m, pstate = psr m\<rparr>"
      by (simp add: entry_frame_def take_exception_def)
    ultimately show ?thesis using f by simp
  qed
qed

section \<open>The booted kernel\<close>

text \<open>Right after boot there is room for a fork.\<close>

lemma booted_fork:
  assumes b: "booted k a ps" and n: "length ps < 63"
  shows "\<exists>k' i. sys_fork k = Inr (k', i)"
proof -
  have h: "page_heap (kmm k) ps" using b by (simp add: booted_def)
  have l: "length ps < 4096" using n by simp
  obtain m1 p where p: "kmalloc 4096 (kmm k) = Inr (m1, page_at p)" "page_heap m1 (p # ps)"
    by (rule page_heap_alloc [OF h l], rule that)
  have "length (p # ps) < 4096" using n by simp
  then obtain m2 q where q: "kmalloc 4096 m1 = Inr (m2, page_at q)" "page_at q \<noteq> 0" "heap_range 4096 (page_at q)"
    by (rule page_heap_alloc [OF p(2)], rule_tac that)
  have c: "page_at q \<noteq> current k" using b q(3) by (auto simp: booted_def heap_range_def)
  have "int (length ps) + 1 \<notin> live k" "int (length ps) + 1 < NR_TASKS" using b n by (simp_all add: booted_def)
  then obtain i where "first_free k i"
    using first_free_exists [of "int (length ps) + 1" k] by (auto simp: live_def)
  then show ?thesis using sys_fork_run [of k m1 "page_at p" m2 "page_at q"] p(1) q(1,2) c by auto
qed

text \<open>A machine in which the booted kernel has just been left for user mode.\<close>

definition sample_machine :: "kernel \<Rightarrow> machine" where
  "sample_machine k = \<lparr>knl = k, xr = of_nat, sp_el0 = 4096, sp_el1 = current k + THREAD_SIZE, pc_reg = 0x10A0000, psr = 0,
     elr_el1 = 0, spsr_el1 = 0, esr_el1 = 0\<rparr>"

theorem svc_round_trip_witness:
  "\<forall>env. \<exists>m m'. sp_el1 m = current (knl m) + THREAD_SIZE \<and> (\<forall>n. xr m n = of_nat n) \<and> syscall env 0 0 m = Inr (Resumed m') \<and>
     xr m' 0 = 0 \<and> xr m' 7 = 7 \<and> pc_reg m' = 0x10A0004 \<and> (\<exists>k. syscall env 0 11 m = Inr (Hung k))"
proof
  fix env
  obtain k qs where k: "reachable kernel_begins kernel_step k" "booted k 0x90000 qs" "tcb k 0x90000 = INIT_TASK" by (rule boot_example)
  let ?m = "sample_machine k"
  have c: "current k = 0x90000" using k(2) by (simp add: booted_def)
  have "el0_svc 0 = Some Sys_gitPID" by (simp add: el0_svc_def NR_syscalls_def sys_call_table_def Let_def)
  moreover have "sys_call env Sys_gitPID (xr ?m) (entered 0 ?m) = Inr (entered 0 ?m, Some 0)"
    by (simp add: sys_gitPID_def entered_def sample_machine_def c k(3) INIT_TASK_def)
  moreover have "reachable kernel_begins kernel_step (knl ?m)" "sp_el1 ?m = current (knl ?m) + THREAD_SIZE"
    using k(1) by (simp_all add: sample_machine_def)
  ultimately obtain m' where m': "syscall env 0 0 ?m = Inr (Resumed m')" "xr m' 0 = 0" "same_registers ({1..30} - {8}) ?m m'" "pc_reg m' = pc_reg ?m + 4"
    using svc_round_trip [of ?m 0 env] by blast
  have "el0_svc 11 = None" by (simp add: el0_svc_def NR_syscalls_def Let_def)
  then have "\<exists>k. syscall env 0 11 ?m = Inr (Hung k)"
    using svc_round_trip [of ?m 11 env] k(1) by (simp add: sample_machine_def)
  with m' show "\<exists>m m'. sp_el1 m = current (knl m) + THREAD_SIZE \<and> (\<forall>n. xr m n = of_nat n) \<and> syscall env 0 0 m = Inr (Resumed m') \<and>
     xr m' 0 = 0 \<and> xr m' 7 = 7 \<and> pc_reg m' = 0x10A0004 \<and> (\<exists>k. syscall env 0 11 m = Inr (Hung k))"
    by (intro exI [of _ ?m] exI [of _ m']) (auto simp: same_registers_def sample_machine_def)
qed

theorem fork_returns_twice_witness:
  "\<forall>env. \<exists>m m' p mu. syscall env 0 4 m = Inr (Resumed m') \<and> runnable (knl m') p \<and> pc_reg m' = 0x10A0004 \<and>
     run_ret_from_fork (load_context (cpu_ctx (tcb (knl m') p)) m') = User_Starts mu \<and> xr mu 0 = 0 \<and> xr mu 7 = xr m' 7 \<and> pc_reg mu = 0x10A0004"
proof
  fix env
  obtain k qs where k: "reachable kernel_begins kernel_step k" "booted k 0x90000 qs" "length qs = 4" "tcb k 0x90000 = INIT_TASK"
    by (rule boot_example)
  let ?m = "sample_machine k"
  have c: "current k = 0x90000" using k(2) by (simp add: booted_def)
  have "booted (entered 4 ?m) 0x90000 qs"
  proof -
    have f: "task (entered 4 ?m) = task k" "tcb (entered 4 ?m) = tcb k" "current (entered 4 ?m) = current k" "nr_tasks (entered 4 ?m) = nr_tasks k"
      "ktimer (entered 4 ?m) = ktimer k" by (simp_all add: entered_def sample_machine_def)
    have "sched_inv (entered 4 ?m) = sched_inv k" using f by (intro sched_inv_cong) simp_all
    then show ?thesis using k(2) f live_cong [OF f(1)] by (simp add: booted_def)
  qed
  then obtain k' i where f: "sys_fork (entered 4 ?m) = Inr (k', i)" using booted_fork k(3) by fastforce
  have "el0_svc 4 = Some Sys_fork" by (simp add: el0_svc_def NR_syscalls_def sys_call_table_def Let_def)
  then obtain m' where m': "syscall env 0 4 ?m = Inr (Resumed m')" using f by (simp add: syscall_unfold int_result_def)
  have "reachable kernel_begins kernel_step (knl ?m)" "sp_el1 ?m = current (knl ?m) + THREAD_SIZE"
    "unat (sp_el0 ?m - stack (tcb (knl ?m) (current (knl ?m)))) \<le> 4096"
    using k(1,4) by (simp_all add: sample_machine_def c INIT_TASK_def)
  from fork_returns_twice [OF this m'] obtain p where p: "runnable (knl m') p" "pc_reg m' = pc_reg ?m + 4"
    "\<forall>mc. ptregs (knl mc) (task_pt_regs p) = ptregs (knl m') (task_pt_regs p) \<longrightarrow>
      (\<exists>mu. run_ret_from_fork (load_context (cpu_ctx (tcb (knl m') p)) mc) = User_Starts mu \<and> xr mu 0 = 0 \<and>
        (\<forall>n\<in>{1..30}. xr mu n = xr m' n) \<and> pc_reg mu = pc_reg m')" by blast
  from p(3) obtain mu where "run_ret_from_fork (load_context (cpu_ctx (tcb (knl m') p)) m') = User_Starts mu" "xr mu 0 = 0"
    "\<forall>n\<in>{1..30}. xr mu n = xr m' n" "pc_reg mu = pc_reg m'" by blast
  then show "\<exists>m m' p mu. syscall env 0 4 m = Inr (Resumed m') \<and> runnable (knl m') p \<and> pc_reg m' = 0x10A0004 \<and>
     run_ret_from_fork (load_context (cpu_ctx (tcb (knl m') p)) m') = User_Starts mu \<and> xr mu 0 = 0 \<and> xr mu 7 = xr m' 7 \<and> pc_reg mu = 0x10A0004"
    using m' p(1,2) by (intro exI [of _ ?m] exI [of _ m'] exI [of _ p] exI [of _ mu]) (simp add: sample_machine_def)
qed

end
