(* ===== verification/User_Lib.thy ===== *)
theory User_Lib
  imports Entry_Props
begin

text \<open>
  Formatted output of the user programs under \<open>src/rootfs/\<close>. Their \<open>printf.c\<close> is the kernel's, their \<open>putc\<close> makes
  a system call for every character, through a buffer of one byte on the user stack. \<open>off\<close> is the place
  the compiler gave the buffer, counted down from the stack pointer.
\<close>

definition user_putc :: "call_env \<Rightarrow> u64 \<Rightarrow> machine putcf" where
  "user_putc env off c m =
     (let buffer = sp_el0 m - off;
          m1 = m\<lparr>knl := (knl m)\<lparr>mem := (mem (knl m))(buffer := c)\<rparr>, xr := (xr m)(0 := buffer, 1 := 1)\<rparr>
      in bind_result (syscall env 0 2 m1) (\<lambda>e. case e of Resumed m2 \<Rightarrow> Inr m2 | _ \<Rightarrow> Inl No_Return))"

definition user_printf :: "call_env \<Rightarrow> u64 \<Rightarrow> string \<Rightarrow> vararg list \<Rightarrow> machine \<Rightarrow> machine result" where
  "user_printf env off fmt va m = tfp_format (user_putc env off) (replicate 12 NUL) (fmt @ [NUL]) va m"

section \<open>What a character does\<close>

text \<open>What \<open>putc\<close> leaves alone: the stack pointers, the registers a function has to keep, the tasks, and the memory but for the buffer.\<close>

definition user_keeps :: "u64 \<Rightarrow> machine \<Rightarrow> machine \<Rightarrow> bool" where
  "user_keeps off m m' \<longleftrightarrow> sp_el0 m' = sp_el0 m \<and> sp_el1 m' = sp_el1 m \<and> (\<forall>n\<in>{2..30} - {8}. xr m' n = xr m n) \<and>
     same_kernel (knl m) (knl m') \<and> kmm (knl m') = kmm (knl m) \<and> (\<forall>a. a \<noteq> sp_el0 m - off \<longrightarrow> mem (knl m') a = mem (knl m) a)"

lemma kernel_exit_xr: "30 < n \<Longrightarrow> xr (kernel_exit el m) n = xr m n"
  by (simp add: kernel_exit_def eret_def Let_def)

lemma user_putc_result:
  "user_putc env off c m = map_result (\<lambda>u. let m1 = m\<lparr>knl := (knl m)\<lparr>mem := (mem (knl m))(sp_el0 m - off := c)\<rparr>, xr := (xr m)(0 := sp_el0 m - off, 1 := 1)\<rparr>
     in ret_from_syscall 0 1 ((kernel_entry 0 (svc_stub 2 m1))\<lparr>knl := (entered 2 m1)\<lparr>uart := u\<rparr>\<rparr>)) (uart_send (of_char c) (uart (knl m)))"
proof -
  have "el0_svc 2 = Some Sys_uart_write" by (simp add: el0_svc_def NR_syscalls_def sys_call_table_def Let_def)
  then show ?thesis
    by (cases "uart_send (of_char c) (uart (knl m))")
      (simp_all add: user_putc_def Let_def syscall_unfold int_result_def sys_uart_write_def entered_def)
qed

lemma user_putc_step:
  assumes "user_putc env off c m = Inr m'"
  obtains u where "putc c (uart (knl m)) = Inr u" "uart (knl m') = u" "user_keeps off m m'"
proof -
  let ?m = "m\<lparr>knl := (knl m)\<lparr>mem := (mem (knl m))(sp_el0 m - off := c)\<rparr>, xr := (xr m)(0 := sp_el0 m - off, 1 := 1)\<rparr>"
  obtain u where u: "uart_send (of_char c) (uart (knl m)) = Inr u"
    and m': "m' = ret_from_syscall 0 1 ((kernel_entry 0 (svc_stub 2 ?m))\<lparr>knl := (entered 2 ?m)\<lparr>uart := u\<rparr>\<rparr>)"
    using assms by (cases "uart_send (of_char c) (uart (knl m))") (simp_all add: user_putc_result Let_def)
  let ?F = "entry_frame 0 (svc_stub 2 ?m)" and ?sp = "sp_el1 m - S_FRAME_SIZE"
  let ?x = "(kernel_entry 0 (svc_stub 2 ?m))\<lparr>knl := upd_regs ?sp (\<lambda>f. f\<lparr>regs := (regs f)[0 := 1]\<rparr>) ((entered 2 ?m)\<lparr>uart := u\<rparr>)\<rparr>"
  have m: "m' = kernel_exit 0 ?x" by (simp add: m' ret_from_syscall_def kernel_entry_fields svc_stub_fields)
  have "ptregs (knl ?x) (sp_el1 ?x) = ?F\<lparr>regs := (regs ?F)[0 := 1]\<rparr>" by (simp add: kernel_entry_fields svc_stub_fields entered_def)
  note K = kernel_exit_fields [OF this]
  have "user_keeps off m m'"
    using K(1) [where el = 0] K(2) K(3,6) [where el = 0]
    by (auto simp: m user_keeps_def same_kernel_def entry_frame_fields kernel_entry_fields svc_stub_fields entered_def)
  moreover have "uart (knl m') = u" using K(6) [of 0] by (simp add: m)
  moreover have "putc c (uart (knl m)) = Inr u" using u by (simp add: putc_def)
  ultimately show thesis using that by blast
qed

interpretation user_line: output_abstraction "user_putc env off" putc "\<lambda>m. uart (knl m)" for env off
proof
  show "map_result (\<lambda>m. uart (knl m)) (user_putc env off c m) = putc c (uart (knl m))" for c m
  proof (cases "user_putc env off c m")
    case (Inl e)
    then show ?thesis by (cases "uart_send (of_char c) (uart (knl m))") (simp_all add: user_putc_result putc_def)
  next
    case (Inr m')
    then show ?thesis by (auto elim!: user_putc_step)
  qed
qed

interpretation user_frame: output_frame "user_putc env off" "user_keeps off" for env off
proof
  show "user_putc env off c m = Inr m' \<Longrightarrow> user_keeps off m m'" for c m m' by (erule user_putc_step)
  show "user_keeps off m m" for m by (simp add: user_keeps_def same_kernel_def)
  show "user_keeps off m m1 \<Longrightarrow> user_keeps off m1 m2 \<Longrightarrow> user_keeps off m m2" for m m1 m2
    by (simp add: user_keeps_def same_kernel_def)
qed

text \<open>
  C25. A user program's \<open>printf\<close>, one system call for each character, does to the line exactly what the kernel's own \<open>printf\<close>
  does, for every format, all arguments and every behaviour of the device, failures included. It leaves alone
  the tasks and the allocator, the memory but for the one byte of its buffer, the stack pointers, and
  the registers but for \<open>x0\<close>, \<open>x1\<close> and \<open>x8\<close>.
\<close>

theorem user_printf_is_printf:
  "map_result (\<lambda>m. uart (knl m)) (user_printf env off fmt va m) = uart_printf fmt va (uart (knl m)) \<and>
   (\<forall>m'. user_printf env off fmt va m = Inr m' \<longrightarrow> user_keeps off m m')"
  unfolding user_printf_def uart_printf_def using user_line.format_abs user_frame.format_keeps by blast

text \<open>A program that prints a line; the device is ready for every character.\<close>

theorem user_printf_is_printf_witness:
  "\<forall>env. \<exists>m m'. user_printf env 16 (''ok'' @ [NL]) [] m = Inr m' \<and> tx_sent (uart (knl m')) = ''ok'' @ [NL, CR] \<and>
     mem (knl m') 0 = mem (knl m) 0 \<and> sp_el0 m' = sp_el0 m"
proof
  fix env
  obtain k :: kernel where "reachable kernel_begins kernel_step k" using boot_example by metis
  let ?u = "uart_reset (replicate 4 0x20) []"
  let ?m = "sample_machine (k\<lparr>uart := ?u\<rparr>)"
  have u: "\<exists>u'. uart_printf (''ok'' @ [NL]) [] ?u = Inr u' \<and> tx_sent u' = ''ok'' @ [NL, CR]"
  proof -
    have "tfp_format collect (replicate 12 NUL) ((''ok'' @ [NL]) @ [NUL]) [] [] = Inr ([] @ ''ok'' @ [NL])"
      by (simp add: format_unfold collect_apply)
    from serial.format_prints [OF this, of ?u] show ?thesis
      by (auto simp: uart_printf_def serial.prints_def serial.encs_def crlf_def tx_room_def uart_reset_def tx_sent_def)
  qed
  then obtain u' where u': "uart_printf (''ok'' @ [NL]) [] ?u = Inr u'" "tx_sent u' = ''ok'' @ [NL, CR]" by blast
  have "map_result (\<lambda>m. uart (knl m)) (user_printf env 16 (''ok'' @ [NL]) [] ?m) = Inr u'"
    using user_printf_is_printf [of env 16 _ _ ?m] u'(1) by (simp add: sample_machine_def)
  then obtain m' where m': "user_printf env 16 (''ok'' @ [NL]) [] ?m = Inr m'" "uart (knl m') = u'"
    by (cases "user_printf env 16 (''ok'' @ [NL]) [] ?m") simp_all
  with user_printf_is_printf [of env 16 _ _ ?m] have "user_keeps 16 ?m m'" by blast
  then have "mem (knl m') 0 = mem (knl ?m) 0" "sp_el0 m' = sp_el0 ?m" by (simp_all add: user_keeps_def sample_machine_def)
  with m' u'(2) show "\<exists>m m'. user_printf env 16 (''ok'' @ [NL]) [] m = Inr m' \<and> tx_sent (uart (knl m')) = ''ok'' @ [NL, CR] \<and>
     mem (knl m') 0 = mem (knl m) 0 \<and> sp_el0 m' = sp_el0 m" by blast
qed

end
