(* ===== verification/User_Prog.thy ===== *)
theory User_Prog
  imports User_Lib
begin

text \<open>
  The programs that run on the kernel: the kernel threads and test programs of \<open>src/main.c\<close>, and the
  user programs \<open>argv_test\<close> and \<open>fork_test\<close> of the ram disk. A program is the tree of what it does at the
  border to the kernel; local variables are the variables of the tree, so that the two tasks a
  \<open>fork\<close> leaves go on from the same values. \<open>delay\<close> is left out.
\<close>

section \<open>Programs\<close>

text \<open>
  \<open>Print\<close> is \<open>printf\<close> of the kernel image, \<open>My_Task\<close> reads the structure of the running task, \<open>Read\<close> and \<open>Write\<close> access user
  memory, \<open>Call\<close> is a system call with its number and its arguments, \<open>Yield\<close> a call of \<open>schedule\<close>, and \<open>To_User\<close> a call of \<open>move_to_user_mode\<close>,
  with the program in user mode and what follows if the call fails. \<open>Idle\<close> is the loop of task 0, \<open>Stop\<close> a loop that does nothing or a task that has exited.
\<close>

datatype prog =
    Print string "vararg list" prog
  | My_Task "task_struct \<Rightarrow> prog"
  | Read "memory \<Rightarrow> prog"
  | Write u64 string prog
  | Call u64 "u64 list" "u64 \<Rightarrow> prog"
  | Yield prog
  | To_User prog prog
  | Idle
  | Stop

text \<open>The stubs of \<open>sys.S\<close>, seen from a program.\<close>

abbreviation SYS_GETPID_NUMBER :: u64 where "SYS_GETPID_NUMBER \<equiv> 0"
abbreviation SYS_UARTREAD_NUMBER :: u64 where "SYS_UARTREAD_NUMBER \<equiv> 1"
abbreviation SYS_UARTWRITE_NUMBER :: u64 where "SYS_UARTWRITE_NUMBER \<equiv> 2"
abbreviation SYS_EXEC_NUMBER :: u64 where "SYS_EXEC_NUMBER \<equiv> 3"
abbreviation SYS_FORK_NUMBER :: u64 where "SYS_FORK_NUMBER \<equiv> 4"
abbreviation SYS_EXIT_NUMBER :: u64 where "SYS_EXIT_NUMBER \<equiv> 5"

definition getpid :: "(int \<Rightarrow> prog) \<Rightarrow> prog" where
  "getpid P = Call SYS_GETPID_NUMBER [] (\<lambda>r. P (int_arg r))"

definition uartread :: "u64 \<Rightarrow> u32 \<Rightarrow> (int \<Rightarrow> prog) \<Rightarrow> prog" where
  "uartread buf n P = Call SYS_UARTREAD_NUMBER [buf, ucast n] (\<lambda>r. P (int_arg r))"

definition uartwrite :: "u64 \<Rightarrow> u32 \<Rightarrow> (int \<Rightarrow> prog) \<Rightarrow> prog" where
  "uartwrite buf n P = Call SYS_UARTWRITE_NUMBER [buf, ucast n] (\<lambda>r. P (int_arg r))"

definition exec :: "u64 \<Rightarrow> u64 \<Rightarrow> (int \<Rightarrow> prog) \<Rightarrow> prog" where
  "exec name argv P = Call SYS_EXEC_NUMBER [name, argv] (\<lambda>r. P (int_arg r))"

definition fork :: "(int \<Rightarrow> prog) \<Rightarrow> prog" where
  "fork P = Call SYS_FORK_NUMBER [] (\<lambda>r. P (int_arg r))"

definition exit_call :: prog where
  "exit_call = Call SYS_EXIT_NUMBER [] (\<lambda>r. Stop)"

text \<open>The address of a local variable or of the stack pointer, \<open>off\<close> bytes below the end of the user stack.\<close>

definition stack_var :: "u64 \<Rightarrow> (u64 \<Rightarrow> prog) \<Rightarrow> prog" where
  "stack_var off P = My_Task (\<lambda>t. P (stack t + 4096 - off))"

text \<open>The eight bytes of a pointer, the lowest first.\<close>

definition ptr_bytes :: "u64 \<Rightarrow> string" where
  "ptr_bytes a = map (\<lambda>i. char_of (unat (drop_bit (8 * i) a) mod 256)) [0..<8]"

text \<open>A string argument of \<open>printf\<close> that lies in user memory.\<close>

definition with_string :: "u64 \<Rightarrow> (cbuf \<Rightarrow> prog) \<Rightarrow> prog" where
  "with_string a P = Read (\<lambda>m. case c_string WALK_BOUND m a of Inr t \<Rightarrow> P (t @ [NUL]) | Inl _ \<Rightarrow> Stop)"

section \<open>Kernel threads, \<open>main.c\<close>\<close>

text \<open>\<open>foo\<close>: the rounds that are left.\<close>

primrec foo_rounds :: "nat \<Rightarrow> prog" where
  "foo_rounds 0 = exit_call"
| "foo_rounds (Suc n) = My_Task (\<lambda>t. Print (''Thread id: %d %d'' @ [NL]) [VInt (pid t), VInt (2 - int (Suc n))] (Yield (foo_rounds n)))"

definition foo :: prog where
  "foo = foo_rounds 2"

definition kernel_thread :: "prog \<Rightarrow> prog" where
  "kernel_thread user = To_User user (Print (''Error while moving process to user mode'' @ [NL, CR]) [] Stop)"

section \<open>Test programs of \<open>main.c\<close>\<close>

text \<open>The variable \<open>ret\<close> is never assigned: the parent prints 0 for its child.\<close>

definition fork_test_line :: "u64 \<Rightarrow> int \<Rightarrow> prog \<Rightarrow> prog" where
  "fork_test_line off cnt P = getpid (\<lambda>p. stack_var off (\<lambda>a.
     Print (''pid: %d, cnt: %d, cnt_adress: 0x%x'' @ [NL]) [VInt p, VInt cnt, VInt (uint a)] P))"

definition fork_test_end :: prog where
  "fork_test_end = getpid (\<lambda>p. Print (''[exit] Task%d'' @ [NL]) [VInt p] exit_call)"

function fork_test_loop :: "u64 \<Rightarrow> int \<Rightarrow> prog" where
  "fork_test_loop off cnt = (if cnt < 5 then fork_test_line off cnt (fork_test_loop off (cnt + 1)) else fork_test_end)"
  by pat_completeness auto
termination
  by (relation "measure (\<lambda>(off, cnt). nat (5 - cnt))") auto

declare fork_test_loop.simps [simp del]

definition fork_test :: "u64 \<Rightarrow> prog" where
  "fork_test off =
     getpid (\<lambda>p. Print ([NL] @ ''[fork_test]Fork Test, pid %d'' @ [NL]) [VInt p]
       (fork_test_line off 1 (fork (\<lambda>r.
          if r = 0 then fork_test_line off 1 (fork (\<lambda>_. fork_test_loop off 2))
          else getpid (\<lambda>p. Print (''parent here, pid %d, child %d'' @ [NL]) [VInt p, VInt 0] fork_test_end)))))"

text \<open>\<open>lit\<close> gives the address of a string literal in the image of the program.\<close>

primrec print_args :: "nat \<Rightarrow> u64 \<Rightarrow> prog \<Rightarrow> prog" where
  "print_args 0 argv P = P"
| "print_args (Suc n) argv P =
     Read (\<lambda>m. with_string (of_nat (horner_sum of_char 256 (map (peek m argv) [0..<8]))) (\<lambda>t.
       Print (''%s'' @ [NL]) [VStr t] (print_args n (argv + 8) P)))"

definition exec_argv_test :: "u64 \<Rightarrow> (string \<Rightarrow> u64) \<Rightarrow> nat \<Rightarrow> u64 \<Rightarrow> prog" where
  "exec_argv_test off litr argc argv =
     getpid (\<lambda>p. Print ([NL] @ ''[exec_argv_test]Argv Test, pid %d'' @ [NL]) [VInt p]
       (print_args argc argv (stack_var off (\<lambda>fork_argv.
          Write fork_argv (ptr_bytes (litr ''fork_test'') @ ptr_bytes 0) (exec (litr ''fork_test'') fork_argv (\<lambda>_. Stop))))))"

definition user_process :: "u64 \<Rightarrow> (string \<Rightarrow> u64) \<Rightarrow> prog" where
  "user_process off litr =
     stack_var off (\<lambda>argv. Write argv (ptr_bytes 0) (exec (litr ''syscall.img'') argv (\<lambda>_.
       getpid (\<lambda>p. Print (''[exit] Task%d exit'' @ [NL]) [VInt p] exit_call))))"

definition test_waitQueue_uart_read :: "u64 \<Rightarrow> prog" where
  "test_waitQueue_uart_read off =
     Print (''[uart_read] Test syscall uart_read'' @ [NL]) [] (stack_var off (\<lambda>uart_read_buf.
       uartread uart_read_buf 3 (\<lambda>size. with_string uart_read_buf (\<lambda>t.
         Print ([NL] @ ''[uart_read] Read buf = %s, How many byte read = %d'' @ [NL]) [VStr t, VInt size] Stop))))"

section \<open>Programs of the ram disk\<close>

text \<open>\<open>printf\<close> of these programs: a store and a system call for every character of the formatted text.\<close>

definition user_chars :: "u64 \<Rightarrow> string \<Rightarrow> prog \<Rightarrow> prog" where
  "user_chars off = foldr (\<lambda>c P. stack_var off (\<lambda>buffer. Write buffer [c] (uartwrite buffer 1 (\<lambda>_. P))))"

definition user_print :: "u64 \<Rightarrow> string \<Rightarrow> vararg list \<Rightarrow> prog \<Rightarrow> prog" where
  "user_print off fmt va P =
     (case tfp_format collect (replicate 12 NUL) (fmt @ [NUL]) va [] of Inr t \<Rightarrow> user_chars off t P | Inl _ \<Rightarrow> Stop)"

text \<open>\<open>argv_test.c\<close>. The second write passes 14 for a text of 13 characters.\<close>

definition argv_test_main :: "u64 \<Rightarrow> u64 \<Rightarrow> (string \<Rightarrow> u64) \<Rightarrow> prog" where
  "argv_test_main off_c off litr =
     user_print off_c (''Init success'' @ [NL]) []
       (uartwrite (litr (''Successfully'' @ [NL])) 14 (\<lambda>_. stack_var off (\<lambda>fork_argv.
          Write fork_argv (ptr_bytes (litr ''fork_test'') @ ptr_bytes 0)
            (exec (litr ''fork_test.img'') fork_argv (\<lambda>_. exit_call)))))"

text \<open>\<open>fork_test.c\<close>. The parent returns from \<open>main\<close>, and \<open>start.S\<close> lets it loop for ever.\<close>

definition child_line :: "u64 \<Rightarrow> u64 \<Rightarrow> u64 \<Rightarrow> string \<Rightarrow> int \<Rightarrow> prog \<Rightarrow> prog" where
  "child_line off_c off_cnt off_sp who cnt P =
     stack_var off_sp (\<lambda>cur_sp. getpid (\<lambda>p. stack_var off_cnt (\<lambda>a.
       user_print off_c (who @ '' child pid: %d, cnt: %d, ptr: %x, sp : %x'' @ [NL])
         [VInt p, VInt cnt, VInt (uint a), VInt (uint cur_sp)] P)))"

function second_child_loop :: "u64 \<Rightarrow> u64 \<Rightarrow> u64 \<Rightarrow> int \<Rightarrow> prog" where
  "second_child_loop off_c off_cnt off_sp cnt =
     (if cnt < 5 then child_line off_c off_cnt off_sp ''second'' cnt (second_child_loop off_c off_cnt off_sp (cnt + 1)) else exit_call)"
  by pat_completeness auto
termination
  by (relation "measure (\<lambda>(a, b, c, cnt). nat (5 - cnt))") auto

declare second_child_loop.simps [simp del]

definition fork_test_main :: "u64 \<Rightarrow> u64 \<Rightarrow> u64 \<Rightarrow> prog" where
  "fork_test_main off_c off_cnt off_sp =
     getpid (\<lambda>p. user_print off_c ([NL] @ ''Fork Test, pid %d'' @ [NL]) [VInt p] (fork (\<lambda>ret.
       if ret = 0 then child_line off_c off_cnt off_sp ''first'' 1 (fork (\<lambda>ret.
         if ret \<noteq> 0 then child_line off_c off_cnt off_sp ''first'' 2 exit_call
         else second_child_loop off_c off_cnt off_sp 2))
       else getpid (\<lambda>p. user_print off_c (''parent here, pid %d, child %d'' @ [NL]) [VInt p, VInt ret] Stop))))"

end
