(* ===== verification/User_Steps.thy ===== *)
theory User_Steps
  imports User_Prog
begin

text \<open>
  The programs on the kernel: a step relation in which the running task does what its program does
  next, and interrupts come at any time. Every run of it is a run of the kernel, and what a
  program with forks prints in all its tasks does not depend on the order in which they run.
\<close>

section \<open>Steps\<close>

text \<open>The kernel, and for every task structure the program the task has still to run.\<close>

record user_system =
  kern :: kernel
  code :: "u64 \<Rightarrow> prog"

abbreviation running :: "user_system \<Rightarrow> prog" where
  "running s \<equiv> code s (current (kern s))"

text \<open>The running task has brought the kernel to \<open>k\<close> and goes on with \<open>P\<close>.\<close>

definition goes_on :: "user_system \<Rightarrow> kernel \<Rightarrow> prog \<Rightarrow> user_system" where
  "goes_on s k P = \<lparr>kern = k, code = (code s)(current (kern s) := P)\<rparr>"

text \<open>A task in user mode enters the kernel with some register frame.\<close>

definition with_frame :: "pt_regs \<Rightarrow> kernel \<Rightarrow> kernel" where
  "with_frame r k = k\<lparr>ptregs := (ptregs k)(task_pt_regs (current k) := r)\<rparr>"

definition store_bytes :: "u64 \<Rightarrow> string \<Rightarrow> kernel \<Rightarrow> kernel" where
  "store_bytes a bs k = k\<lparr>mem := (\<lambda>p. if unat (p - a) < length bs then bs ! unat (p - a) else mem k p)\<rparr>"

definition call_args :: "u64 list \<Rightarrow> nat \<Rightarrow> u64" where
  "call_args args n = (if n < length args then args ! n else 0)"

text \<open>
  \<open>prog_at m\<close> is the program that starts at the load address in a memory \<open>m\<close>. A child of \<open>fork\<close> has the program of its parent, with
  0 as the result. No program here kills another one. A call the kernel does not know ends, after a message, in \<open>err_hang\<close>. As
  in \<open>kernel_step\<close>, of a round of \<open>main\<close> only the call of \<open>schedule\<close> is followed.
\<close>

inductive user_step :: "(memory \<Rightarrow> prog) \<Rightarrow> user_system \<Rightarrow> user_system \<Rightarrow> bool" for prog_at where
  u_print: "running s = Print fmt va P \<Longrightarrow> user_step prog_at s (goes_on s (kprintf fmt va (kern s)) P)"
| u_my_task: "running s = My_Task f \<Longrightarrow> user_step prog_at s (goes_on s (kern s) (f (tcb (kern s) (current (kern s)))))"
| u_read: "running s = Read f \<Longrightarrow> user_step prog_at s (goes_on s (kern s) (f (mem (kern s))))"
| u_write: "running s = Write a bs P \<Longrightarrow> user_step prog_at s (goes_on s (store_bytes a bs (kern s)) P)"
| u_yield: "running s = Yield P \<Longrightarrow> schedule (kern s) = Inr k \<Longrightarrow> user_step prog_at s (goes_on s k P)"
| u_to_user: "running s = To_User P Q \<Longrightarrow> move_to_user_mode pc (kern s) = Inr (k, err) \<Longrightarrow>
    user_step prog_at s (goes_on s k (if err < 0 then Q else P))"
| u_call: "running s = Call nr args P \<Longrightarrow> el0_svc nr = Some fn \<Longrightarrow> fn \<notin> {Sys_fork, Sys_exec, Sys_kill} \<Longrightarrow>
    sys_call env fn (call_args args) (with_frame r (kern s)) = Inr (k, Some v) \<Longrightarrow> user_step prog_at s (goes_on s k (P v))"
| u_fork: "running s = Call nr args P \<Longrightarrow> el0_svc nr = Some Sys_fork \<Longrightarrow> sys_fork (with_frame r (kern s)) = Inr (k, i) \<Longrightarrow>
    user_step prog_at s \<lparr>kern = k, code = (code s)(current (kern s) := P (word_of_int i), task k i := P 0)\<rparr>"
| u_exec: "running s = Call nr args P \<Longrightarrow> el0_svc nr = Some Sys_exec \<Longrightarrow>
    sys_exec fuel (call_args args 0) (call_args args 1) (with_frame r (kern s)) = Inr (k, n) \<Longrightarrow>
    user_step prog_at s (goes_on s k (prog_at (mem k)))"
| u_exit: "running s = Call nr args P \<Longrightarrow> el0_svc nr = Some Sys_exit \<Longrightarrow> sys_exit (with_frame r (kern s)) = Inr k \<Longrightarrow>
    user_step prog_at s (goes_on s k Stop)"
| u_unknown: "running s = Call nr args P \<Longrightarrow> el0_svc nr = None \<Longrightarrow>
    show_invalid_entry_message SYSCALL_ERROR esr elr (kern s) = Inr k \<Longrightarrow> user_step prog_at s (goes_on s k Stop)"
| u_idle: "running s = Idle \<Longrightarrow> schedule (kern s) = Inr k \<Longrightarrow> user_step prog_at s (goes_on s k Idle)"
| u_interrupt: "irq_exc_handler env (kern s) = Inr k \<Longrightarrow> user_step prog_at s (s\<lparr>kern := k\<rparr>)"

inductive_cases user_stepE: "user_step prog_at s s'"

text \<open>What the boot sequence starts: task 0 in its loop, three threads in \<open>foo\<close>, and one that enters user mode with the program \<open>user\<close>.\<close>

definition boot_code :: "prog \<Rightarrow> kernel \<Rightarrow> u64 \<Rightarrow> prog" where
  "boot_code user k p =
     (if p = task k 0 then Idle else if p \<in> {task k 1, task k 2, task k 3} then foo
      else if p = task k 4 then kernel_thread user else Stop)"

definition user_begins :: "prog \<Rightarrow> user_system \<Rightarrow> bool" where
  "user_begins user s \<longleftrightarrow> kernel_begins (kern s) \<and> code s = boot_code user (kern s)"

section \<open>The programs run on the kernel\<close>

lemma goes_on_fields [simp]:
  "kern (goes_on s k P) = k" "code (goes_on s k P) p = (if p = current (kern s) then P else code s p)"
  by (simp_all add: goes_on_def)

lemma with_frame_inv:
  assumes "kernel_inv k"
  shows "kernel_inv (with_frame r k)"
  by (rule kernel_inv_frame [OF assms]) (simp_all add: with_frame_def)

lemma with_frame_fields [simp]:
  "task (with_frame r k) = task k" "tcb (with_frame r k) = tcb k" "current (with_frame r k) = current k" "nr_tasks (with_frame r k) = nr_tasks k"
  "console (with_frame r k) = console k" "ktimer (with_frame r k) = ktimer k" "live_tasks (with_frame r k) = live_tasks k"
  by (simp_all add: with_frame_def live_tasks_def live_def)

lemma with_frame_step: "kernel_step k (with_frame r k)"
  using kernel_step.user_code [where k = k and m = "mem k" and c = "cpu k" and r = r] by (simp add: with_frame_def)

text \<open>Which calls leave the slots of the pool alone.\<close>

lemma sys_call_slots:
  assumes "fn \<notin> {Sys_fork, Sys_exec, Sys_exit, Sys_kill}" "sys_call env fn x k = Inr (k', v)"
  shows "(kernel_step k k' \<or> k' = k) \<and> task k' = task k"
proof (cases fn)
  case Sys_uart_read
  then obtain n where r: "sys_uart_read (x 0) (ucast (x 1)) k = Inr (k', n)" using assms(2) by (auto simp: int_result_def bind_result_Inr_iff)
  then have "task k' = task k" using uart_read_from_same by (fastforce simp: sys_uart_read_def bind_result_Inr_iff same_kernel_def)
  with kernel_step.uart_read [OF r] show ?thesis by blast
next
  case Sys_uart_write
  then obtain n where r: "sys_uart_write (x 0) (ucast (x 1)) k = Inr (k', n)" using assms(2) by (auto simp: int_result_def bind_result_Inr_iff)
  then have "task k' = task k" using uart_write_from_same by (fastforce simp: sys_uart_write_def bind_result_Inr_iff same_kernel_def)
  with kernel_step.uart_write [OF r] show ?thesis by blast
next
  case Sys_mbox_call
  then obtain n where r: "sys_mbox_call (ucast (x 0)) (x 1) (mbox_answer env) k = Inr (k', n)"
    using assms(2) by (auto simp: int_result_def bind_result_Inr_iff)
  then have "task k' = task k" by (auto simp: sys_mbox_call_def bind_result_Inr_iff)
  with kernel_step.mbox [OF r] show ?thesis by blast
next
  case Sys_malloc
  then obtain a where r: "sys_malloc (int_arg (x 0)) k = Inr (k', a)" using assms(2) by (auto simp: bind_result_Inr_iff)
  then have "task k' = task k" by (auto simp: sys_malloc_def k_malloc_def bind_result_Inr_iff)
  with kernel_step.malloc [OF r] show ?thesis by blast
next
  case Sys_coreTimer_on
  then have "k' = sys_coreTimer_on (cntfrq env) k" using assms(2) by (simp add: no_result_def)
  then show ?thesis using kernel_step.timer_on [of k "cntfrq env"] by (simp add: sys_coreTimer_on_def)
next
  case Sys_coreTimer_off
  then have "k' = sys_coreTimer_off k" using assms(2) by (simp add: no_result_def)
  then show ?thesis using kernel_step.timer_off [of k] by (simp add: sys_coreTimer_off_def)
next
  case Sys_write
  then obtain t where "k' = kprintf t [] k" using assms(2) by (auto simp: no_result_def sys_write_def bind_result_Inr_iff)
  then show ?thesis using kernel_step.print_text [of k t "[]"] by simp
qed (use assms in auto)

text \<open>One step of a program is at most two steps of the kernel, and task 0 stays in its loop.\<close>

definition run_ok :: "user_system \<Rightarrow> bool" where
  "run_ok s \<longleftrightarrow> reachable kernel_begins kernel_step (kern s) \<and> code s (task (kern s) 0) = Idle"

lemma run_ok_inv: "run_ok s \<Longrightarrow> kernel_inv (kern s)"
  unfolding run_ok_def by (rule kernel_system.reachable_inv) simp

lemma goes_on_ok:
  assumes ok: "run_ok s" and k: "kernel_step (kern s) k \<or> k = kern s \<or> kernel_step (with_frame r (kern s)) k \<or> k = with_frame r (kern s)"
    and t: "task k = task (kern s)" and P: "running s = Idle \<Longrightarrow> P = Idle"
  shows "run_ok (goes_on s k P)"
proof -
  have r: "reachable kernel_begins kernel_step (kern s)" using ok by (simp add: run_ok_def)
  then have "reachable kernel_begins kernel_step (with_frame r (kern s))" using with_frame_step by (rule reachable.next_step)
  with r k have "reachable kernel_begins kernel_step k" by (auto intro: reachable.next_step)
  then show ?thesis using ok t P by (auto simp: run_ok_def)
qed

lemma user_step_ok:
  assumes ok: "run_ok s" and step: "user_step prog_at s s'"
  shows "run_ok s'"
proof -
  let ?k = "kern s"
  have inv: "kernel_inv ?k" by (rule run_ok_inv [OF ok])
  have n0: "current ?k \<noteq> task ?k 0" if "running s \<noteq> Idle" using that ok by (auto simp: run_ok_def)
  show ?thesis
    using step
  proof cases
    case (u_print fmt va P)
    then show ?thesis using goes_on_ok [OF ok, of "kprintf fmt va ?k"] kernel_step.print_text by simp
  next
    case (u_write a bs P)
    have "kernel_step ?k (store_bytes a bs ?k)"
      using kernel_step.user_code [where k = ?k and m = "mem (store_bytes a bs ?k)" and c = "cpu ?k" and r = "ptregs ?k (task_pt_regs (current ?k))"]
      by (simp add: store_bytes_def)
    then show ?thesis using u_write goes_on_ok [OF ok, of "store_bytes a bs ?k"] by (simp add: store_bytes_def)
  next
    case (u_yield P k)
    then have "task k = task ?k" using schedule_inv [OF inv] by (auto simp: same_pool_def)
    then show ?thesis using u_yield goes_on_ok [OF ok, of k] kernel_step.yield [of ?k k] by simp
  next
    case (u_idle k)
    then have "task k = task ?k" using schedule_inv [OF inv] by (auto simp: same_pool_def)
    then show ?thesis using u_idle goes_on_ok [OF ok, of k] kernel_step.yield [of ?k k] by simp
  next
    case (u_to_user P Q pc k err)
    have c: "current ?k \<noteq> task ?k 0" using n0 u_to_user(2) by simp
    have "task k = task ?k" using enter_user_inv(2) [OF inv c u_to_user(3)] by (simp add: same_slots_def)
    then show ?thesis using u_to_user goes_on_ok [OF ok, of k] kernel_step.enter_user [OF c u_to_user(3)] by simp
  next
    case (u_call nr args P fn env r k v)
    then have "(kernel_step (with_frame r ?k) k \<or> k = with_frame r ?k) \<and> task k = task ?k"
      using sys_call_slots [of fn env "call_args args" "with_frame r ?k" k "Some v"] by (cases fn) (auto simp: bind_result_Inr_iff)
    then show ?thesis using u_call goes_on_ok [OF ok, of k r "P v"] by simp
  next
    case (u_exec nr args P fuel r k n)
    have "task k = task ?k" using u_exec(4) exec_frame by (fastforce simp: sys_exec_def k_malloc_def bind_result_Inr_iff Let_def split: if_splits)
    then show ?thesis using u_exec goes_on_ok [OF ok, of k r] kernel_step.exec [OF u_exec(4)] by simp
  next
    case (u_exit nr args P r k)
    have c: "current (with_frame r ?k) \<noteq> task (with_frame r ?k) 0" using n0 u_exit(2) by simp
    have "task k = task ?k"
      using exit_inv [OF with_frame_inv [OF inv] c] u_exit(4) by (auto simp: sys_exit_def same_slots_def)
    then show ?thesis using u_exit goes_on_ok [OF ok, of k r Stop] kernel_step.exit [OF c u_exit(4)] by simp
  next
    case (u_unknown nr args P esr elr k)
    then obtain fmt va where "k = kprintf fmt va ?k" by (auto simp: show_invalid_entry_message_def split: if_splits)
    then show ?thesis using u_unknown goes_on_ok [OF ok, of k] kernel_step.print_text [of ?k fmt va] by simp
  next
    case (u_interrupt env k)
    then have "task k = task ?k" using irq_inv [OF inv, of env] by (auto simp: same_pool_def)
    then show ?thesis using ok u_interrupt kernel_step.interrupt by (auto simp: run_ok_def intro: reachable.next_step)
  next
    case (u_fork nr args P r k i)
    have "reachable kernel_begins kernel_step (with_frame r ?k)"
      using ok with_frame_step by (auto simp: run_ok_def intro: reachable.next_step)
    then have "reachable kernel_begins kernel_step k" using kernel_step.fork [OF u_fork(4)] by (rule reachable.next_step)
    moreover have "code s' (task k 0) = Idle"
    proof (rule fork_obtain [OF with_frame_inv [OF inv] u_fork(4)])
      fix m1 stk m2 p
      assume a: "p \<notin> live_tasks (with_frame r ?k)" "first_free (with_frame r ?k) i"
        "k = (with_frame r ?k)\<lparr>ktimer := (ktimer (with_frame r ?k))\<lparr>tm_mm := m2\<rparr>,
          mem := memcpy stk (stack (tcb (with_frame r ?k) (current (with_frame r ?k)))) PAGE_SIZE (mem (with_frame r ?k)),
          task := (task (with_frame r ?k))(i := p), nr_tasks := nr_tasks (with_frame r ?k) + 1,
          tcb := (tcb (with_frame r ?k))(p := new_task p 0 0 0 stk i (with_frame r ?k)),
          ptregs := (ptregs (with_frame r ?k))(task_pt_regs p := forked_frame stk (with_frame r ?k))\<rparr>"
      have l: "task ?k 0 \<in> live_tasks ?k" using inv by (simp add: kernel_inv_def runnable_def)
      then have "0 \<in> live ?k" using inv by (auto simp: kernel_inv_def ready_def sched_inv_def pool_ok_def live_def)
      then have "i \<noteq> 0" "p \<noteq> task ?k 0" using a(1,2) l by (auto simp: first_free_def live_def)
      then show ?thesis using ok n0 u_fork(1,2) a(3) by (auto simp: run_ok_def)
    qed
    ultimately show ?thesis using u_fork(1) by (simp add: run_ok_def)
  qed (use goes_on_ok [OF ok, of ?k] in simp_all)
qed

lemma user_begins_ok: "user_begins user s \<Longrightarrow> run_ok s"
  by (auto simp: user_begins_def run_ok_def boot_code_def intro: reachable.at_start)

interpretation user_runs: invariant "user_begins user" "user_step prog_at" run_ok for user prog_at
  by unfold_locales (auto intro: user_begins_ok user_step_ok)


lemma boot_run:
  obtains s k where "reachable (user_begins user) (user_step prog_at) s" "kern s = k" "current k = 0x90000" "live k = {0..4}"
proof -
  obtain k qs where k: "reachable kernel_begins kernel_step k" "live k = {0..4}" "booted k 0x90000 qs" "kernel_begins k"
    by (rule boot_example)
  let ?s = "\<lparr>kern = k, code = boot_code user k\<rparr>"
  have "reachable (user_begins user) (user_step prog_at) ?s" using k(4) by (intro reachable.at_start) (simp add: user_begins_def)
  then show thesis using that [of ?s k] k(2,3) by (simp add: booted_def)
qed


end
