(* ===== verification/User_Output.thy ===== *)
theory User_Output
  imports User_Steps "HOL-Library.Multiset"
begin

text \<open>
  What programs with forks print. The outcome of a program is the collection of the lines it and all its
  children will print, computed from the program alone. It is kept by every step, so the lines at the end do not depend on
  the order in which the tasks run.
\<close>

section \<open>The outcome of a program\<close>

text \<open>A line is a format with its first two arguments; a third one is an address on some user stack.\<close>

type_synonym line = "string \<times> vararg list"

definition line_of :: "string \<Rightarrow> vararg list \<Rightarrow> line multiset" where
  "line_of fmt va = (if va = [] then {#} else {#(fmt, take 2 va)#})"

definition some_task :: "int \<Rightarrow> task_struct" where
  "some_task i = INIT_TASK\<lparr>pid := i\<rparr>"

text \<open>
  The lines of a task with pid \<open>i\<close>, when \<open>n\<close> is the next pid to be given: a fork makes a task with that pid.
\<close>

primrec outcome :: "prog \<Rightarrow> int \<Rightarrow> int \<Rightarrow> line multiset" where
  "outcome (Print fmt va P) i n = line_of fmt va + outcome P i n"
| "outcome (My_Task f) i n = outcome (f (some_task i)) i n"
| "outcome (Read f) i n = {#}"
| "outcome (Write a bs P) i n = {#}"
| "outcome (Call nr args P) i n =
     (if nr = SYS_GETPID_NUMBER then outcome (P (word_of_int i)) i n
      else if nr = SYS_FORK_NUMBER then outcome (P (word_of_int n)) i (n + 1) + outcome (P 0) n (n + 1)
      else {#})"
| "outcome (Yield P) i n = outcome P i n"
| "outcome (To_User P Q) i n = outcome P i n"
| "outcome Idle i n = {#}"
| "outcome Stop i n = {#}"

lemma outcome_calls:
  "outcome (Call SYS_GETPID_NUMBER args P) i n = outcome (P (word_of_int i)) i n"
  "outcome (Call SYS_FORK_NUMBER args P) i n = outcome (P (word_of_int n)) i (n + 1) + outcome (P 0) n (n + 1)"
  "outcome (Call SYS_EXIT_NUMBER args P) i n = {#}"
  by simp_all

text \<open>A program that may still call \<open>fork\<close>.\<close>

primrec may_fork :: "prog \<Rightarrow> bool" where
  "may_fork (Print fmt va P) = may_fork P"
| "may_fork (My_Task f) = (\<exists>t. may_fork (f t))"
| "may_fork (Read f) = (\<exists>m. may_fork (f m))"
| "may_fork (Write a bs P) = may_fork P"
| "may_fork (Call nr args P) = (nr = SYS_FORK_NUMBER \<or> (\<exists>r. may_fork (P r)))"
| "may_fork (Yield P) = may_fork P"
| "may_fork (To_User P Q) = may_fork P"
| "may_fork Idle = False"
| "may_fork Stop = False"

text \<open>
  The programs this applies to: they print, ask for their pid, fork and exit, what they print does not depend on
  their task but for the pid, and after a fork at most one of the two tasks forks again.
\<close>

primrec plain :: "prog \<Rightarrow> bool" where
  "plain (Print fmt va P) = plain P"
| "plain (My_Task f) = (\<forall>t. plain (f t) \<and> (\<forall>n. outcome (f t) (pid t) n = outcome (f (some_task (pid t))) (pid t) n))"
| "plain (Read f) = False"
| "plain (Write a bs P) = False"
| "plain (Call nr args P) = (nr \<in> {SYS_GETPID_NUMBER, SYS_FORK_NUMBER, SYS_EXIT_NUMBER} \<and> (\<forall>r. plain (P r)) \<and>
     (nr = SYS_FORK_NUMBER \<longrightarrow> (\<forall>n. 0 < n \<longrightarrow> n < NR_TASKS \<longrightarrow> \<not> (may_fork (P (word_of_int n)) \<and> may_fork (P 0)))))"
| "plain (Yield P) = plain P"
| "plain (To_User P Q) = plain P"
| "plain Idle = True"
| "plain Stop = True"

lemma outcome_no_fork: "\<not> may_fork P \<Longrightarrow> outcome P i n = outcome P i m"
  by (induction P arbitrary: i) auto

section \<open>What a run has printed\<close>

definition printed :: "kernel \<Rightarrow> line multiset" where
  "printed k = mset (map (\<lambda>(fmt, va). (fmt, take 2 va)) (reports k))"

lemma printed_cong: "reports k' = reports k \<Longrightarrow> printed k' = printed k"
  by (simp add: printed_def)

lemma printed_kprintf: "printed (kprintf fmt va k) = printed k + line_of fmt va"
  by (simp add: printed_def reports_def kprintf_def line_of_def)

text \<open>The program of the task in a slot.\<close>

definition slot_code :: "user_system \<Rightarrow> int \<Rightarrow> prog" where
  "slot_code s i = code s (task (kern s) i)"

definition still_to_print :: "user_system \<Rightarrow> line multiset" where
  "still_to_print s = (\<Sum>i\<in>live (kern s). outcome (slot_code s i) i (nr_tasks (kern s)))"

definition lines_ok :: "line multiset \<Rightarrow> user_system \<Rightarrow> bool" where
  "lines_ok T s \<longleftrightarrow> run_ok s \<and> live (kern s) = {0..<nr_tasks (kern s)} \<and> (\<forall>i\<in>live (kern s). plain (slot_code s i)) \<and>
     (\<forall>i\<in>live (kern s). \<forall>j\<in>live (kern s). may_fork (slot_code s i) \<longrightarrow> may_fork (slot_code s j) \<longrightarrow> i = j) \<and>
     printed (kern s) + still_to_print s = T"

lemma current_slot:
  assumes "kernel_inv k"
  obtains i where "i \<in> live k" "current k = task k i" "pid (tcb k (current k)) = i" "0 \<le> i" "i < NR_TASKS"
    "\<forall>j\<in>live k. task k j = current k \<longrightarrow> j = i"
proof -
  have p: "pool_ok k" "current k \<in> live_tasks k" using assms by (simp_all add: kernel_inv_def ready_def sched_inv_def)
  then obtain i where i: "i \<in> live k" "current k = task k i" by (auto simp: live_tasks_def)
  have "pid (tcb k (current k)) = i" using p(1) i by (simp add: pool_ok_def)
  moreover have "j = i" if "j \<in> live k" "task k j = current k" for j
    using inj_onD [of "task k" "live k" j i] p(1) i that by (simp add: pool_ok_def)
  moreover have "0 \<le> i" "i < NR_TASKS" using i(1) by (simp_all add: live_def)
  ultimately show thesis using that [OF i] by blast
qed

text \<open>A step of the running task that makes no task.\<close>

lemma lines_ok_step:
  assumes ok: "lines_ok T s" and r: "run_ok (goes_on s k P)" and t: "task k = task (kern s)" "nr_tasks k = nr_tasks (kern s)"
    and P: "plain P" "may_fork P \<Longrightarrow> may_fork (running s)"
    and out: "\<And>i. i = pid (tcb (kern s) (current (kern s))) \<Longrightarrow>
      printed k + outcome P i (nr_tasks k) = printed (kern s) + outcome (running s) i (nr_tasks k)"
  shows "lines_ok T (goes_on s k P)"
proof -
  let ?k = "kern s" and ?s = "goes_on s k P"
  have inv: "kernel_inv ?k" using ok run_ok_inv by (simp add: lines_ok_def)
  obtain i where i: "i \<in> live ?k" "current ?k = task ?k i" "pid (tcb ?k (current ?k)) = i"
    and u: "\<forall>j\<in>live ?k. task ?k j = current ?k \<longrightarrow> j = i" using current_slot [OF inv] by metis
  have l: "live k = live ?k" by (rule live_cong(1) [OF t(1)])
  have c: "slot_code ?s j = (if j = i then P else slot_code s j)" if "j \<in> live ?k" for j
    using u that i(2) by (auto simp: slot_code_def t(1))
  have run: "running s = slot_code s i" by (simp add: slot_code_def i(2))
  have fin: "finite (live ?k)" by (rule live_finite)
  have rest: "(\<Sum>j\<in>live ?k - {i}. outcome (slot_code ?s j) j (nr_tasks k)) = (\<Sum>j\<in>live ?k - {i}. outcome (slot_code s j) j (nr_tasks k))"
    by (intro sum.cong refl) (simp add: c)
  have "still_to_print ?s = (\<Sum>j\<in>live ?k. outcome (slot_code ?s j) j (nr_tasks k))" by (simp add: still_to_print_def l)
  also have "\<dots> = outcome P i (nr_tasks k) + (\<Sum>j\<in>live ?k - {i}. outcome (slot_code s j) j (nr_tasks k))"
    by (subst sum.remove [OF fin i(1)]) (simp add: rest c [OF i(1)])
  finally have "still_to_print ?s = outcome P i (nr_tasks k) + (\<Sum>j\<in>live ?k - {i}. outcome (slot_code s j) j (nr_tasks k))" .
  moreover have "still_to_print s = outcome (running s) i (nr_tasks k) + (\<Sum>j\<in>live ?k - {i}. outcome (slot_code s j) j (nr_tasks k))"
    unfolding still_to_print_def by (subst sum.remove [OF fin i(1)]) (simp add: t(2) run)
  ultimately have "printed k + still_to_print ?s = printed ?k + still_to_print s"
    using arg_cong [OF out [OF i(3) [symmetric]], of "\<lambda>x. x + (\<Sum>j\<in>live ?k - {i}. outcome (slot_code s j) j (nr_tasks k))"]
    by (simp only: add.assoc)
  moreover have "may_fork (slot_code s j)" if "j \<in> live ?k" "may_fork (slot_code ?s j)" for j
    using P(2) run c [OF that(1)] that(2) by (cases "j = i") simp_all
  moreover have "plain (slot_code ?s j)" if "j \<in> live ?k" for j
    using P(1) ok that c [OF that] by (cases "j = i") (simp_all add: lines_ok_def)
  ultimately show ?thesis using ok r unfolding lines_ok_def goes_on_fields l t(2) by metis
qed

lemma lines_ok_pool:
  assumes ok: "lines_ok T s" and r: "run_ok (s\<lparr>kern := k\<rparr>)" and t: "same_slots (kern s) k"
  shows "lines_ok T (s\<lparr>kern := k\<rparr>)"
proof -
  have f: "task k = task (kern s)" "nr_tasks k = nr_tasks (kern s)" "reports k = reports (kern s)" using t by (simp_all add: same_slots_def)
  have l: "live k = live (kern s)" by (rule live_cong(1) [OF f(1)])
  have "still_to_print (s\<lparr>kern := k\<rparr>) = still_to_print s" "slot_code (s\<lparr>kern := k\<rparr>) = slot_code s"
    by (simp_all add: still_to_print_def slot_code_def l f fun_eq_iff)
  then show ?thesis using ok r l f(2) printed_cong [OF f(3)] by (simp add: lines_ok_def)
qed

text \<open>The step of \<open>fork\<close>.\<close>

lemma lines_ok_fork:
  assumes ok: "lines_ok T s" and run: "running s = Call SYS_FORK_NUMBER args P" and f: "sys_fork (with_frame r (kern s)) = Inr (k, i)"
    and r: "run_ok \<lparr>kern = k, code = (code s)(current (kern s) := P (word_of_int i), task k i := P 0)\<rparr>" (is "run_ok ?s")
  shows "lines_ok T ?s"
proof -
  let ?k = "kern s" and ?n = "nr_tasks (kern s)"
  have inv: "kernel_inv ?k" using ok run_ok_inv by (simp add: lines_ok_def)
  obtain p where p: "p \<noteq> 0" "p \<notin> live_tasks ?k" "first_free (with_frame r ?k) i" "task k = (task ?k)(i := p)" "nr_tasks k = ?n + 1" "console k = console ?k"
    by (rule fork_obtain [OF with_frame_inv [OF inv] f]) (rule that, auto)
  obtain c where c: "c \<in> live ?k" "current ?k = task ?k c" and u: "\<forall>j\<in>live ?k. task ?k j = current ?k \<longrightarrow> j = c"
    using current_slot [OF inv] by metis
  have lw: "live (with_frame r ?k) = live ?k" by (rule live_cong(1)) simp
  have packed: "live ?k = {0..<?n}" using ok by (simp add: lines_ok_def)
  have n: "i = ?n" "live k = {0..<?n + 1}"
    using packed_add [OF _ p(3,1), of k] p(4,5) with_frame_inv [OF inv, of r] packed by (simp_all add: lw)
  have np: "task ?k j \<noteq> p" if "j \<in> live ?k" for j using p(2) that by (auto simp: live_tasks_def)
  have code: "slot_code ?s j = (if j = ?n then P 0 else if j = c then P (word_of_int ?n) else slot_code s j)" if "j \<in> live k" for j
    using that np u c(2) n packed p(4) by (auto simp: slot_code_def)
  have rc: "slot_code s c = Call SYS_FORK_NUMBER args P" using run by (simp add: slot_code_def c(2))
  have "plain (slot_code s c)" using ok c(1) unfolding lines_ok_def by blast
  then have pl: "plain (P x)" "0 < m \<Longrightarrow> m < NR_TASKS \<Longrightarrow> \<not> (may_fork (P (word_of_int m)) \<and> may_fork (P 0))" for x m
    by (simp_all add: rc)
  have "may_fork (slot_code s c)" by (simp add: rc)
  then have other: "\<not> may_fork (slot_code s j)" if "j \<in> live ?k" "j \<noteq> c" for j
    using ok that c(1) unfolding lines_ok_def by blast
  have bound: "0 < ?n" "?n < 64" using c(1) p(3) n(1) packed by (auto simp: first_free_def)
  let ?out = "\<lambda>m j. outcome (slot_code s j) j m"
  have rest: "(\<Sum>j\<in>live ?k - {c}. outcome (slot_code ?s j) j (?n + 1)) = (\<Sum>j\<in>live ?k - {c}. ?out ?n j)"
  proof (rule sum.cong [OF refl])
    fix j assume "j \<in> live ?k - {c}"
    then show "outcome (slot_code ?s j) j (?n + 1) = ?out ?n j"
      using code [of j] other [of j] outcome_no_fork [of "slot_code s j" j "?n + 1" ?n] n(2) packed by auto
  qed
  have lk: "live k = insert ?n (live ?k)" "?n \<notin> live ?k" using n(2) packed bound(1) by auto
  have cn: "c \<noteq> ?n" "?n \<in> live k" "c \<in> live k" using c(1) lk by auto
  have "still_to_print ?s = outcome (P 0) ?n (?n + 1) + (\<Sum>j\<in>live ?k. outcome (slot_code ?s j) j (?n + 1))"
    unfolding still_to_print_def using lk live_finite [of ?k] code [OF cn(2)] by (simp add: p(5))
  also have "(\<Sum>j\<in>live ?k. outcome (slot_code ?s j) j (?n + 1)) = outcome (P (word_of_int ?n)) c (?n + 1) + (\<Sum>j\<in>live ?k - {c}. ?out ?n j)"
    by (subst sum.remove [OF live_finite c(1)]) (use code [OF cn(3)] cn(1) rest in simp)
  finally have "still_to_print ?s = still_to_print s"
    unfolding still_to_print_def [of s] by (subst sum.remove [OF live_finite c(1)]) (simp only: rc outcome_calls ac_simps)
  moreover have "printed k = printed ?k" using p(6) by (intro printed_cong reports_cong)
  moreover have "plain (slot_code ?s j)" if "j \<in> live k" for j
  proof (cases "j = ?n \<or> j = c")
    case False
    then have "j \<in> live ?k" using that lk by simp
    then show ?thesis using code [OF that] False ok by (simp add: lines_ok_def)
  qed (use code [OF that] pl(1) cn in auto)
  moreover have "j = l" if "j \<in> live k" "l \<in> live k" "may_fork (slot_code ?s j)" "may_fork (slot_code ?s l)" for j l
  proof -
    have "x = ?n \<or> x = c" if "x \<in> live k" "may_fork (slot_code ?s x)" for x
      using that code [OF that(1)] other [of x] lk by (auto split: if_splits)
    then have "(j = ?n \<or> j = c) \<and> (l = ?n \<or> l = c)" using that by blast
    then show ?thesis using that code [OF cn(2)] code [OF cn(3)] cn(1) pl(2) [OF bound] by auto
  qed
  ultimately show ?thesis using ok r n(2) p(5) by (simp add: lines_ok_def)
qed

section \<open>Every run of a plain program\<close>

lemma plain_calls:
  "el0_svc SYS_GETPID_NUMBER = Some Sys_gitPID" "el0_svc SYS_FORK_NUMBER = Some Sys_fork" "el0_svc SYS_EXIT_NUMBER = Some Sys_exit"
  by (simp_all add: el0_svc_def sys_call_table_def NR_syscalls_def)

lemma plain_running:
  assumes "lines_ok T s"
  shows "plain (running s)"
proof -
  have "kernel_inv (kern s)" using assms run_ok_inv by (simp add: lines_ok_def)
  then obtain i where "i \<in> live (kern s)" "current (kern s) = task (kern s) i" using current_slot by metis
  then show ?thesis using assms by (auto simp: lines_ok_def slot_code_def)
qed

lemma lines_ok_user_step:
  assumes ok: "lines_ok T s" and step: "user_step prog_at s s'"
  shows "lines_ok T s'"
proof -
  let ?k = "kern s"
  have r: "run_ok s" and r': "run_ok s'" using ok user_step_ok [OF _ step] by (simp_all add: lines_ok_def)
  have inv: "kernel_inv ?k" by (rule run_ok_inv [OF r])
  have pl: "plain (running s)" by (rule plain_running [OF ok])
  have n0: "current ?k \<noteq> task ?k 0" if "running s \<noteq> Idle" using that r by (auto simp: run_ok_def)
  note go = lines_ok_step [OF ok]
  show ?thesis
    using step
  proof cases
    case (u_print fmt va P)
    show ?thesis
      unfolding u_print(1) using r' pl by (intro go) (simp_all add: u_print printed_kprintf add.assoc)
  next
    case (u_my_task f)
    show ?thesis
      unfolding u_my_task(1) using r' pl by (intro go) (auto simp: u_my_task)
  next
    case (u_yield P k)
    then have "same_slots ?k k" using schedule_inv [OF inv] same_pool_slots by fastforce
    then show ?thesis
      unfolding u_yield(1) using r' pl printed_cong [of k ?k] by (intro go) (simp_all add: u_yield same_slots_def)
  next
    case (u_idle k)
    then have "same_slots ?k k" using schedule_inv [OF inv] same_pool_slots by fastforce
    then show ?thesis
      unfolding u_idle(1) using r' pl printed_cong [of k ?k] by (intro go) (simp_all add: u_idle same_slots_def)
  next
    case (u_to_user P Q pc k err)
    have "same_slots ?k k" "err = 0" using enter_user_inv(2,3) [OF inv n0 u_to_user(3)] u_to_user(2) by simp_all
    then show ?thesis
      unfolding u_to_user(1) using r' pl printed_cong [of k ?k] by (intro go) (simp_all add: u_to_user same_slots_def)
  next
    case (u_call nr args P fn env r k v)
    then have nr: "nr = SYS_GETPID_NUMBER \<or> nr = SYS_EXIT_NUMBER" using pl plain_calls by auto
    show ?thesis
    proof (cases "nr = SYS_GETPID_NUMBER")
      case True
      then have v: "k = with_frame r ?k" "v = word_of_int (pid (tcb ?k (current ?k)))" using u_call(3,5) plain_calls by (auto simp: sys_gitPID_def)
      have run: "running s = Call SYS_GETPID_NUMBER args P" using u_call(2) True by simp
      show ?thesis
        unfolding u_call(1) using r' pl printed_cong [OF reports_cong, of k ?k]
        by (intro go) (auto simp: run outcome_calls v u_call(1) simp del: outcome.simps)
    next
      case False
      then show ?thesis using nr u_call(3,5) plain_calls by (auto simp: bind_result_Inr_iff)
    qed
  next
    case (u_fork nr args P r k i)
    then have "nr = SYS_FORK_NUMBER" using pl plain_calls by auto
    then show ?thesis using lines_ok_fork [OF ok] u_fork r' by simp
  next
    case (u_exit nr args P r k)
    then have nr: "nr = SYS_EXIT_NUMBER" using pl plain_calls by auto
    have c: "current (with_frame r ?k) \<noteq> task (with_frame r ?k) 0" using n0 u_exit(2) by simp
    have "same_slots (with_frame r ?k) k" using exit_inv [OF with_frame_inv [OF inv] c] u_exit(4) by (auto simp: sys_exit_def)
    then have f: "task k = task ?k" "nr_tasks k = nr_tasks ?k" "reports k = reports ?k" by (simp_all add: same_slots_def reports_def)
    have run: "running s = Call SYS_EXIT_NUMBER args P" using u_exit(2) nr by simp
    show ?thesis
      unfolding u_exit(1) using r' printed_cong [OF f(3)] by (intro go) (simp_all add: f run outcome_calls u_exit(1) del: outcome.simps(5))
  next
    case (u_exec nr args P fuel r k n)
    then show ?thesis using pl plain_calls by auto
  next
    case (u_unknown nr args P esr elr k)
    then show ?thesis using pl plain_calls by auto
  next
    case (u_interrupt env k)
    then have "same_slots ?k k" using irq_inv [OF inv, of env] same_pool_slots by fastforce
    then show ?thesis using lines_ok_pool [OF ok] u_interrupt(1) r' by simp
  qed (use pl in auto)
qed

text \<open>The lines of the three kernel threads, and of the user program, which has pid 4.\<close>

definition foo_lines :: "line multiset" where
  "foo_lines = mset (concat (map (\<lambda>i. map (\<lambda>j. (''Thread id: %d %d'' @ [NL], [VInt i, VInt j])) [0, 1]) [1, 2, 3]))"

lemma outcome_foo:
  "outcome foo i n = mset (map (\<lambda>j. (''Thread id: %d %d'' @ [NL], [VInt i, VInt j])) [0, 1])"
  "may_fork foo = False" "plain foo"
  by (simp_all add: foo_def exit_call_def numeral_2_eq_2 line_of_def some_task_def)

lemma lines_ok_start:
  assumes b: "user_begins user s" and user: "plain user"
  shows "lines_ok (foo_lines + outcome user 4 5) s"
proof -
  let ?k = "kern s" and ?c = "slot_code s"
  have k: "live ?k = {0..<5}" "nr_tasks ?k = 5" "reports ?k = []"
    using kernel_begins_packed [of ?k] b by (simp_all add: user_begins_def)
  have ok: "run_ok s" by (rule user_begins_ok [OF b])
  then have "pool_ok ?k" using run_ok_inv by (simp add: kernel_inv_def ready_def sched_inv_def)
  then have inj: "inj_on (task ?k) {0..<5}" using k(1) by (simp add: pool_ok_def)
  have eq: "task ?k i = task ?k j \<longleftrightarrow> i = j" if "i \<in> {0..<5}" "j \<in> {0..<5}" for i j
    using inj_on_eq_iff [OF inj that] .
  have five: "{0..<5} = {0, 1, 2, 3, 4 :: int}" by auto
  have c: "?c 0 = Idle" "?c 1 = foo" "?c 2 = foo" "?c 3 = foo" "?c 4 = kernel_thread user"
    using b by (simp_all add: user_begins_def slot_code_def boot_code_def eq)
  have "still_to_print s = foo_lines + outcome user 4 5"
    unfolding still_to_print_def k(1,2) five
    by (simp add: c outcome_foo kernel_thread_def foo_lines_def)
  moreover have "printed ?k = {#}" by (simp add: printed_def k(3))
  moreover have "plain (?c i)" if "i \<in> {0..<5}" for i
    using that c user outcome_foo(3) by (auto simp: five kernel_thread_def)
  moreover have "i = 4" if "i \<in> {0..<5}" "may_fork (?c i)" for i
    using that c outcome_foo(2) by (auto simp: five)
  then have "\<forall>i\<in>{0..<5}. \<forall>j\<in>{0..<5}. may_fork (?c i) \<longrightarrow> may_fork (?c j) \<longrightarrow> i = j" by metis
  ultimately show ?thesis using ok k(1,2) unfolding lines_ok_def by simp
qed

interpretation line_runs: invariant "\<lambda>s. user_begins user s \<and> plain user" "user_step prog_at" "lines_ok (foo_lines + outcome user 4 5)" for user prog_at
  by unfold_locales (auto intro: lines_ok_start lines_ok_user_step)

text \<open>What a plain program and the kernel threads have printed at any time, and what they have printed in the end.\<close>

lemma plain_output:
  assumes r: "reachable (user_begins user) (user_step prog_at) s" and user: "plain user"
  shows "printed (kern s) + still_to_print s = foo_lines + outcome user 4 5"
    "(\<forall>i\<in>live (kern s). slot_code s i \<in> {Idle, Stop}) \<Longrightarrow> printed (kern s) = foo_lines + outcome user 4 5"
proof -
  have "reachable (\<lambda>s. user_begins user s \<and> plain user) (user_step prog_at) s"
    using r by (induction rule: reachable.induct) (auto intro: reachable.intros user)
  then have ok: "lines_ok (foo_lines + outcome user 4 5) s" by (rule line_runs.reachable_inv)
  then show sum: "printed (kern s) + still_to_print s = foo_lines + outcome user 4 5" by (simp add: lines_ok_def)
  assume stop: "\<forall>i\<in>live (kern s). slot_code s i \<in> {Idle, Stop}"
  have "outcome (slot_code s i) i n = {#}" if "i \<in> live (kern s)" for i n using stop that by (auto dest: bspec)
  then have "still_to_print s = {#}" by (simp add: still_to_print_def)
  then show "printed (kern s) = foo_lines + outcome user 4 5" using sum by simp
qed

section \<open>What \<open>fork_test\<close> prints\<close>

lemma int_arg_pid: "0 \<le> i \<Longrightarrow> i < NR_TASKS \<Longrightarrow> int_arg (word_of_int i) = i"
  by (simp add: int_arg_def unsigned_of_int signed_of_int signed_take_bit_int_eq_self take_bit_int_eq_self)

lemma int_arg_numbers: "int_arg 0 = 0" "int_arg 4 = 4" "int_arg 5 = 5" "int_arg 6 = 6"
  by (simp_all add: int_arg_def)

definition cnt_line :: "int \<Rightarrow> int \<Rightarrow> line" where
  "cnt_line i cnt = (''pid: %d, cnt: %d, cnt_adress: 0x%x'' @ [NL], [VInt i, VInt cnt])"

definition exit_line :: "int \<Rightarrow> line" where
  "exit_line i = (''[exit] Task%d'' @ [NL], [VInt i])"

lemma outcome_line:
  assumes "0 \<le> i" "i < NR_TASKS"
  shows "outcome (fork_test_line off cnt P) i n = add_mset (cnt_line i cnt) (outcome P i n)"
    "outcome fork_test_end i n = {#exit_line i#}"
  by (simp_all add: fork_test_line_def fork_test_end_def getpid_def stack_var_def exit_call_def cnt_line_def exit_line_def line_of_def int_arg_pid assms)

lemma plain_line: "plain (fork_test_line off cnt P) = plain P" "may_fork (fork_test_line off cnt P) = may_fork P"
    "plain fork_test_end" "\<not> may_fork fork_test_end"
  by (simp_all add: fork_test_line_def fork_test_end_def getpid_def stack_var_def exit_call_def line_of_def)

lemma plain_loop: "plain (fork_test_loop off cnt) \<and> \<not> may_fork (fork_test_loop off cnt)"
  by (induction off cnt rule: fork_test_loop.induct) (subst (1 2) fork_test_loop.simps, simp add: plain_line)

lemma outcome_loop:
  assumes "0 \<le> i" "i < NR_TASKS"
  shows "outcome (fork_test_loop off 2) i n = {#cnt_line i 2, cnt_line i 3, cnt_line i 4, exit_line i#}"
  by (simp add: fork_test_loop.simps [of off 2] fork_test_loop.simps [of off 3] fork_test_loop.simps [of off 4] fork_test_loop.simps [of off 5]
    outcome_line assms)

lemma plain_fork_test: "plain (fork_test off)"
  by (simp add: fork_test_def fork_def getpid_def plain_line plain_loop int_arg_pid)

definition fork_test_lines :: "line multiset" where
  "fork_test_lines =
     {#([NL] @ ''[fork_test]Fork Test, pid %d'' @ [NL], [VInt 4]), cnt_line 4 1, (''parent here, pid %d, child %d'' @ [NL], [VInt 4, VInt 0]), exit_line 4,
       cnt_line 5 1, cnt_line 5 2, cnt_line 5 3, cnt_line 5 4, exit_line 5,
       cnt_line 6 2, cnt_line 6 3, cnt_line 6 4, exit_line 6#}"

lemma outcome_fork_test: "outcome (fork_test off) 4 5 = fork_test_lines"
proof -
  have "outcome (fork_test_loop off 2) i 7 = {#cnt_line i 2, cnt_line i 3, cnt_line i 4, exit_line i#}" if "i \<in> {5, 6}" for i
    using that by (intro outcome_loop) auto
  then show ?thesis
    by (simp add: fork_test_def fork_def getpid_def outcome_line outcome_loop int_arg_numbers line_of_def fork_test_lines_def)
qed



end
