(* ===== verification/Exec_Heap.thy ===== *)
theory Exec_Heap
  imports Sys_Props
begin

text \<open>
  Where \<open>sys_exec\<close> loads a program, and what the allocator says about that memory.
\<close>

section \<open>Handing out all of the memory\<close>

lemma kmalloc_all_snoc:
  "kmalloc_all szs s = Inr (s1, as) \<Longrightarrow> kmalloc sz s1 = Inr (s2, a) \<Longrightarrow> kmalloc_all (szs @ [sz]) s = Inr (s2, as @ [a])"
  by (induction szs arbitrary: s as) (auto simp: bind_result_Inr_iff)

definition top_starts :: "int set" where
  "top_starts = {0, 512, 1024, 1536, 2048, 2560, 3072, 3584}"

lemma top_starts: "card top_starts = 8" "finite top_starts" "valid_block (p, 9) \<longleftrightarrow> p \<in> top_starts"
proof -
  have "p \<in> top_starts" if p: "valid_block (p, 9)"
  proof -
    obtain i where i: "p = 512 * i" using p by (auto simp: valid_block_def)
    then have "i \<in> {0..<8}" using p by (simp add: valid_block_def)
    also have "{0..<8} = {0, 1, 2, 3, 4, 5, 6, 7 :: int}" by auto
    finally show ?thesis by (auto simp: i top_starts_def)
  qed
  then show "valid_block (p, 9) \<longleftrightarrow> p \<in> top_starts" by (auto simp: valid_block_def top_starts_def)
qed (simp_all add: top_starts_def)

definition start_addr :: "int \<Rightarrow> u64" where
  "start_addr p = word_of_int (LOW_MEMORY + p * PAGE_SIZE)"

lemma addr_pfn_start: "in_bookkeep p \<Longrightarrow> addr_pfn (start_addr p) = p"
proof -
  assume p: "in_bookkeep p"
  have "obj_slot p 4096 (start_addr p)" unfolding obj_slot_def start_addr_def by (intro exI [of _ 0]) simp
  from obj_slot_bounds [OF this _ p] show ?thesis by simp
qed

lemma meets_occupied: "valid_block (q, 9) \<Longrightarrow> frames (q, k) \<inter> occupied ((\<lambda>p. (p, 9)) ` P) \<noteq> {} \<Longrightarrow>
    k \<in> {0, 9} \<Longrightarrow> P \<subseteq> top_starts \<Longrightarrow> q \<in> P"
proof -
  assume v: "valid_block (q, 9)" and m: "frames (q, k) \<inter> occupied ((\<lambda>p. (p, 9)) ` P) \<noteq> {}" "k \<in> {0, 9}" "P \<subseteq> top_starts"
  then obtain x p where x: "p \<in> P" "x \<in> frames (q, k)" "x \<in> frames (p, 9)" by (auto simp: occupied_def)
  then have b: "q \<le> x" "x < q + 512" "p \<le> x" "x < p + 512" using m(2) by (auto simp: frames_def block_range_def)
  have "512 dvd p" "512 dvd q" using top_starts(3) [of p] v m(3) x(1) by (auto simp: valid_block_def)
  then obtain i j where ij: "p = 512 * i" "q = 512 * j" by (auto elim!: dvdE)
  then have "i \<le> j" using b by linarith
  moreover have "j \<le> i" using b ij by linarith
  ultimately have "i = j" by simp
  then show "q \<in> P" using ij x(1) by simp
qed

lemma order_9:
  assumes "0 \<le> k" "k \<le> MAX_ORDER" "2 ^ 21 \<le> PAGE_SIZE * 2 ^ nat k"
  shows "k = 9"
proof (rule ccontr)
  assume "k \<noteq> 9"
  then have "nat k \<le> 8" using assms(1,2) by simp
  then have "(2 :: int) ^ nat k \<le> 2 ^ 8" by (rule power_increasing) simp
  then show False using assms(3) by simp
qed

lemma take_blocks:
  "n \<le> 8 \<Longrightarrow> \<exists>s as M L P. kmalloc_all (replicate n (2 ^ 21)) (mm_init bss_mm) = Inr (s, as) \<and> heap_inv s M ((\<lambda>p. (p, 9)) ` P) L \<and>
     P \<subseteq> top_starts \<and> card P = n \<and> set as = start_addr ` P \<and> set_mset L = set as \<and> length as = n"
proof (induction n)
  case 0
  from mm_init_heap show ?case by auto
next
  case (Suc n)
  then obtain s as M L P where s: "kmalloc_all (replicate n (2 ^ 21)) (mm_init bss_mm) = Inr (s, as)" "heap_inv s M ((\<lambda>p. (p, 9)) ` P) L"
    "P \<subseteq> top_starts" "card P = n" "set as = start_addr ` P" "set_mset L = set as" "length as = n" by auto
  have "P \<noteq> top_starts" using s(4) Suc.prems top_starts(1) by auto
  then obtain q where q: "q \<in> top_starts" "q \<notin> P" using s(3) by blast
  have fin: "finite P" using s(3) top_starts(2) by (rule finite_subset)
  have big: "MAX_ALLOCATAED_OBJ_SIZE < (2 ^ 21 :: int)" "(2 ^ 21 :: int) \<le> 2 ^ nat (MAX_ORDER + int PAGE_SHIFT)" by simp_all
  from s(2) big show ?case
  proof (cases rule: kmalloc_large_step)
    case (fail k)
    have "k = 9" by (rule order_9 [OF fail(2-4)])
    then show ?thesis using fail(5) q meets_occupied [of q k P] s(3) top_starts(3) by auto
  next
    case (block s' a M' A' p k)
    have k: "k = 9" by (rule order_9 [OF block(8,11,12)])
    have p: "p \<in> top_starts" using block(10) top_starts(3) k by simp
    have new: "p \<notin> P"
    proof
      assume "p \<in> P"
      then have "p \<in> occupied ((\<lambda>p. (p, 9)) ` P)" unfolding occupied_def by (intro UN_I [of "(p, 9)"]) auto
      with block(6) frames_self(1) [of p k] show False by blast
    qed
    have a: "a = start_addr p" unfolding start_addr_def block(7) [symmetric] by simp
    have "kmalloc_all (replicate (Suc n) (2 ^ 21)) (mm_init bss_mm) = Inr (s', as @ [a])"
      using kmalloc_all_snoc [OF s(1) block(1)] by (simp flip: replicate_append_same)
    moreover have "A' = (\<lambda>p. (p, 9)) ` insert p P" using block(5) k by simp
    moreover have "card (insert p P) = Suc n" using new s(4) fin by simp
    ultimately show ?thesis using block(4) s(3,5,6,7) p a
      by (intro exI [of _ s'] exI [of _ "as @ [a]"] exI [of _ M'] exI [of _ "add_mset a L"] exI [of _ "insert p P"]) auto
  qed
qed

text \<open>All blocks but the first are in use, and a page can still be had.\<close>

lemma last_block_in_use:
  obtains s s1 s2 as b i j where "kmalloc_all (replicate 8 (2 ^ 21)) (mm_init bss_mm) = Inr (s, as)" "length as = 8"
    "i < 8" "j < 8" "as ! i = 0x1000000" "as ! j = 0x200000" "kfree (as ! j) s = Inr s1" "kmalloc 4096 s1 = Inr (s2, b)"
proof -
  obtain s as M L P where s: "kmalloc_all (replicate 8 (2 ^ 21)) (mm_init bss_mm) = Inr (s, as)" "heap_inv s M ((\<lambda>p. (p, 9)) ` P) L"
    "P \<subseteq> top_starts" "card P = 8" "set as = start_addr ` P" "set_mset L = set as" "length as = 8"
    using take_blocks [of 8] by auto
  have P: "P = top_starts" using card_subset_eq [OF top_starts(2) s(3)] s(4) top_starts(1) by simp
  have starts: "start_addr 0 = 0x200000" "start_addr 3584 = 0x1000000" by (simp_all add: start_addr_def)
  have "start_addr 0 \<in> set as" "start_addr 3584 \<in> set as" unfolding s(5) P by (auto simp: top_starts_def)
  then obtain i j where ij: "i < 8" "j < 8" "as ! i = 0x1000000" "as ! j = 0x200000"
    unfolding in_set_conv_nth starts s(7) by blast
  have pfn: "addr_pfn (start_addr 0) = 0" by (rule addr_pfn_start) (simp add: in_bookkeep_def)
  have "(0, 0) \<notin> (\<lambda>p. (p, 9 :: int)) ` P" by auto
  then have n: "obj_alloc (bookkeep s 0) = None"
    using mm_owner(3) [of s M _ 0] s(2) by (cases "obj_alloc (bookkeep s 0)") (auto simp: heap_inv_def in_bookkeep_def)
  have held: "start_addr 0 \<in># L" using s(5,6) P by (auto simp: top_starts_def)
  have blk: "(addr_pfn (start_addr 0), 9) \<in> (\<lambda>p. (p, 9)) ` P" by (auto simp: pfn P top_starts_def)
  from kfree_block [OF s(2) held blk] n obtain s1 where
    s1: "kfree (start_addr 0) s = Inr s1" "heap_inv s1 M ((\<lambda>p. (p, 9)) ` P - {(0, 9)}) (L - {#start_addr 0#})" by (auto simp: pfn)
  have P1: "(\<lambda>p. (p, 9 :: int)) ` P - {(0, 9)} = (\<lambda>p. (p, 9)) ` (P - {0})" by auto
  have page: "MAX_ALLOCATAED_OBJ_SIZE < (4096 :: int)" "(4096 :: int) \<le> 2 ^ nat (MAX_ORDER + int PAGE_SHIFT)" by simp_all
  from s1(2) page have "\<exists>s2 b. kmalloc 4096 s1 = Inr (s2, b)"
  proof (cases rule: kmalloc_large_step)
    case (fail k)
    have "k = 0"
    proof (rule ccontr)
      assume "k \<noteq> 0"
      then have "0 < k" using fail(2) by linarith
      from fail(6) [OF order_refl this] show False by simp
    qed
    then have "frames (0, 0) \<inter> occupied ((\<lambda>p. (p, 9)) ` (P - {0})) \<noteq> {}"
      using fail(5) unfolding P1 by (simp add: valid_block_def)
    moreover have "valid_block (0, 9)" by (simp add: valid_block_def)
    moreover have "P - {0} \<subseteq> top_starts" using s(3) by blast
    ultimately have "0 \<in> P - {0}" using meets_occupied [of 0 0 "P - {0}"] by simp
    then show ?thesis by simp
  qed blast
  then obtain s2 b where b: "kmalloc 4096 s1 = Inr (s2, b)" by blast
  have "kfree (as ! j) s = Inr s1" using s1(1) ij(4) starts(1) by simp
  then show thesis by (rule that [OF s(1,7) ij _ b])
qed

section \<open>Loading a program\<close>

lemma exec_no_args:
  assumes "cpio_move_file fuel (mem k) INITRAMFS_ADDR (peek (mem k) name) 0x10A0000 = Inr (m, t)"
    and "load8 m argv = replicate 8 NUL" and "kmalloc 4096 (kmm k) = Inr (mm, b)"
  shows "\<exists>k'. sys_exec fuel name argv k = Inr (k', 0) \<and> mem k' = m \<and> user_pc (ptregs k' (task_pt_regs (current k'))) = t"
proof -
  define k1 where "k1 = kprintf (''[exec] Try to find file %s'' @ [NL]) [VInt (uint name)] (preempt_disable k)"
  have f: "mem k1 = mem k" "kmm k1 = kmm k" by (simp_all add: k1_def)
  have "argc_from ARGC_BOUND m argv 0 = Inr 0" using assms(2) by (intro argc_from_eq) (auto simp: ARGC_BOUND_def)
  then show ?thesis using assms(1,3) f unfolding sys_exec_def k1_def [symmetric] Let_def by (simp add: k_malloc_def)
qed

text \<open>
  C24. \<open>sys_exec\<close> does not ask the allocator for the memory it loads a program to. After \<open>kmalloc\<close> has handed out
  its largest block eight times, and one of these blocks has been given back, the load address lies inside a block that is
  still in use; \<open>sys_exec\<close> then loads a file, returns without an error, and has overwritten the first byte at that address.
\<close>

theorem exec_overwrites_heap:
  "\<exists>s s1 as i j k'. kmalloc_all (replicate 8 (2 ^ 21)) (mm_init bss_mm) = Inr (s, as) \<and> length as = 8 \<and> i < 8 \<and> j < 8 \<and> i \<noteq> j \<and>
     kfree (as ! j) s = Inr s1 \<and> uint (as ! i) \<le> 0x10A0000 \<and> 0x10A0000 < uint (as ! i) + 2 ^ 21 \<and>
     sys_exec 2 0x800006E 0x80000F0 (set_mm s1 (user_kernel disk_mem)) = Inr (k', 0) \<and>
     mem (set_mm s1 (user_kernel disk_mem)) 0x10A0000 = NUL \<and> mem k' 0x10A0000 = CHR ''h''"
proof -
  obtain s s1 s2 as b i j where a: "kmalloc_all (replicate 8 (2 ^ 21)) (mm_init bss_mm) = Inr (s, as)" "length as = 8"
    "i < 8" "j < 8" "as ! i = 0x1000000" "as ! j = 0x200000" "kfree (as ! j) s = Inr s1" "kmalloc 4096 s1 = Inr (s2, b)"
    by (rule last_block_in_use)
  let ?k = "set_mm s1 (user_kernel disk_mem)"
  have k: "mem ?k = disk_mem" "kmm ?k = s1" by (simp_all add: user_kernel_fields)
  have mv: "cpio_move_file 2 (mem ?k) INITRAMFS_ADDR (peek (mem ?k) 0x800006E) 0x10A0000 = Inr (disk_loaded, 0x10A0000)"
    using disk_move by (simp only: disk_loaded_def k)
  have "kmalloc 4096 (kmm ?k) = Inr (s2, b)" using a(8) k(2) by simp
  from exec_no_args [OF mv disk_loaded_end this]
  obtain k' where k': "sys_exec 2 0x800006E 0x80000F0 ?k = Inr (k', 0)" "mem k' = disk_loaded" by blast
  have "disk_loaded 0x10A0000 = CHR ''h''" using image_chars(4) by (simp add: disk_loaded_def disk_mem_def INITRAMFS_ADDR_def)
  moreover have "disk_mem 0x10A0000 = NUL" by (simp add: disk_mem_def INITRAMFS_ADDR_def lit_def sample_image_length)
  moreover have "i \<noteq> j" using a(5,6) by auto
  ultimately show ?thesis using a k' k(1)
    by (intro exI [of _ s] exI [of _ s1] exI [of _ as] exI [of _ i] exI [of _ j] exI [of _ k']) simp
qed

end
