(* ===== verification/Mm_Dump.thy ===== *)
theory Mm_Dump
  imports Kmalloc_Props Kernel_State
begin

text \<open>
  The two functions of \<open>src/mm.c\<close> that print the state of the memory manager; they are compiled with \<open>__DEBUG\<close>. A printed line is a
  format with its arguments, and \<open>printf\<close> itself is modelled in \<open>Printf\<close>.
\<close>

type_synonym dump = "(string \<times> vararg list) list"

text \<open>The loop over a list: a line for each page on it.\<close>

fun dump_nodes :: "(int \<Rightarrow> string \<times> vararg list) \<Rightarrow> mm_node list \<Rightarrow> dump result" where
  "dump_nodes line [] = Inr []"
| "dump_nodes line (pos # ns) = bind_result (page_of pos) (\<lambda>p. bind_result (dump_nodes line ns) (\<lambda>ls. Inr (line p # ls)))"

definition dump_list :: "(int \<Rightarrow> string \<times> vararg list) \<Rightarrow> mm_node \<Rightarrow> mm_state \<Rightarrow> dump result" where
  "dump_list line head s =
     (case list_for_each (nat PAGE_FRAME_NUM) (links s) (nxt (links s head)) head of
        None \<Rightarrow> Inl No_Return
      | Some ns \<Rightarrow> dump_nodes line ns)"

definition area_line :: "mm_state \<Rightarrow> int \<Rightarrow> string \<times> vararg list" where
  "area_line s p = ('' -> {pfn(%d)} {phy_addr_16(0x%x)}'', [VInt (pfn (bookkeep s p)), VInt (uint (phy_addr (bookkeep s p)))])"

fun dump_areas :: "int list \<Rightarrow> mm_state \<Rightarrow> dump result" where
  "dump_areas [] s = Inr []"
| "dump_areas (i # is) s =
     bind_result (dump_list (area_line s) (FreeArea i) s) (\<lambda>ls. bind_result (dump_areas is s) (\<lambda>rest.
       Inr (([NL] @ ''Order-%d'' @ [NL], [VInt i]) # ls @ rest)))"

definition dump_buddy :: "mm_state \<Rightarrow> dump result" where
  "dump_buddy s = bind_result (dump_areas [0..MAX_ORDER] s) (\<lambda>ls. Inr (
     [([NL] @ ''---------Buddy Debug---------'' @ [NL], []), (''***Freelist(free_area) Debug***'', [])] @ ls @
     [([NL] @ ''---------End Buddy Debug---------'' @ [NL, NL], [])]))"

definition slab_line :: "mm_state \<Rightarrow> int \<Rightarrow> string \<times> vararg list" where
  "slab_line s p = (''--> {pfn(%d)}'', [VInt (pfn (bookkeep s p))])"

definition dump_obj_alloc :: "int \<Rightarrow> mm_state \<Rightarrow> dump result" where
  "dump_obj_alloc t s =
     (let a = obj_alloc_pool s t;
          counters = [([NL] @ ''---------Object Allocator Debug---------'' @ [NL], []), (''objsize = %d'' @ [NL], [VInt (objsize a)]),
            (''obj_per_page = %d'' @ [NL], [VInt (obj_per_page a)]), (''obj_used = %d'' @ [NL], [VInt (alloc_obj_used a)]),
            (''page_used = %d'' @ [NL], [VInt (page_used a)]), ([NL] @ ''object_allocator->curr_page current page info:'' @ [NL], [])];
          current = (case curr_page a of
              None \<Rightarrow> [(''object_allocator->curr_page is NULL currently'' @ [NL], [])]
            | Some p \<Rightarrow> [(''obj_allocator_p->curr_page = {0x%x}'' @ [NL], [VInt (uint (phy_addr (bookkeep s p)))]),
                (''obj free list point to {0x%x}'' @ [NL], [VInt (uint (free (bookkeep s p)))]),
                (''obj_used = %d'' @ [NL], [VInt (pg_obj_used (bookkeep s p))]), (''pfn = %d'' @ [NL], [VInt (pfn (bookkeep s p))])])
      in bind_result (dump_list (slab_line s) (FullHead t) s) (\<lambda>full.
         bind_result (dump_list (slab_line s) (PartialHead t) s) (\<lambda>partial.
         bind_result (dump_list (slab_line s) (EmptyHead t) s) (\<lambda>empty.
         Inr (counters @ current @ [([NL], [])] @
           [(''object_allocator->full list:'' @ [NL], [])] @ full @ [([NL], [])] @
           [(''object_allocator->partial list:'' @ [NL], [])] @ partial @ [([NL], [])] @
           [(''object_allocator->empty list:'' @ [NL], [])] @ empty @
           [([NL] @ ''---------End Object Allocator Debug---------'' @ [NL, NL], [])])))))"

section \<open>What they print\<close>

lemma dump_nodes_pages: "dump_nodes line (map PageNode ps) = Inr (map line ps)"
  by (induction ps) simp_all

lemma area_walk:
  assumes c: "buddy_core s F E M A" and i: "i \<in> {0..MAX_ORDER}"
  shows "dump_list line (FreeArea i) s = Inr (map line (F i))"
proof -
  have "dlists (links s) (area_heads \<union> E) (lists_of F M)" using c by (simp add: core_defs)
  moreover have "FreeArea i \<in> area_heads" using i by (simp add: area_heads_def)
  ultimately have "dlist (links s) (FreeArea i) (lists_of F M (FreeArea i))" unfolding dlists_def by blast
  then have dl: "dlist (links s) (FreeArea i) (map PageNode (F i))" by simp
  have "valid_block (p, i)" if "p \<in> set (F i)" for p
    using core_valid [OF c] free_blocksI [of i p F] i that by auto
  then have "set (F i) \<subseteq> {0..<PAGE_FRAME_NUM}" using valid_block_in_bookkeep [OF _ frames_self(1)] by (fastforce simp: in_bookkeep_def)
  moreover have "distinct (F i)" using core_free_distinct [OF c] i by simp
  ultimately have "length (F i) \<le> nat PAGE_FRAME_NUM"
    using card_mono [of "{0..<PAGE_FRAME_NUM}" "set (F i)"] by (simp add: distinct_card)
  then have "list_for_each (nat PAGE_FRAME_NUM) (links s) (nxt (links s (FreeArea i))) (FreeArea i) = Some (map PageNode (F i))"
    by (intro list_for_each_dlist [OF dl]) simp
  then show ?thesis by (simp add: dump_list_def dump_nodes_pages)
qed

lemma dump_areas_all:
  assumes "\<And>i. i \<in> set is \<Longrightarrow> dump_list (area_line s) (FreeArea i) s = Inr (ls i)"
  shows "dump_areas is s = Inr (concat (map (\<lambda>i. ([NL] @ ''Order-%d'' @ [NL], [VInt i]) # ls i) is))"
  using assms by (induction "is") simp_all

text \<open>
  In every reachable state of the memory manager \<open>dump_buddy\<close> returns; for every order it prints as many blocks as the counter
  of that free area says, each with its number and its address; and no address a client holds lies in one of these blocks.
\<close>

theorem dump_buddy_correct:
  assumes "mm_reach s L"
  shows "\<exists>F. dump_buddy s = Inr (
      [([NL] @ ''---------Buddy Debug---------'' @ [NL], []), (''***Freelist(free_area) Debug***'', [])] @
      concat (map (\<lambda>i. ([NL] @ ''Order-%d'' @ [NL], [VInt i]) #
        map (\<lambda>p. ('' -> {pfn(%d)} {phy_addr_16(0x%x)}'', [VInt p, VInt (LOW_MEMORY + p * PAGE_SIZE)])) (F i)) [0..MAX_ORDER]) @
      [([NL] @ ''---------End Buddy Debug---------'' @ [NL, NL], [])]) \<and>
    (\<forall>i\<in>{0..MAX_ORDER}. nr_free s i = int (length (F i)) \<and>
      (\<forall>p\<in>set (F i). valid_block (p, i) \<and> (\<forall>a\<in>#L. addr_pfn a \<notin> frames (p, i))))"
proof -
  obtain M A where h: "heap_inv s M A L" using mm_reach_inv [OF assms] by blast
  then have i: "mm_inv s M A" and l: "live_ok s A L" by (simp_all add: heap_inv_def)
  then obtain F where c: "buddy_core s F (slab_heads (registered s)) M A" by (auto simp: mm_inv_def buddy_owns_def buddy_inv_def)
  have block: "(p, k) \<in> free_blocks F" "valid_block (p, k)" "in_bookkeep p" if "k \<in> {0..MAX_ORDER}" "p \<in> set (F k)" for k p
  proof -
    show f: "(p, k) \<in> free_blocks F" using free_blocksI that by simp
    then show "valid_block (p, k)" using core_valid [OF c] by blast
    then show "in_bookkeep p" by (rule valid_block_in_bookkeep) simp
  qed
  have line: "area_line s p = ('' -> {pfn(%d)} {phy_addr_16(0x%x)}'', [VInt p, VInt (LOW_MEMORY + p * PAGE_SIZE)])" if p: "in_bookkeep p" for p
  proof -
    have "phy_addr (bookkeep s p) = word_of_int (LOW_MEMORY + p * PAGE_SIZE)" using i p by (simp add: mm_inv_def slab_ok_def)
    then have "uint (phy_addr (bookkeep s p)) = LOW_MEMORY + p * PAGE_SIZE"
      using p uint_u64_of_int [of "LOW_MEMORY + p * PAGE_SIZE"] by (auto simp: in_bookkeep_def)
    then show ?thesis using core_pages(1) [OF c p] by (simp add: area_line_def)
  qed
  have away: "addr_pfn a \<notin> frames (p, k)" if k: "k \<in> {0..MAX_ORDER}" "p \<in> set (F k)" and a: "a \<in># L" for k p a
  proof
    assume m: "addr_pfn a \<in> frames (p, k)"
    have "live_addr s A a" using l a by (simp add: live_ok_def)
    then obtain j where j: "(addr_pfn a, j) \<in> A" using live_in_block [OF i] by blast
    have "(p, k) = (addr_pfn a, j)" using core_meet [OF c _ _ m frames_self(1)] block(1) [OF k] j by blast
    then show False using j block(1) [OF k] c by (auto simp: core_defs)
  qed
  have "dump_list (area_line s) (FreeArea k) s =
      Inr (map (\<lambda>p. ('' -> {pfn(%d)} {phy_addr_16(0x%x)}'', [VInt p, VInt (LOW_MEMORY + p * PAGE_SIZE)])) (F k))"
    if k: "k \<in> set [0..MAX_ORDER]" for k
    using area_walk [OF c, of k "area_line s"] k line block(3) [of k] by simp
  then have d: "dump_areas [0..MAX_ORDER] s = Inr (concat (map (\<lambda>k. ([NL] @ ''Order-%d'' @ [NL], [VInt k]) #
      map (\<lambda>p. ('' -> {pfn(%d)} {phy_addr_16(0x%x)}'', [VInt p, VInt (LOW_MEMORY + p * PAGE_SIZE)])) (F k)) [0..MAX_ORDER]))"
    by (rule dump_areas_all)
  show ?thesis
    unfolding dump_buddy_def d bind_result_simps
  proof (intro exI [of _ F] conjI ballI)
    fix k p a assume "k \<in> {0..MAX_ORDER}" "p \<in> set (F k)" "a \<in># L"
    then show "addr_pfn a \<notin> frames (p, k)" by (rule away)
  qed (use core_pages(5) [OF c] block(2) in simp_all)
qed

end
