(* ===== verification/Spec2Isabelle.thy ===== *)
theory Spec2Isabelle
  imports Kmalloc_Props Cpio Timer_Props Timer_Info Uart_Props Sched_Props Wait_Props Fork_Props Sys_Props Exit_Props
    Main_Props Kernel_Steps Shell_Props Shell_Steps Loader_Props Entry_Props User_Output Exec_Heap Mm_Dump
begin

text \<open>
  A verification development of the AArch64 teaching kernel under \<open>src/\<close>, for the Raspberry Pi 3,
  and of its bootloader.

  \<^bold>\<open>The program.\<close> \<open>main\<close> sets up the serial line, the memory manager and the core timer, creates four
  kernel threads and then runs the idle loop as task 0. The memory manager is a buddy system of
  4096 page frames, with object allocators for the sizes from 8 to 2048 bytes on top of it, and
  \<open>kmalloc\<close> and \<open>kfree\<close> in front of both. Task structures and user stacks are pages from \<open>kmalloc\<close>,
  timer events are objects from it. The scheduler picks the runnable task with the most time left;
  tasks are switched by \<open>schedule\<close>, by waiting for the serial line, by exiting, and by the timer
  interrupt. User programs come from a cpio archive, the initial ram disk, and enter the kernel by
  system calls. A second mode of the kernel, the shell, shares two character buffers with the
  interrupt handler of the line, and sets timers whose events are multiplexed on the one timer
  of the core. The bootloader receives a kernel over the line.

  \<^bold>\<open>Which theory models what.\<close> Paths are below \<open>src/src/\<close> unless said otherwise; definitions have the
  names of the functions they translate, and a loop inside a function is a definition of its own.
  \<^item> \<open>Kernel_Prelude\<close>: the error values, the lemma collections, facts on aligned ranges, reachable
    states and the locale \<open>invariant\<close>. \<open>Linked_List\<close>: the intrusive lists of \<open>include/list.h\<close>. A heap of
    links maps a node to its two neighbours; \<open>dlist\<close> says that a head carries a list, \<open>dlists\<close> that a
    family of heads carries disjoint ones (locale \<open>list_family\<close>, interpreted on the operations).
  \<^item> \<open>Mm_State\<close>, \<open>Buddy\<close>, \<open>Slab\<close>: \<open>mm.c\<close>. The state is the array \<open>bookkeep\<close> as a function from page numbers,
    the links of all list nodes in one heap, the counters, the pool of allocators, and the words written into free
    objects. \<open>Buddy_Inv\<close> holds the invariant of the buddy system, \<open>Buddy_Spec\<close> the abstract allocator it
    refines and the locale \<open>page_allocator\<close>, the contract the object allocators use; \<open>Slab_Inv\<close> and \<open>Slab_Steps\<close>
    the invariant of the object allocators; \<open>Kmalloc\<close> that of the whole, and \<open>Kmalloc_Props\<close> the
    properties of every run of \<open>kmalloc\<close> and \<open>kfree\<close>.
  \<^item> \<open>Strings\<close>: \<open>string.c\<close>, \<open>math.c\<close>, and the \<open>reverse\<close> of \<open>bootloader/src/string.c\<close>. \<open>Printf\<close>: \<open>printf.c\<close>, with the output
    function as a parameter. \<open>Output\<close>: the locales \<open>output_device\<close> (what the formatter collects is what the device
    prints) and \<open>output_frame\<close> (what the output function leaves alone, \<open>printf\<close> leaves alone), with the array of
    \<open>tfp_sprintf\<close> as a device.
  \<^item> \<open>Cpio\<close>: \<open>cpio.c\<close> over a memory of bytes, against a description of well-formed archives.
  \<^item> \<open>Timer\<close>, \<open>Timer_Props\<close>, \<open>Timer_Info\<close>: \<open>timer.c\<close> and the register writes of \<open>timer.S\<close>; the event list in order of
    deadlines; what is printed about events.
  \<^item> \<open>Uart\<close>, \<open>Uart_Props\<close>: \<open>uart.c\<close>; the line as an \<open>output_device\<close> and as an \<open>output_frame\<close>.
  \<^item> \<open>Kernel_State\<close>: the state of the upper half, a record of tasks, register frames, wait queue and the
    states of the parts below. \<open>Sched\<close> is \<open>sched.c\<close> with \<open>sched.S\<close>, \<open>Fork\<close> is \<open>fork.c\<close>, \<open>Wait\<close> is \<open>wait.c\<close>, \<open>Sys\<close> is \<open>sys.c\<close> with the
    copy loop of \<open>mm.S\<close> and the dispatch of \<open>entry.S\<close>, \<open>Exception\<close> is \<open>exception.c\<close>, \<open>Kernel_Main\<close> is \<open>main.c\<close>. Their lemmas are
    in \<open>Sched_Props\<close> (the pool, the choice, fairness), \<open>Fork_Props\<close>, \<open>Wait_Props\<close>, \<open>Sys_Props\<close>, \<open>Exit_Props\<close> and \<open>Main_Props\<close> (boot).
  \<^item> \<open>Kernel_Steps\<close>: the kernel as one step relation, with system calls, user code, thread switches and
    interrupts in any order, and the invariant that ties pool, wait queue and allocator together.
  \<^item> \<open>Entry\<close>, \<open>Entry_Props\<close>: \<open>entry.S\<close> and \<open>sys.S\<close>. The state is that of the processor, a record \<open>machine\<close> of registers
    around the state of the kernel; \<open>kernel_entry\<close> and \<open>kernel_exit\<close> move the registers to and from the frame of the running task.
  \<^item> \<open>User_Lib\<close>: \<open>printf\<close> of the programs under \<open>rootfs/\<close>, over system calls. \<open>User_Prog\<close>: the test programs of \<open>main.c\<close>
    and the programs under \<open>rootfs/\<close>, as trees (\<open>prog\<close>) of what they do at the border to the kernel. \<open>User_Steps\<close>: a step relation
    that runs them on the kernel. \<open>User_Output\<close>: the lines a program and its children print, in any interleaving.
  \<^item> \<open>Exec_Heap\<close>: the load address of \<open>sys_exec\<close> and the allocator. \<open>Mm_Dump\<close>: the functions of \<open>mm.c\<close> that print its state.
  \<^item> \<open>Shell\<close>, \<open>Shell_Props\<close>, \<open>Shell_Steps\<close>: \<open>shell.c\<close> and \<open>command.c\<close>; the line editor as an edited string; the shell
    and the interrupt handler as one step relation.
  \<^item> \<open>Bootloader\<close>, \<open>Loader_Props\<close>: \<open>main.c\<close>, \<open>command.c\<close> and \<open>shell.c\<close> under \<open>bootloader/src/\<close>.
\<close>

text \<open>
  \<^bold>\<open>Conventions.\<close> A pointer is an address (\<open>u64\<close>) or the name of the object it points to, with \<open>NULL\<close> as 0,
  \<open>None\<close> or a constructor; \<open>int\<close> and \<open>long\<close> are \<open>int\<close>, cut to their width where the source can leave it
  (the allocator's arithmetic stays far inside), unsigned values and registers are words. What
  the source leaves undefined, and every access through a null pointer or outside an array, is a
  value of \<open>kerror\<close>, so an operation that returns \<open>Inr\<close> has done none of it. (The kernel runs without
  the MMU, so on the machine such an access need not trap; it reads or writes unrelated memory.) In the task pool the counters
  are ints with the bounds of the invariant; the scheduler's local \<open>c\<close> is cut to 32 bits.

  \<^bold>\<open>Devices.\<close> What a device will answer to the next reads is a list in the state that every read
  shortens, so that all behaviours of the device are covered by all lists. A loop that polls when
  the list is used up is still running: its value is \<open>No_Return\<close>. The properties that say
  that something is printed or read assume as many answers as they need. The counter and the
  frequency of the timer, and the interrupt registers, are arguments.

  \<^bold>\<open>Loops and bounds.\<close> Loops with a bound in the source are recursive functions with a measure. The
  merge loop of \<open>buddy_block_free\<close> runs with one more step than there are orders, and is proved never
  to use the last one. Walks along a list stop after \<open>WALK_BOUND\<close>, \<open>2 ^ 24\<close>, nodes: one for each byte of
  managed memory, more than there can be events or waiting tasks. The count of the arguments of \<open>exec\<close> stops
  after \<open>2 ^ 31\<close>, where the \<open>int\<close> of the source overflows. The loops of \<open>cpio.c\<close> run with the number of headers
  as an argument and need one for each file and one for the trailer. The loop of the
  scheduler has no bound in the source; it is a \<open>partial_function\<close>, and proved to return.

  \<^bold>\<open>Interrupts and switches.\<close> An operation of the kernel is one step; interrupts come between steps.
  The shell is cut further, at the ends of its critical sections, since it shares data with the
  handler; a command is one step. A function that is switched out in the middle
  is modelled up to the switch, and what it does after it comes back, the decrement of the
  preemption counter, is part of the step that switches back to it. The interrupt mask is not part
  of the state. Text the kernel prints by \<open>printf\<close> while it runs tasks is recorded in \<open>console\<close> as format
  and arguments; that such a text reaches the line is shown for the driver. User memory, in which
  stacks, programs and the ram disk lie, is kept apart from the structures of the kernel.

  \<^bold>\<open>Programs.\<close> A \<open>prog\<close> is what is left to run of a task: the next line it prints, system call it makes, access to
  user memory, or switch, and what follows for every result. Local variables are variables of
  the tree, so the two tasks after a \<open>fork\<close> go on with the same values. Where the address of a local variable matters, \<open>off\<close> is its distance
  from the end of the user stack, and \<open>lit\<close>, as an argument \<open>litr\<close>, gives the address of a string literal; both are the compiler's
  choice and arguments of the programs. The program that starts at the load address of \<open>exec\<close> is an argument of
  the step relation, as a function of memory.

  \<^bold>\<open>What the lemmas show.\<close> C1 to C4: the buddy system refines an allocator of aligned disjoint blocks, keeps
  the number of frames, and merges all it can. C6 to C11: every run of \<open>kmalloc\<close> and \<open>kfree\<close>, and the
  defect by which an address is handed out twice after a release. C12, C14, C16 to C18: strings and formatted output.
  C19, C21: archives. C22, C23: timer events. C26: the line. C27, C29: the
  scheduler returns, chooses rightly and is fair. C30 to C37: task creation, waiting, the system calls that change
  tasks, exiting, and (C36) the invariant of the whole kernel. C38: boot, and the null pointer
  its idle loop follows. C28, C39: the shell, its buffers, and the race that breaks them. C40: the
  bootloader, and the images it corrupts. C5, C13: the border to user mode, registers over a system call and the two
  returns of \<open>fork\<close>. C15, C20, C25: programs; their runs are runs of the kernel, \<open>fork_test\<close> prints the same lines in
  any interleaving, and their \<open>printf\<close> is the kernel's. C24: \<open>exec\<close> overwrites memory of the allocator. Where the code has a defect the property states what it does.

  \<^bold>\<open>Not modelled.\<close> The start-up code \<open>start.S\<close>, with the relocation of the bootloader, is machine set-up below the level
  of the state here; so are the interrupt mask and the entries of the vector table that only report an
  exception (\<open>handle_invalid_entry\<close> is their common body). In \<open>Kernel_Steps\<close> user code is any change of user memory
  and registers; in \<open>User_Steps\<close> it is a program, and no program there kills another one. The copies of \<open>printf.c\<close> for the bootloader and the
  programs under \<open>rootfs/\<close> are the kernel's file, byte by byte, and share its model. The driver in their \<open>uart.c\<close>, \<open>putc\<close> apart, and
  their \<open>string.c\<close> are not used by these programs. The test functions at the end of \<open>timer.c\<close> and all delay loops are
  left out. The kernel has no virtual memory.
\<close>

end
